(* ===== verification/Prelude.thy ===== *)
theory Prelude
  imports Complex_Main "HOL-Library.Word" "HOL-Library.List_Lexorder" "HOL-Library.Char_ord"
    "HOL-Library.Multiset"
begin

text \<open>
  The shared vocabulary of the development: machine-integer arithmetic as Rust's
  standard library defines it, decimal printing, the fragment of SQL the Diesel
  back ends use (ordered selects, \<open>LIMIT\<close>/\<open>OFFSET\<close>, keyed inserts, filtered
  updates and deletes) and the generic lemmas about them. Tables are lists of rows in the
  engine's row order; a primary key is a function from rows to keys.
\<close>

named_theorems table_simps \<open>rewriting for select, insert, update and delete on a table\<close>
named_theorems status_simps \<open>job status codes and the predicates on them\<close>

type_synonym bytes = "8 word list"

section \<open>Signed 64-bit arithmetic\<close>

text \<open>
  Rust's \<open>i64\<close> is modelled by \<open>int\<close> and the operations the source chooses
  between are spelled out: \<open>saturating_add\<close>, \<open>saturating_sub\<close> and
  \<open>saturating_mul\<close> clamp to the representable range; a plain \<open>+\<close> wraps in a release
  build.
\<close>

definition i64_min :: int where
  "i64_min = - (2 ^ 63)"

definition i64_max :: int where
  "i64_max = 2 ^ 63 - 1"

definition is_i64 :: "int \<Rightarrow> bool" where
  "is_i64 x \<longleftrightarrow> i64_min \<le> x \<and> x \<le> i64_max"

definition sat_i64 :: "int \<Rightarrow> int" where
  "sat_i64 x = max i64_min (min i64_max x)"

definition saturating_add :: "int \<Rightarrow> int \<Rightarrow> int" where
  "saturating_add a b = sat_i64 (a + b)"

definition saturating_sub :: "int \<Rightarrow> int \<Rightarrow> int" where
  "saturating_sub a b = sat_i64 (a - b)"

definition saturating_mul :: "int \<Rightarrow> int \<Rightarrow> int" where
  "saturating_mul a b = sat_i64 (a * b)"

definition wrapping_i64 :: "int \<Rightarrow> int" where
  "wrapping_i64 x = (x + 2 ^ 63) mod 2 ^ 64 - 2 ^ 63"

definition wrapping_add :: "int \<Rightarrow> int \<Rightarrow> int" where
  "wrapping_add a b = wrapping_i64 (a + b)"

definition i32_max :: int where
  "i32_max = 2 ^ 31 - 1"

definition i32_min :: int where
  "i32_min = - (2 ^ 31)"

definition wrapping_i32 :: "int \<Rightarrow> int" where
  "wrapping_i32 x = (x + 2 ^ 31) mod 2 ^ 32 - 2 ^ 31"

definition saturating_add_i32 :: "int \<Rightarrow> int \<Rightarrow> int" where
  "saturating_add_i32 a b = max i32_min (min i32_max (a + b))"

lemmas i64_defs = i64_min_def i64_max_def is_i64_def sat_i64_def saturating_add_def
  saturating_sub_def saturating_mul_def

lemma is_i64_sat [simp, intro]: "is_i64 (sat_i64 x)"
  by (simp add: i64_defs)

lemma is_i64_saturating [simp]:
  "is_i64 (saturating_add a b)" "is_i64 (saturating_sub a b)" "is_i64 (saturating_mul a b)"
  by (simp_all add: saturating_add_def saturating_sub_def saturating_mul_def)

lemma sat_i64_id [simp]: "is_i64 x \<Longrightarrow> sat_i64 x = x"
  by (auto simp: i64_defs)

lemma saturating_add_exact: "is_i64 (a + b) \<Longrightarrow> saturating_add a b = a + b"
  by (simp add: saturating_add_def)

lemma saturating_sub_exact: "is_i64 (a - b) \<Longrightarrow> saturating_sub a b = a - b"
  by (simp add: saturating_sub_def)

lemma sat_i64_mono: "a \<le> b \<Longrightarrow> sat_i64 a \<le> sat_i64 b"
  by (auto simp: sat_i64_def)

lemma saturating_add_ge: "is_i64 a \<Longrightarrow> 0 \<le> b \<Longrightarrow> a \<le> saturating_add a b"
  using sat_i64_mono [of a "a + b"] by (simp add: saturating_add_def)

lemma saturating_add_mono: "b \<le> c \<Longrightarrow> saturating_add a b \<le> saturating_add a c"
  by (simp add: saturating_add_def sat_i64_mono)

lemma saturating_add_mono_left: "a \<le> b \<Longrightarrow> saturating_add a c \<le> saturating_add b c"
  by (simp add: saturating_add_def sat_i64_mono)

lemma wrapping_i64_id: "is_i64 x \<Longrightarrow> wrapping_i64 x = x"
  by (auto simp: wrapping_i64_def is_i64_def i64_min_def i64_max_def)

lemma wrapping_add_exact: "is_i64 (a + b) \<Longrightarrow> wrapping_add a b = a + b"
  by (simp add: wrapping_add_def wrapping_i64_id)

lemma wrapping_i32_id: "i32_min \<le> x \<Longrightarrow> x \<le> i32_max \<Longrightarrow> wrapping_i32 x = x"
  by (auto simp: wrapping_i32_def i32_min_def i32_max_def)

section \<open>Decimal printing\<close>

fun digit_char :: "nat \<Rightarrow> char" where
  "digit_char n = char_of (48 + n :: nat)"

fun string_of_nat :: "nat \<Rightarrow> string" where
  "string_of_nat n =
     (if n < 10 then [digit_char n] else string_of_nat (n div 10) @ [digit_char (n mod 10)])"

declare string_of_nat.simps [simp del]

definition string_of_int :: "int \<Rightarrow> string" where
  "string_of_int i =
     (if i < 0 then CHR ''-'' # string_of_nat (nat (- i)) else string_of_nat (nat i))"

section \<open>Ordered selects\<close>

text \<open>
  \<open>ORDER BY\<close> with an arbitrary comparison: insertion sort, which is stable, so that
  rows the comparison ties keep their row order.
\<close>

fun insert_by :: "('a \<Rightarrow> 'a \<Rightarrow> bool) \<Rightarrow> 'a \<Rightarrow> 'a list \<Rightarrow> 'a list" where
  "insert_by le x [] = [x]"
| "insert_by le x (y # ys) = (if le x y then x # y # ys else y # insert_by le x ys)"

definition order_by :: "('a \<Rightarrow> 'a \<Rightarrow> bool) \<Rightarrow> 'a list \<Rightarrow> 'a list" where
  "order_by le xs = foldr (insert_by le) xs []"

lemma order_by_simps [simp]:
  "order_by le [] = []"
  "order_by le (x # xs) = insert_by le x (order_by le xs)"
  by (simp_all add: order_by_def)

lemma mset_insert_by [simp]: "mset (insert_by le x xs) = add_mset x (mset xs)"
  by (induction xs) auto

lemma set_insert_by: "set (insert_by le x xs) = insert x (set xs)"
  by (induction xs) auto

lemma mset_order_by [simp]: "mset (order_by le xs) = mset xs"
  by (induction xs) auto

lemma set_order_by [simp]: "set (order_by le xs) = set xs"
  by (metis mset_order_by set_mset_mset)

lemma length_order_by [simp]: "length (order_by le xs) = length xs"
  by (metis mset_order_by size_mset)

lemma distinct_map_order_by [simp]: "distinct (map f (order_by le xs)) = distinct (map f xs)"
  by (rule mset_eq_imp_distinct_iff) simp

text \<open>
  The contract of an \<open>ORDER BY\<close> clause: a total preorder on rows. Every ordering the
  source uses is an interpretation of this locale.
\<close>

locale row_order =
  fixes le :: "'a \<Rightarrow> 'a \<Rightarrow> bool"
  assumes le_total: "le x y \<or> le y x"
    and le_trans: "le x y \<Longrightarrow> le y z \<Longrightarrow> le x z"
begin

lemma le_refl: "le x x"
  using le_total [of x x] by simp

lemma sorted_insert_by: "sorted_wrt le xs \<Longrightarrow> sorted_wrt le (insert_by le x xs)"
proof (induction xs)
  case Nil
  then show ?case by simp
next
  case (Cons y ys)
  show ?case
  proof (cases "le x y")
    case True
    with Cons.prems show ?thesis by (auto dest: le_trans [OF True])
  next
    case False
    then have "le y x" using le_total [of x y] by simp
    with False Cons show ?thesis by (simp add: set_insert_by)
  qed
qed

lemma sorted_order_by: "sorted_wrt le (order_by le xs)"
  by (induction xs) (auto intro: sorted_insert_by)

lemma order_by_take_least:
  assumes "x \<in> set (take n (order_by le xs))" "y \<in> set (drop n (order_by le xs))"
  shows "le x y"
proof -
  have "sorted_wrt le (take n (order_by le xs) @ drop n (order_by le xs))"
    using sorted_order_by by simp
  then show ?thesis
    using assms unfolding sorted_wrt_append by blast
qed

lemma order_by_hd_least: "order_by le xs = y # ys \<Longrightarrow> x \<in> set xs \<Longrightarrow> le y x"
proof -
  assume eq: "order_by le xs = y # ys" and "x \<in> set xs"
  then have "x \<in> set (y # ys)" by (metis set_order_by)
  moreover have "sorted_wrt le (y # ys)" using sorted_order_by [of xs] eq by simp
  ultimately show "le y x" by (auto simp: le_refl)
qed

end

section \<open>LIMIT and OFFSET\<close>

text \<open>SQLite reads a negative \<open>LIMIT\<close> as \<^emph>\<open>unbounded\<close> and a negative \<open>OFFSET\<close> as zero.\<close>

definition sql_limit :: "int \<Rightarrow> 'a list \<Rightarrow> 'a list" where
  "sql_limit n xs = (if n < 0 then xs else take (nat n) xs)"

definition sql_offset :: "int \<Rightarrow> 'a list \<Rightarrow> 'a list" where
  "sql_offset n xs = drop (nat n) xs"

lemma set_sql_limit: "set (sql_limit n xs) \<subseteq> set xs"
  by (auto simp: sql_limit_def dest: in_set_takeD)

lemma set_sql_offset: "set (sql_offset n xs) \<subseteq> set xs"
  by (auto simp: sql_offset_def dest: in_set_dropD)

lemma length_sql_limit: "0 \<le> n \<Longrightarrow> int (length (sql_limit n xs)) = min n (int (length xs))"
  by (auto simp: sql_limit_def)

section \<open>Keyed tables\<close>

definition find_row :: "('r \<Rightarrow> 'k) \<Rightarrow> 'k \<Rightarrow> 'r list \<Rightarrow> 'r option" where
  "find_row key k rows = find (\<lambda>r. key r = k) rows"

definition update_where :: "('r \<Rightarrow> bool) \<Rightarrow> ('r \<Rightarrow> 'r) \<Rightarrow> 'r list \<Rightarrow> 'r list" where
  "update_where P f rows = map (\<lambda>r. if P r then f r else r) rows"

definition delete_where :: "('r \<Rightarrow> bool) \<Rightarrow> 'r list \<Rightarrow> 'r list" where
  "delete_where P rows = filter (\<lambda>r. \<not> P r) rows"

definition count_where :: "('r \<Rightarrow> bool) \<Rightarrow> 'r list \<Rightarrow> nat" where
  "count_where P rows = length (filter P rows)"

text \<open>An insert that violates the key constraint fails and leaves no row behind.\<close>

definition insert_row :: "('r \<Rightarrow> 'k) \<Rightarrow> 'r \<Rightarrow> 'r list \<Rightarrow> 'r list option" where
  "insert_row key r rows = (if key r \<in> key ` set rows then None else Some (rows @ [r]))"

text \<open>\<open>REPLACE INTO\<close>: the row with the same key, if any, is deleted and the new one appended.\<close>

definition replace_row :: "('r \<Rightarrow> 'k) \<Rightarrow> 'r \<Rightarrow> 'r list \<Rightarrow> 'r list" where
  "replace_row key row rows = delete_where (\<lambda>r. key r = key row) rows @ [row]"

lemma find_row_Nil [simp]: "find_row key k [] = None"
  by (simp add: find_row_def)

lemma find_row_Cons [simp]:
  "find_row key k (r # rows) = (if key r = k then Some r else find_row key k rows)"
  by (simp add: find_row_def)

lemma find_row_SomeD: "find_row key k rows = Some r \<Longrightarrow> r \<in> set rows \<and> key r = k"
  by (auto simp: find_row_def find_Some_iff)

lemma find_row_None_iff: "find_row key k rows = None \<longleftrightarrow> k \<notin> key ` set rows"
  by (auto simp: find_row_def find_None_iff)

lemma find_row_Some_iff:
  "distinct (map key rows) \<Longrightarrow> find_row key k rows = Some r \<longleftrightarrow> r \<in> set rows \<and> key r = k"
  by (induction rows) (auto simp: image_iff)

lemma bex_find_row:
  "distinct (map key rows) \<Longrightarrow>
     (\<exists>r \<in> set rows. key r = k \<and> P r) \<longleftrightarrow> (\<exists>r. find_row key k rows = Some r \<and> P r)"
  by (auto simp: find_row_Some_iff)

lemma find_row_append [table_simps]:
  "find_row key k (xs @ ys) = (case find_row key k xs of None \<Rightarrow> find_row key k ys | Some r \<Rightarrow> Some r)"
  by (induction xs) auto

lemma set_update_where: "set (update_where P f rows) = (\<lambda>r. if P r then f r else r) ` set rows"
  by (simp add: update_where_def)

lemma set_delete_where [table_simps]: "set (delete_where P rows) = {r \<in> set rows. \<not> P r}"
  by (auto simp: delete_where_def)

lemma update_whereE:
  assumes "r \<in> set (update_where P f rows)"
  obtains r0 where "r0 \<in> set rows" "r = (if P r0 then f r0 else r0)"
  using assms unfolding set_update_where by (rule imageE)

lemma length_update_where [simp]: "length (update_where P f rows) = length rows"
  by (simp add: update_where_def)

lemma length_delete_where: "length (delete_where P rows) + count_where P rows = length rows"
  by (induction rows) (auto simp: delete_where_def count_where_def)

lemma count_where_0_iff: "count_where P rows = 0 \<longleftrightarrow> (\<forall>r \<in> set rows. \<not> P r)"
  by (auto simp: count_where_def filter_empty_conv)

lemma delete_where_id: "(\<And>r. r \<in> set rows \<Longrightarrow> \<not> P r) \<Longrightarrow> delete_where P rows = rows"
  by (auto simp: delete_where_def)

lemma update_where_id: "(\<And>r. r \<in> set rows \<Longrightarrow> \<not> P r) \<Longrightarrow> update_where P f rows = rows"
  by (auto simp: update_where_def intro: map_idI)

lemma filter_update_where:
  "(\<And>r. P (f r) = P r) \<Longrightarrow> filter P (update_where Q f rows) = update_where Q f (filter P rows)"
  by (induction rows) (auto simp: update_where_def)

lemma map_key_update_where:
  "(\<And>r. key (f r) = key r) \<Longrightarrow> map key (update_where P f rows) = map key rows"
  by (simp add: update_where_def)

lemma distinct_delete_where: "distinct (map key rows) \<Longrightarrow> distinct (map key (delete_where P rows))"
  by (simp add: delete_where_def distinct_map_filter)

lemma find_row_update_where:
  assumes "\<And>r. key (f r) = key r"
  shows "find_row key k (update_where P f rows) =
    map_option (\<lambda>r. if P r then f r else r) (find_row key k rows)"
  by (induction rows) (auto simp: update_where_def assms)

lemma find_row_delete_key [table_simps]:
  "find_row key k (delete_where (\<lambda>r. key r = k') rows) =
    (if k = k' then None else find_row key k rows)"
  by (induction rows) (auto simp: delete_where_def)

lemma find_row_delete_where:
  "distinct (map key rows) \<Longrightarrow> find_row key k (delete_where P rows) =
    (case find_row key k rows of None \<Rightarrow> None | Some r \<Rightarrow> if P r then None else Some r)"
  by (induction rows)
    (auto simp: delete_where_def split: option.splits dest!: find_row_SomeD)

lemma find_row_replace [table_simps]:
  "find_row key k (replace_row key row rows) = (if key row = k then Some row else find_row key k rows)"
  by (induction rows) (auto simp: replace_row_def delete_where_def)

lemma distinct_replace_row:
  "distinct (map key rows) \<Longrightarrow> distinct (map key (replace_row key row rows))"
  by (auto simp: replace_row_def set_delete_where distinct_delete_where)

lemma insert_row_SomeD:
  "insert_row key r rows = Some rows' \<Longrightarrow> rows' = rows @ [r] \<and> key r \<notin> key ` set rows"
  by (auto simp: insert_row_def split: if_splits)

lemma insert_row_distinct:
  "insert_row key r rows = Some rows' \<Longrightarrow> distinct (map key rows) \<Longrightarrow> distinct (map key rows')"
  by (auto simp: insert_row_def split: if_splits)

section \<open>Results\<close>

text \<open>Rust's \<open>Result<T, E>\<close>: \<open>Inl\<close> is the error. \<open>and_then\<close> is the \<open>?\<close> operator.\<close>

definition and_then :: "'e + 'a \<Rightarrow> ('a \<Rightarrow> 'e + 'b) \<Rightarrow> 'e + 'b" where
  "and_then m f = (case m of Inl e \<Rightarrow> Inl e | Inr a \<Rightarrow> f a)"

lemma and_then_simps [simp]:
  "and_then (Inl e) f = Inl e" "and_then (Inr a) f = f a"
  by (simp_all add: and_then_def)

lemma and_then_Inr_iff: "and_then m f = Inr b \<longleftrightarrow> (\<exists>a. m = Inr a \<and> f a = Inr b)"
  by (cases m) auto

text \<open>A \<open>for\<close> loop whose body may return early with an error.\<close>

fun try_fold :: "('x \<Rightarrow> 's \<Rightarrow> 'e + 's) \<Rightarrow> 'x list \<Rightarrow> 's \<Rightarrow> 'e + 's" where
  "try_fold f [] s = Inr s"
| "try_fold f (x # xs) s = and_then (f x s) (try_fold f xs)"

lemma try_fold_append:
  "try_fold f (xs @ ys) s = and_then (try_fold f xs s) (try_fold f ys)"
  by (induction xs arbitrary: s) (auto simp: and_then_def split: sum.splits)

lemma try_fold_inv:
  assumes "\<And>x s s'. x \<in> set xs \<Longrightarrow> P s \<Longrightarrow> f x s = Inr s' \<Longrightarrow> P s'"
  shows "P s \<Longrightarrow> try_fold f xs s = Inr s' \<Longrightarrow> P s'"
  using assms by (induction xs arbitrary: s) (auto simp: and_then_Inr_iff)

end
