(* ===== verification/Job_Data.thy ===== *)
theory Job_Data
  imports Prelude
begin

text \<open>
  The data model of \<open>crates/flexiq-core/src\<close>: the error type (\<open>error.rs\<close>), job
  statuses, jobs and enqueue requests (\<open>job.rs\<close>), the rows Diesel reads and writes
  (\<open>storage/models.rs\<close>) and the conversions between rows and jobs. A narrow row is a
  row without its payload and result blobs; a full row extends it, as the two \<open>SELECT\<close>
  projections of one table do.

  \<open>serde_json\<close> is not part of the repository. It appears as a value of the record
  \<open>json_lib\<close>, an argument of every operation that parses or prints a document.
\<close>

section \<open>Errors\<close>

datatype diesel_error = RollbackTransaction | UniqueViolation | NotFound

datatype queue_error =
    Storage diesel_error
  | JobNotFound string
  | DependencyNotFound string
  | Config string
  | Serialization string
  | SettingConflict string
  | ContractTooOld nat nat
  | ClaimLost string
  | StepDiverged string int string string
  | StepLimitExceeded string string int int
  | Other string

type_synonym 'a result = "queue_error + 'a"

section \<open>Job status\<close>

datatype job_status = Pending | Running | Complete | Failed | Dead | Cancelled

fun status_code :: "job_status \<Rightarrow> int" where
  "status_code Pending = 0"
| "status_code Running = 1"
| "status_code Complete = 2"
| "status_code Failed = 3"
| "status_code Dead = 4"
| "status_code Cancelled = 5"

definition from_i32 :: "int \<Rightarrow> job_status option" where
  "from_i32 v =
     (if v = 0 then Some Pending
      else if v = 1 then Some Running
      else if v = 2 then Some Complete
      else if v = 3 then Some Failed
      else if v = 4 then Some Dead
      else if v = 5 then Some Cancelled
      else None)"

fun as_str :: "job_status \<Rightarrow> string" where
  "as_str Pending = ''pending''"
| "as_str Running = ''running''"
| "as_str Complete = ''complete''"
| "as_str Failed = ''failed''"
| "as_str Dead = ''dead''"
| "as_str Cancelled = ''cancelled''"

fun wire_name :: "job_status \<Rightarrow> string" where
  "wire_name Pending = ''Pending''"
| "wire_name Running = ''Running''"
| "wire_name Complete = ''Complete''"
| "wire_name Failed = ''Failed''"
| "wire_name Dead = ''Dead''"
| "wire_name Cancelled = ''Cancelled''"

lemma from_i32_status_code [simp, status_simps]: "from_i32 (status_code s) = Some s"
  by (cases s) (simp_all add: from_i32_def)

lemma from_i32_SomeD: "from_i32 v = Some s \<Longrightarrow> v = status_code s"
  by (auto simp: from_i32_def split: if_splits)

lemma from_i32_iff: "from_i32 v = Some s \<longleftrightarrow> v = status_code s"
  using from_i32_SomeD by auto

lemma status_code_inject [simp, status_simps]: "status_code s = status_code t \<longleftrightarrow> s = t"
  by (metis from_i32_status_code option.inject)

text \<open>The terminal statuses live in \<open>archived_jobs\<close>, the other two in \<open>jobs\<close>.\<close>

definition is_terminal_status :: "int \<Rightarrow> bool" where
  "is_terminal_status status =
     (case from_i32 status of
        Some Complete \<Rightarrow> True | Some Failed \<Rightarrow> True | Some Dead \<Rightarrow> True
      | Some Cancelled \<Rightarrow> True | _ \<Rightarrow> False)"

lemma is_terminal_code [simp, status_simps]:
  "is_terminal_status (status_code s) \<longleftrightarrow> s \<notin> {Pending, Running}"
  by (cases s) (simp_all add: is_terminal_status_def del: status_code.simps)

lemma is_terminal_num [simp]:
  "is_terminal_status 2" "is_terminal_status 3" "is_terminal_status 4" "is_terminal_status 5"
  "\<not> is_terminal_status 0" "\<not> is_terminal_status 1"
  using is_terminal_code [of Complete] is_terminal_code [of Failed] is_terminal_code [of Dead]
    is_terminal_code [of Cancelled] is_terminal_code [of Pending] is_terminal_code [of Running]
  by simp_all

section \<open>JSON documents\<close>

datatype json =
    JNull
  | JBool bool
  | JInt int
  | JFloat real
  | JString string
  | JArray "json list"
  | JObject "(string \<times> json) list"

record json_lib =
  from_str :: "string \<Rightarrow> json option"
  to_string :: "json \<Rightarrow> string"

definition parse_map :: "json_lib \<Rightarrow> string \<Rightarrow> (string \<times> json) list option" where
  "parse_map js s = (case from_str js s of Some (JObject m) \<Rightarrow> Some m | _ \<Rightarrow> None)"

definition map_insert :: "string \<Rightarrow> json \<Rightarrow> (string \<times> json) list \<Rightarrow> (string \<times> json) list" where
  "map_insert k v m = (k, v) # filter (\<lambda>p. fst p \<noteq> k) m"

definition get_key :: "json \<Rightarrow> string \<Rightarrow> json option" where
  "get_key v k = (case v of JObject m \<Rightarrow> map_of m k | _ \<Rightarrow> None)"

definition as_i64 :: "json \<Rightarrow> int option" where
  "as_i64 v = (case v of JInt n \<Rightarrow> if is_i64 n then Some n else None | _ \<Rightarrow> None)"

definition as_string :: "json \<Rightarrow> string option" where
  "as_string v = (case v of JString s \<Rightarrow> Some s | _ \<Rightarrow> None)"

definition extract_topic_subscription :: "json_lib \<Rightarrow> string option \<Rightarrow> (string \<times> string) option" where
  "extract_topic_subscription js notes =
     Option.bind notes (\<lambda>n.
     Option.bind (parse_map js n) (\<lambda>obj.
     Option.bind (Option.bind (map_of obj ''topic'') as_string) (\<lambda>topic.
     Option.bind (Option.bind (map_of obj ''subscription'') as_string) (\<lambda>sub.
     Some (topic, sub)))))"

section \<open>Jobs and rows\<close>

record job =
  j_id :: string
  j_queue :: string
  j_task_name :: string
  j_payload :: bytes
  j_status :: job_status
  j_priority :: int
  j_created_at :: int
  j_scheduled_at :: int
  j_started_at :: "int option"
  j_completed_at :: "int option"
  j_retry_count :: int
  j_max_retries :: int
  j_result :: "bytes option"
  j_error :: "string option"
  j_timeout_ms :: int
  j_unique_key :: "string option"
  j_progress :: "int option"
  j_metadata :: "string option"
  j_notes :: "string option"
  j_cancel_requested :: bool
  j_expires_at :: "int option"
  j_result_ttl_ms :: "int option"
  j_namespace :: "string option"
  j_has_deps :: bool
  j_debounce_key :: "string option"

record narrow_job_row =
  r_id :: string
  r_queue :: string
  r_task_name :: string
  r_status :: int
  r_priority :: int
  r_created_at :: int
  r_scheduled_at :: int
  r_started_at :: "int option"
  r_completed_at :: "int option"
  r_retry_count :: int
  r_max_retries :: int
  r_error :: "string option"
  r_timeout_ms :: int
  r_unique_key :: "string option"
  r_progress :: "int option"
  r_metadata :: "string option"
  r_notes :: "string option"
  r_cancel_requested :: int
  r_expires_at :: "int option"
  r_result_ttl_ms :: "int option"
  r_namespace :: "string option"
  r_has_deps :: bool
  r_debounce_key :: "string option"

text \<open>
  The \<open>jobs\<close> row: the narrow columns, the two blobs, and the delivery attribution
  columns that only inserts write and only backlog statistics read.
\<close>

record job_row = narrow_job_row +
  r_payload :: bytes
  r_result :: "bytes option"
  r_topic :: "string option"
  r_subscription_name :: "string option"

record narrow_archived_row =
  a_id :: string
  a_queue :: string
  a_task_name :: string
  a_status :: int
  a_priority :: int
  a_created_at :: int
  a_scheduled_at :: int
  a_started_at :: "int option"
  a_completed_at :: "int option"
  a_retry_count :: int
  a_max_retries :: int
  a_error :: "string option"
  a_timeout_ms :: int
  a_unique_key :: "string option"
  a_progress :: "int option"
  a_metadata :: "string option"
  a_notes :: "string option"
  a_cancel_requested :: int
  a_expires_at :: "int option"
  a_result_ttl_ms :: "int option"
  a_namespace :: "string option"

record archived_row = narrow_archived_row +
  a_payload :: bytes
  a_result :: "bytes option"

record new_job =
  n_queue :: string
  n_task_name :: string
  n_payload :: bytes
  n_priority :: int
  n_scheduled_at :: int
  n_max_retries :: int
  n_timeout_ms :: int
  n_unique_key :: "string option"
  n_metadata :: "string option"
  n_notes :: "string option"
  n_depends_on :: "string list"
  n_expires_at :: "int option"
  n_result_ttl_ms :: "int option"
  n_namespace :: "string option"
  n_debounce_key :: "string option"

section \<open>Conversions\<close>

definition from_narrow :: "'a narrow_job_row_scheme \<Rightarrow> bytes \<Rightarrow> bytes option \<Rightarrow> job" where
  "from_narrow narrow payload result = \<lparr>
     j_id = r_id narrow,
     j_queue = r_queue narrow,
     j_task_name = r_task_name narrow,
     j_payload = payload,
     j_status = (case from_i32 (r_status narrow) of Some s \<Rightarrow> s | None \<Rightarrow> Pending),
     j_priority = r_priority narrow,
     j_created_at = r_created_at narrow,
     j_scheduled_at = r_scheduled_at narrow,
     j_started_at = r_started_at narrow,
     j_completed_at = r_completed_at narrow,
     j_retry_count = r_retry_count narrow,
     j_max_retries = r_max_retries narrow,
     j_result = result,
     j_error = r_error narrow,
     j_timeout_ms = r_timeout_ms narrow,
     j_unique_key = r_unique_key narrow,
     j_progress = r_progress narrow,
     j_metadata = r_metadata narrow,
     j_notes = r_notes narrow,
     j_cancel_requested = (r_cancel_requested narrow \<noteq> 0),
     j_expires_at = r_expires_at narrow,
     j_result_ttl_ms = r_result_ttl_ms narrow,
     j_namespace = r_namespace narrow,
     j_has_deps = r_has_deps narrow,
     j_debounce_key = r_debounce_key narrow\<rparr>"

definition job_of_row :: "job_row \<Rightarrow> job" where
  "job_of_row row = from_narrow row (r_payload row) (r_result row)"

definition job_of_archived :: "archived_row \<Rightarrow> job" where
  "job_of_archived row = \<lparr>
     j_id = a_id row,
     j_queue = a_queue row,
     j_task_name = a_task_name row,
     j_payload = a_payload row,
     j_status = (case from_i32 (a_status row) of Some s \<Rightarrow> s | None \<Rightarrow> Pending),
     j_priority = a_priority row,
     j_created_at = a_created_at row,
     j_scheduled_at = a_scheduled_at row,
     j_started_at = a_started_at row,
     j_completed_at = a_completed_at row,
     j_retry_count = a_retry_count row,
     j_max_retries = a_max_retries row,
     j_result = a_result row,
     j_error = a_error row,
     j_timeout_ms = a_timeout_ms row,
     j_unique_key = a_unique_key row,
     j_progress = a_progress row,
     j_metadata = a_metadata row,
     j_notes = a_notes row,
     j_cancel_requested = (a_cancel_requested row \<noteq> 0),
     j_expires_at = a_expires_at row,
     j_result_ttl_ms = a_result_ttl_ms row,
     j_namespace = a_namespace row,
     j_has_deps = False,
     j_debounce_key = None\<rparr>"

definition from_narrow_archived :: "'a narrow_archived_row_scheme \<Rightarrow> job" where
  "from_narrow_archived narrow = \<lparr>
     j_id = a_id narrow,
     j_queue = a_queue narrow,
     j_task_name = a_task_name narrow,
     j_payload = [],
     j_status = (case from_i32 (a_status narrow) of Some s \<Rightarrow> s | None \<Rightarrow> Pending),
     j_priority = a_priority narrow,
     j_created_at = a_created_at narrow,
     j_scheduled_at = a_scheduled_at narrow,
     j_started_at = a_started_at narrow,
     j_completed_at = a_completed_at narrow,
     j_retry_count = a_retry_count narrow,
     j_max_retries = a_max_retries narrow,
     j_result = None,
     j_error = a_error narrow,
     j_timeout_ms = a_timeout_ms narrow,
     j_unique_key = a_unique_key narrow,
     j_progress = a_progress narrow,
     j_metadata = a_metadata narrow,
     j_notes = a_notes narrow,
     j_cancel_requested = (a_cancel_requested narrow \<noteq> 0),
     j_expires_at = a_expires_at narrow,
     j_result_ttl_ms = a_result_ttl_ms narrow,
     j_namespace = a_namespace narrow,
     j_has_deps = False,
     j_debounce_key = None\<rparr>"

text \<open>\<open>NewJob::into_job\<close>: the id is the fresh UUIDv7, \<open>now\<close> the clock reading.\<close>

definition into_job :: "string \<Rightarrow> int \<Rightarrow> new_job \<Rightarrow> job" where
  "into_job uuid now nj = \<lparr>
     j_id = uuid,
     j_queue = n_queue nj,
     j_task_name = n_task_name nj,
     j_payload = n_payload nj,
     j_status = Pending,
     j_priority = n_priority nj,
     j_created_at = now,
     j_scheduled_at = n_scheduled_at nj,
     j_started_at = None,
     j_completed_at = None,
     j_retry_count = 0,
     j_max_retries = n_max_retries nj,
     j_result = None,
     j_error = None,
     j_timeout_ms = n_timeout_ms nj,
     j_unique_key = n_unique_key nj,
     j_progress = None,
     j_metadata = n_metadata nj,
     j_notes = n_notes nj,
     j_cancel_requested = False,
     j_expires_at = n_expires_at nj,
     j_result_ttl_ms = n_result_ttl_ms nj,
     j_namespace = n_namespace nj,
     j_has_deps = (n_depends_on nj \<noteq> []),
     j_debounce_key = n_debounce_key nj\<rparr>"

text \<open>
  The \<open>NewJobRow\<close> literal that every enqueue path builds; the columns it leaves out take
  their \<open>NULL\<close> default.
\<close>

definition new_job_row :: "json_lib \<Rightarrow> job \<Rightarrow> job_row" where
  "new_job_row js job =
     (let attribution = extract_topic_subscription js (j_notes job)
      in \<lparr>r_id = j_id job,
          r_queue = j_queue job,
          r_task_name = j_task_name job,
          r_status = status_code (j_status job),
          r_priority = j_priority job,
          r_created_at = j_created_at job,
          r_scheduled_at = j_scheduled_at job,
          r_started_at = None,
          r_completed_at = None,
          r_retry_count = j_retry_count job,
          r_max_retries = j_max_retries job,
          r_error = None,
          r_timeout_ms = j_timeout_ms job,
          r_unique_key = j_unique_key job,
          r_progress = None,
          r_metadata = j_metadata job,
          r_notes = j_notes job,
          r_cancel_requested = 0,
          r_expires_at = j_expires_at job,
          r_result_ttl_ms = j_result_ttl_ms job,
          r_namespace = j_namespace job,
          r_has_deps = j_has_deps job,
          r_debounce_key = j_debounce_key job,
          r_payload = j_payload job,
          r_result = None,
          r_topic = map_option fst attribution,
          r_subscription_name = map_option snd attribution\<rparr>)"

text \<open>The \<open>NewArchivedJobRow\<close> literal of \<open>archive_job_row\<close>.\<close>

definition archived_of_row :: "job_row \<Rightarrow> archived_row" where
  "archived_of_row row = \<lparr>
     a_id = r_id row,
     a_queue = r_queue row,
     a_task_name = r_task_name row,
     a_status = r_status row,
     a_priority = r_priority row,
     a_created_at = r_created_at row,
     a_scheduled_at = r_scheduled_at row,
     a_started_at = r_started_at row,
     a_completed_at = r_completed_at row,
     a_retry_count = r_retry_count row,
     a_max_retries = r_max_retries row,
     a_error = r_error row,
     a_timeout_ms = r_timeout_ms row,
     a_unique_key = r_unique_key row,
     a_progress = r_progress row,
     a_metadata = r_metadata row,
     a_notes = r_notes row,
     a_cancel_requested = r_cancel_requested row,
     a_expires_at = r_expires_at row,
     a_result_ttl_ms = r_result_ttl_ms row,
     a_namespace = r_namespace row,
     a_payload = r_payload row,
     a_result = r_result row\<rparr>"

lemma new_job_row_sel [simp]:
  "r_id (new_job_row js job) = j_id job"
  "r_queue (new_job_row js job) = j_queue job"
  "r_status (new_job_row js job) = status_code (j_status job)"
  "r_unique_key (new_job_row js job) = j_unique_key job"
  "r_namespace (new_job_row js job) = j_namespace job"
  "r_debounce_key (new_job_row js job) = j_debounce_key job"
  "r_has_deps (new_job_row js job) = j_has_deps job"
  "r_created_at (new_job_row js job) = j_created_at job"
  "r_scheduled_at (new_job_row js job) = j_scheduled_at job"
  "r_payload (new_job_row js job) = j_payload job"
  by (simp_all add: new_job_row_def Let_def)

lemma into_job_sel [simp]:
  "j_id (into_job u now nj) = u"
  "j_status (into_job u now nj) = Pending"
  "j_queue (into_job u now nj) = n_queue nj"
  "j_unique_key (into_job u now nj) = n_unique_key nj"
  "j_namespace (into_job u now nj) = n_namespace nj"
  "j_debounce_key (into_job u now nj) = n_debounce_key nj"
  "j_has_deps (into_job u now nj) = (n_depends_on nj \<noteq> [])"
  "j_scheduled_at (into_job u now nj) = n_scheduled_at nj"
  "j_created_at (into_job u now nj) = now"
  "j_payload (into_job u now nj) = n_payload nj"
  by (simp_all add: into_job_def)

lemma archived_of_row_sel [simp]:
  "a_id (archived_of_row row) = r_id row"
  "a_status (archived_of_row row) = r_status row"
  "a_namespace (archived_of_row row) = r_namespace row"
  "a_queue (archived_of_row row) = r_queue row"
  "a_payload (archived_of_row row) = r_payload row"
  "a_result (archived_of_row row) = r_result row"
  "a_error (archived_of_row row) = r_error row"
  "a_completed_at (archived_of_row row) = r_completed_at row"
  "a_created_at (archived_of_row row) = r_created_at row"
  "a_retry_count (archived_of_row row) = r_retry_count row"
  by (simp_all add: archived_of_row_def)

lemma job_of_row_sel [simp]:
  "j_id (job_of_row row) = r_id row"
  "j_queue (job_of_row row) = r_queue row"
  "j_namespace (job_of_row row) = r_namespace row"
  "j_payload (job_of_row row) = r_payload row"
  "j_retry_count (job_of_row row) = r_retry_count row"
  "j_scheduled_at (job_of_row row) = r_scheduled_at row"
  "j_task_name (job_of_row row) = r_task_name row"
  "r_status row = status_code s \<Longrightarrow> j_status (job_of_row row) = s"
  by (simp_all add: job_of_row_def from_narrow_def del: status_code.simps)

end
