(* ===== verification/Store.thy ===== *)
theory Store
  imports Job_Data
begin

text \<open>
  The database of the Diesel back ends: one table per list of rows, the constraints the
  migrations declare, write transactions, and the helpers of
  \<open>storage/diesel_common/jobs.rs\<close> that every job operation is built from
  (\<open>archive_job_row\<close>, the child deletes, \<open>deps_satisfied\<close>, \<open>get_job\<close>). The
  well-formedness invariant \<open>store_inv\<close> of a job store closes the theory.
\<close>

section \<open>Rows of the other tables\<close>

record dep_row =
  e_id :: string
  e_job_id :: string
  e_depends_on_job_id :: string

record claim_row =
  c_job_id :: string
  c_worker_id :: string
  c_claimed_at :: int

record step_row =
  s_id :: string
  s_job_id :: string
  s_namespace :: "string option"
  s_step_key :: string
  s_seq :: int
  s_kind :: string
  s_result :: "bytes option"
  s_result_len :: int
  s_wake_at :: "int option"
  s_created_at :: int

record error_row =
  x_id :: string
  x_job_id :: string
  x_attempt :: int
  x_error :: string
  x_failed_at :: int

record metric_row =
  m_id :: string
  m_task_name :: string
  m_job_id :: string
  m_wall_time_ns :: int
  m_memory_bytes :: int
  m_succeeded :: bool
  m_recorded_at :: int
  m_namespace :: "string option"

record log_row =
  g_id :: string
  g_job_id :: string
  g_task_name :: string
  g_level :: string
  g_message :: string
  g_extra :: "string option"
  g_logged_at :: int
  g_namespace :: "string option"

record replay_row =
  p_id :: string
  p_original_job_id :: string
  p_replay_job_id :: string
  p_replayed_at :: int
  p_original_result :: "bytes option"
  p_replay_result :: "bytes option"
  p_original_error :: "string option"
  p_replay_error :: "string option"

record narrow_dead_row =
  d_id :: string
  d_original_job_id :: string
  d_queue :: string
  d_task_name :: string
  d_error :: "string option"
  d_retry_count :: int
  d_failed_at :: int
  d_metadata :: "string option"
  d_notes :: "string option"
  d_priority :: int
  d_max_retries :: int
  d_timeout_ms :: int
  d_result_ttl_ms :: "int option"
  d_namespace :: "string option"
  d_dlq_retry_count :: int

record dead_row = narrow_dead_row +
  d_payload :: bytes
  d_topic :: "string option"
  d_subscription_name :: "string option"
  d_shed :: bool

record lock_row =
  l_lock_name :: string
  l_owner_id :: string
  l_acquired_at :: int
  l_expires_at :: int

record db =
  jobs :: "job_row list"
  archived_jobs :: "archived_row list"
  job_dependencies :: "dep_row list"
  execution_claims :: "claim_row list"
  job_steps :: "step_row list"
  job_errors :: "error_row list"
  task_metrics :: "metric_row list"
  task_logs :: "log_row list"
  replay_history :: "replay_row list"
  dead_letter :: "dead_row list"
  distributed_locks :: "lock_row list"

definition empty_db :: db where
  "empty_db = \<lparr>jobs = [], archived_jobs = [], job_dependencies = [], execution_claims = [],
     job_steps = [], job_errors = [], task_metrics = [], task_logs = [], replay_history = [],
     dead_letter = [], distributed_locks = []\<rparr>"

section \<open>Transactions and constrained inserts\<close>

text \<open>
  A transaction closure maps the state to its result and the state to commit, or to an error;
  an error rolls every statement of the closure back.
\<close>

definition write_transaction :: "(db \<Rightarrow> ('a \<times> db) result) \<Rightarrow> db \<Rightarrow> 'a result \<times> db" where
  "write_transaction f d = (case f d of Inl e \<Rightarrow> (Inl e, d) | Inr (a, d') \<Rightarrow> (Inr a, d'))"

text \<open>
  \<open>INSERT INTO jobs\<close> under the primary key and the partial unique index
  \<open>idx_jobs_unique_key\<close> (\<open>unique_key IS NOT NULL AND status IN (0, 1)\<close>).
\<close>

definition in_unique_index :: "job_row \<Rightarrow> bool" where
  "in_unique_index r \<longleftrightarrow> r_unique_key r \<noteq> None \<and> r_status r \<in> {0, 1}"

definition unique_key_taken :: "job_row \<Rightarrow> job_row list \<Rightarrow> bool" where
  "unique_key_taken row rows \<longleftrightarrow> in_unique_index row \<and>
     (\<exists>r \<in> set rows. in_unique_index r \<and> r_unique_key r = r_unique_key row)"

definition insert_job :: "job_row \<Rightarrow> db \<Rightarrow> db result" where
  "insert_job row d =
     (if unique_key_taken row (jobs d) then Inl (Storage UniqueViolation)
      else case insert_row r_id row (jobs d) of
        None \<Rightarrow> Inl (Storage UniqueViolation)
      | Some rows \<Rightarrow> Inr (d\<lparr>jobs := rows\<rparr>))"

definition insert_archived :: "archived_row \<Rightarrow> db \<Rightarrow> db result" where
  "insert_archived row d =
     (case insert_row a_id row (archived_jobs d) of
        None \<Rightarrow> Inl (Storage UniqueViolation)
      | Some rows \<Rightarrow> Inr (d\<lparr>archived_jobs := rows\<rparr>))"

definition insert_dependency :: "dep_row \<Rightarrow> db \<Rightarrow> db result" where
  "insert_dependency row d =
     (case insert_row e_id row (job_dependencies d) of
        None \<Rightarrow> Inl (Storage UniqueViolation)
      | Some rows \<Rightarrow> Inr (d\<lparr>job_dependencies := rows\<rparr>))"

definition insert_claim :: "claim_row \<Rightarrow> db \<Rightarrow> db result" where
  "insert_claim row d =
     (case insert_row c_job_id row (execution_claims d) of
        None \<Rightarrow> Inl (Storage UniqueViolation)
      | Some rows \<Rightarrow> Inr (d\<lparr>execution_claims := rows\<rparr>))"

definition insert_metric :: "metric_row \<Rightarrow> db \<Rightarrow> db result" where
  "insert_metric row d =
     (case insert_row m_id row (task_metrics d) of
        None \<Rightarrow> Inl (Storage UniqueViolation)
      | Some rows \<Rightarrow> Inr (d\<lparr>task_metrics := rows\<rparr>))"

definition insert_error :: "error_row \<Rightarrow> db \<Rightarrow> db result" where
  "insert_error row d =
     (case insert_row x_id row (job_errors d) of
        None \<Rightarrow> Inl (Storage UniqueViolation)
      | Some rows \<Rightarrow> Inr (d\<lparr>job_errors := rows\<rparr>))"

section \<open>Child deletes\<close>

definition DELETE_ID_CHUNK :: nat where
  "DELETE_ID_CHUNK = 450"

fun chunks :: "nat \<Rightarrow> 'a list \<Rightarrow> 'a list list" where
  "chunks k xs = (if k = 0 \<or> xs = [] then [] else take k xs # chunks k (drop k xs))"

declare chunks.simps [simp del]

definition delete_relations_of :: "string list \<Rightarrow> db \<Rightarrow> db" where
  "delete_relations_of ids d = d\<lparr>
     job_dependencies := delete_where
       (\<lambda>e. e_job_id e \<in> set ids \<or> e_depends_on_job_id e \<in> set ids) (job_dependencies d),
     replay_history := delete_where (\<lambda>p. p_original_job_id p \<in> set ids) (replay_history d)\<rparr>"

definition delete_job_relations :: "string list \<Rightarrow> db \<Rightarrow> db" where
  "delete_job_relations job_ids d = fold delete_relations_of (chunks DELETE_ID_CHUNK job_ids) d"

definition delete_diagnostics_of :: "string list \<Rightarrow> db \<Rightarrow> db" where
  "delete_diagnostics_of ids d = d\<lparr>
     job_errors := delete_where (\<lambda>x. x_job_id x \<in> set ids) (job_errors d),
     task_logs := delete_where (\<lambda>g. g_job_id g \<in> set ids) (task_logs d),
     task_metrics := delete_where (\<lambda>m. m_job_id m \<in> set ids) (task_metrics d)\<rparr>"

definition delete_job_diagnostics :: "string list \<Rightarrow> db \<Rightarrow> db" where
  "delete_job_diagnostics job_ids d = fold delete_diagnostics_of (chunks DELETE_ID_CHUNK job_ids) d"

lemma concat_chunks: "0 < k \<Longrightarrow> concat (chunks k xs) = xs"
proof (induction k xs rule: chunks.induct)
  case (1 k xs)
  then show ?case by (simp add: chunks.simps [of k xs])
qed

lemma length_chunks_le: "c \<in> set (chunks k xs) \<Longrightarrow> length c \<le> k"
proof (induction k xs rule: chunks.induct)
  case (1 k xs)
  then show ?case by (auto simp: chunks.simps [of k xs] split: if_splits)
qed

lemma delete_where_delete_where [simp]:
  "delete_where P (delete_where Q rows) = delete_where (\<lambda>r. Q r \<or> P r) rows"
  by (simp add: delete_where_def)

text \<open>Chunking the id list bounds the bind count of a statement and changes nothing else.\<close>

lemma delete_relations_of_append:
  "delete_relations_of (xs @ ys) d = delete_relations_of ys (delete_relations_of xs d)"
  by (simp add: delete_relations_of_def disj_ac)

lemma delete_diagnostics_of_append:
  "delete_diagnostics_of (xs @ ys) d = delete_diagnostics_of ys (delete_diagnostics_of xs d)"
  by (simp add: delete_diagnostics_of_def)

lemma fold_relations: "fold delete_relations_of cs d = delete_relations_of (concat cs) d"
proof (induction cs arbitrary: d)
  case Nil
  show ?case by (simp add: delete_relations_of_def delete_where_def)
next
  case (Cons c cs)
  then show ?case by (simp add: delete_relations_of_append)
qed

lemma fold_diagnostics: "fold delete_diagnostics_of cs d = delete_diagnostics_of (concat cs) d"
proof (induction cs arbitrary: d)
  case Nil
  show ?case by (simp add: delete_diagnostics_of_def delete_where_def)
next
  case (Cons c cs)
  then show ?case by (simp add: delete_diagnostics_of_append)
qed

lemma delete_job_relations_eq: "delete_job_relations ids d = delete_relations_of ids d"
  by (simp add: delete_job_relations_def fold_relations concat_chunks DELETE_ID_CHUNK_def)

lemma delete_job_diagnostics_eq: "delete_job_diagnostics ids d = delete_diagnostics_of ids d"
  by (simp add: delete_job_diagnostics_def fold_diagnostics concat_chunks DELETE_ID_CHUNK_def)

section \<open>Archiving a job\<close>

text \<open>
  \<open>archive_job_row\<close>: insert into the archive, delete the live row, its step memo and its
  execution claim, all inside the caller's transaction.
\<close>

definition archive_job_row :: "job_row \<Rightarrow> db \<Rightarrow> db result" where
  "archive_job_row row d =
     and_then (insert_archived (archived_of_row row) d) (\<lambda>d1. Inr (d1\<lparr>
       jobs := delete_where (\<lambda>r. r_id r = r_id row) (jobs d1),
       job_steps := delete_where (\<lambda>s. s_job_id s = r_id row) (job_steps d1),
       execution_claims := delete_where (\<lambda>c. c_job_id c = r_id row) (execution_claims d1)\<rparr>))"

section \<open>Dependencies\<close>

definition deps_satisfied :: "string \<Rightarrow> db \<Rightarrow> bool" where
  "deps_satisfied job_id d =
     (let dep_job_ids = map e_depends_on_job_id
            (filter (\<lambda>e. e_job_id e = job_id) (job_dependencies d))
      in if dep_job_ids = [] then True
         else count_where (\<lambda>r. r_id r \<in> set dep_job_ids \<and> r_status r \<noteq> status_code Complete) (jobs d)
            + count_where (\<lambda>a. a_id a \<in> set dep_job_ids \<and> a_status a \<noteq> status_code Complete)
                (archived_jobs d) = 0)"

definition validate_dependency :: "string \<Rightarrow> string option \<Rightarrow> db \<Rightarrow> unit result" where
  "validate_dependency dep_id namespace d =
     (case find_row r_id dep_id (jobs d) of
        Some r \<Rightarrow>
          if r_status r = status_code Dead \<or> r_status r = status_code Cancelled
             \<or> r_namespace r \<noteq> namespace
          then Inl (Storage RollbackTransaction) else Inr ()
      | None \<Rightarrow>
          (case find_row a_id dep_id (archived_jobs d) of
             Some a \<Rightarrow>
               if a_status a = status_code Complete \<and> a_namespace a = namespace
               then Inr () else Inl (Storage RollbackTransaction)
           | None \<Rightarrow> Inl (Storage RollbackTransaction)))"

lemma deps_satisfied_iff:
  "deps_satisfied job_id d \<longleftrightarrow>
    (\<forall>e \<in> set (job_dependencies d). e_job_id e = job_id \<longrightarrow>
       (\<forall>r \<in> set (jobs d). r_id r = e_depends_on_job_id e \<longrightarrow> r_status r = status_code Complete) \<and>
       (\<forall>a \<in> set (archived_jobs d). a_id a = e_depends_on_job_id e \<longrightarrow>
          a_status a = status_code Complete))"
  by (auto simp: deps_satisfied_def Let_def count_where_0_iff filter_empty_conv
      simp del: status_code.simps)

section \<open>Reads\<close>

definition job_in_namespace :: "string option \<Rightarrow> string option \<Rightarrow> bool" where
  "job_in_namespace row caller = (case caller of None \<Rightarrow> True | Some scope \<Rightarrow> row = Some scope)"

definition get_job :: "string \<Rightarrow> string option \<Rightarrow> db \<Rightarrow> job option" where
  "get_job jid namespace d =
     (case find_row r_id jid (jobs d) of
        Some row \<Rightarrow> if \<not> job_in_namespace (r_namespace row) namespace then None
                    else Some (job_of_row row)
      | None \<Rightarrow>
          (case find_row a_id jid (archived_jobs d) of
             Some a \<Rightarrow> if job_in_namespace (a_namespace a) namespace then Some (job_of_archived a)
                       else None
           | None \<Rightarrow> None))"

section \<open>The invariant of a job store\<close>

definition live_ids :: "db \<Rightarrow> string set" where
  "live_ids d = r_id ` set (jobs d)"

definition archived_ids :: "db \<Rightarrow> string set" where
  "archived_ids d = a_id ` set (archived_jobs d)"

definition live_ok :: "db \<Rightarrow> bool" where
  "live_ok d \<longleftrightarrow> distinct (map r_id (jobs d)) \<and>
     (\<forall>r \<in> set (jobs d). r_status r = status_code Pending \<or> r_status r = status_code Running)"

definition archive_ok :: "db \<Rightarrow> bool" where
  "archive_ok d \<longleftrightarrow> distinct (map a_id (archived_jobs d)) \<and>
     (\<forall>a \<in> set (archived_jobs d). is_terminal_status (a_status a))"

definition unique_ok :: "db \<Rightarrow> bool" where
  "unique_ok d \<longleftrightarrow> (\<forall>r \<in> set (jobs d). \<forall>r' \<in> set (jobs d). \<forall>k.
     r_unique_key r = Some k \<longrightarrow> r_unique_key r' = Some k \<longrightarrow> r_id r = r_id r')"

definition steps_owned :: "db \<Rightarrow> bool" where
  "steps_owned d \<longleftrightarrow> (\<forall>s \<in> set (job_steps d). s_job_id s \<in> live_ids d)"

definition store_inv :: "db \<Rightarrow> bool" where
  "store_inv d \<longleftrightarrow> live_ok d \<and> archive_ok d \<and> live_ids d \<inter> archived_ids d = {} \<and>
     unique_ok d \<and> distinct (map c_job_id (execution_claims d)) \<and> steps_owned d"

lemmas store_inv_defs = store_inv_def live_ok_def archive_ok_def unique_ok_def steps_owned_def
  live_ids_def archived_ids_def

lemma unique_okI:
  "(\<And>r r' k. r \<in> set (jobs d) \<Longrightarrow> r' \<in> set (jobs d) \<Longrightarrow> r_unique_key r = Some k \<Longrightarrow>
     r_unique_key r' = Some k \<Longrightarrow> r_id r = r_id r') \<Longrightarrow> unique_ok d"
  unfolding unique_ok_def by blast

lemma unique_okD:
  "store_inv d \<Longrightarrow> r \<in> set (jobs d) \<Longrightarrow> r' \<in> set (jobs d) \<Longrightarrow> r_unique_key r = Some k \<Longrightarrow>
     r_unique_key r' = Some k \<Longrightarrow> r_id r = r_id r'"
  unfolding store_inv_def unique_ok_def by blast

text \<open>The status a job id has, wherever its row lives.\<close>

definition status_of :: "db \<Rightarrow> string \<Rightarrow> job_status option" where
  "status_of d jid =
     (case find_row r_id jid (jobs d) of
        Some r \<Rightarrow> from_i32 (r_status r)
      | None \<Rightarrow> (case find_row a_id jid (archived_jobs d) of
                   Some a \<Rightarrow> from_i32 (a_status a) | None \<Rightarrow> None))"

lemma empty_db_sel [simp]:
  "jobs empty_db = []" "archived_jobs empty_db = []" "job_dependencies empty_db = []"
  "execution_claims empty_db = []" "job_steps empty_db = []" "dead_letter empty_db = []"
  "job_errors empty_db = []" "task_metrics empty_db = []" "task_logs empty_db = []"
  "replay_history empty_db = []" "distributed_locks empty_db = []"
  by (simp_all add: empty_db_def)

lemma store_inv_empty [simp]: "store_inv empty_db"
  by (simp add: store_inv_defs)

lemma insert_jobD:
  "insert_job row d = Inr d' \<Longrightarrow>
     d' = d\<lparr>jobs := jobs d @ [row]\<rparr> \<and> r_id row \<notin> live_ids d \<and> \<not> unique_key_taken row (jobs d)"
  by (auto simp: insert_job_def live_ids_def split: if_splits option.splits
      dest!: insert_row_SomeD)

lemma insert_archivedD:
  "insert_archived row d = Inr d' \<Longrightarrow>
     d' = d\<lparr>archived_jobs := archived_jobs d @ [row]\<rparr> \<and> a_id row \<notin> archived_ids d"
  by (auto simp: insert_archived_def archived_ids_def split: option.splits
      dest!: insert_row_SomeD)

lemma insert_dependencyD:
  "insert_dependency row d = Inr d' \<Longrightarrow> d' = d\<lparr>job_dependencies := job_dependencies d @ [row]\<rparr>"
  by (auto simp: insert_dependency_def split: option.splits dest!: insert_row_SomeD)

lemma insert_claimD:
  "insert_claim row d = Inr d' \<Longrightarrow>
     d' = d\<lparr>execution_claims := execution_claims d @ [row]\<rparr> \<and>
     c_job_id row \<notin> c_job_id ` set (execution_claims d)"
  by (auto simp: insert_claim_def split: option.splits dest!: insert_row_SomeD)

lemma insert_metricD:
  "insert_metric row d = Inr d' \<Longrightarrow> d' = d\<lparr>task_metrics := task_metrics d @ [row]\<rparr>"
  by (auto simp: insert_metric_def split: option.splits dest!: insert_row_SomeD)

lemma insert_errorD:
  "insert_error row d = Inr d' \<Longrightarrow> d' = d\<lparr>job_errors := job_errors d @ [row]\<rparr>"
  by (auto simp: insert_error_def split: option.splits dest!: insert_row_SomeD)

text \<open>The state \<open>archive_job_row\<close> commits.\<close>

definition archive_effect :: "job_row \<Rightarrow> db \<Rightarrow> db" where
  "archive_effect row d = d\<lparr>
     archived_jobs := archived_jobs d @ [archived_of_row row],
     jobs := delete_where (\<lambda>r. r_id r = r_id row) (jobs d),
     job_steps := delete_where (\<lambda>s. s_job_id s = r_id row) (job_steps d),
     execution_claims := delete_where (\<lambda>c. c_job_id c = r_id row) (execution_claims d)\<rparr>"

lemma archive_effect_sel [simp]:
  "archived_jobs (archive_effect row d) = archived_jobs d @ [archived_of_row row]"
  "jobs (archive_effect row d) = delete_where (\<lambda>r. r_id r = r_id row) (jobs d)"
  "job_steps (archive_effect row d) = delete_where (\<lambda>s. s_job_id s = r_id row) (job_steps d)"
  "execution_claims (archive_effect row d) =
     delete_where (\<lambda>c. c_job_id c = r_id row) (execution_claims d)"
  "job_dependencies (archive_effect row d) = job_dependencies d"
  "dead_letter (archive_effect row d) = dead_letter d"
  "job_errors (archive_effect row d) = job_errors d"
  "task_metrics (archive_effect row d) = task_metrics d"
  "task_logs (archive_effect row d) = task_logs d"
  "replay_history (archive_effect row d) = replay_history d"
  "distributed_locks (archive_effect row d) = distributed_locks d"
  by (simp_all add: archive_effect_def)

lemma archive_job_rowD:
  "archive_job_row row d = Inr d' \<Longrightarrow> d' = archive_effect row d \<and> r_id row \<notin> archived_ids d"
  by (auto simp: archive_job_row_def archive_effect_def and_then_Inr_iff dest!: insert_archivedD)

text \<open>In a well-formed store archiving a live row cannot fail: its id is not in the archive.\<close>

lemma archive_job_row_ok:
  assumes "store_inv d" "r_id row \<in> live_ids d"
  shows "archive_job_row row d = Inr (archive_effect row d)"
proof -
  have "r_id row \<notin> a_id ` set (archived_jobs d)"
    using assms unfolding store_inv_def archived_ids_def by blast
  then show ?thesis
    by (simp add: archive_job_row_def insert_archived_def insert_row_def archive_effect_def)
qed

lemma live_ids_archive [simp]: "live_ids (archive_effect row d) = live_ids d - {r_id row}"
  by (auto simp: live_ids_def set_delete_where)

lemma archived_ids_archive [simp]:
  "archived_ids (archive_effect row d) = insert (r_id row) (archived_ids d)"
  by (auto simp: archived_ids_def)

lemma archive_effect_inv:
  assumes inv: "store_inv d" and fresh: "r_id row \<notin> archived_ids d"
    and terminal: "is_terminal_status (r_status row)"
  shows "store_inv (archive_effect row d)"
proof -
  have "live_ok (archive_effect row d)"
    using inv by (simp add: store_inv_def live_ok_def set_delete_where distinct_delete_where)
  moreover have "unique_ok (archive_effect row d)"
    by (rule unique_okI) (auto simp: set_delete_where dest: unique_okD [OF inv])
  moreover have "archive_ok (archive_effect row d)"
    using inv fresh terminal by (auto simp: store_inv_def archive_ok_def archived_ids_def)
  moreover have "live_ids (archive_effect row d) \<inter> archived_ids (archive_effect row d) = {}"
    using inv unfolding store_inv_def live_ids_archive archived_ids_archive by blast
  moreover have "distinct (map c_job_id (execution_claims (archive_effect row d)))"
    using inv by (simp add: store_inv_def distinct_delete_where)
  moreover have "steps_owned (archive_effect row d)"
    using inv by (simp add: store_inv_def steps_owned_def set_delete_where)
  ultimately show ?thesis by (simp add: store_inv_def)
qed

lemma archive_job_row_inv:
  assumes "store_inv d" and "archive_job_row row d = Inr d'" and "is_terminal_status (r_status row)"
  shows "store_inv d'"
  using archive_job_rowD [OF assms(2)] archive_effect_inv assms by blast

text \<open>
  Updates that leave ids, unique keys and live statuses alone keep the invariant; so do
  updates of the tables the invariant does not mention.
\<close>

definition keeps_row :: "(job_row \<Rightarrow> job_row) \<Rightarrow> bool" where
  "keeps_row f \<longleftrightarrow> (\<forall>r. r_id (f r) = r_id r \<and> r_unique_key (f r) = r_unique_key r \<and>
     (r_status r \<in> {0, 1} \<longrightarrow> r_status (f r) \<in> {0, 1}))"

lemma live_ids_set: "live_ids d = set (map r_id (jobs d))"
  by (simp add: live_ids_def)

lemma live_ids_update:
  "keeps_row f \<Longrightarrow> live_ids (d\<lparr>jobs := update_where P f (jobs d)\<rparr>) = live_ids d"
  unfolding live_ids_set
  by (simp add: map_key_update_where keeps_row_def del: set_map)

lemma store_inv_update_jobs:
  assumes inv: "store_inv d" and f: "keeps_row f"
  shows "store_inv (d\<lparr>jobs := update_where P f (jobs d)\<rparr>)"
proof -
  let ?d = "d\<lparr>jobs := update_where P f (jobs d)\<rparr>"
  have old: "\<exists>r0 \<in> set (jobs d). r_id r = r_id r0 \<and> r_unique_key r = r_unique_key r0 \<and>
      (r_status r = 0 \<or> r_status r = 1)" if "r \<in> set (jobs ?d)" for r
  proof -
    from that have "r \<in> set (update_where P f (jobs d))" by simp
    then obtain r0 where r0: "r0 \<in> set (jobs d)" "r = (if P r0 then f r0 else r0)"
      by (rule update_whereE)
    moreover from r0 inv have "r_status r0 = 0 \<or> r_status r0 = 1"
      by (simp add: store_inv_def live_ok_def)
    ultimately have "r_id r = r_id r0 \<and> r_unique_key r = r_unique_key r0 \<and>
        (r_status r = 0 \<or> r_status r = 1)"
      using f by (auto simp: keeps_row_def)
    with r0(1) show ?thesis by blast
  qed
  have "map r_id (jobs ?d) = map r_id (jobs d)"
    using f by (simp add: map_key_update_where keeps_row_def)
  then have "live_ok ?d"
    using inv old unfolding store_inv_def live_ok_def by fastforce
  moreover have "unique_ok ?d"
    by (rule unique_okI) (metis old unique_okD [OF inv])
  moreover have "live_ids ?d = live_ids d" by (rule live_ids_update [OF f])
  ultimately show ?thesis
    using inv by (simp add: store_inv_def archive_ok_def archived_ids_def steps_owned_def)
qed

lemma store_inv_frame [simp]:
  "store_inv (d\<lparr>job_dependencies := x1\<rparr>) = store_inv d"
  "store_inv (d\<lparr>job_errors := x2\<rparr>) = store_inv d"
  "store_inv (d\<lparr>task_metrics := x3\<rparr>) = store_inv d"
  "store_inv (d\<lparr>task_logs := x4\<rparr>) = store_inv d"
  "store_inv (d\<lparr>replay_history := x5\<rparr>) = store_inv d"
  "store_inv (d\<lparr>dead_letter := x6\<rparr>) = store_inv d"
  "store_inv (d\<lparr>distributed_locks := x7\<rparr>) = store_inv d"
  unfolding store_inv_defs by simp_all

lemma claims_frame [simp]:
  "live_ok (d\<lparr>execution_claims := cs\<rparr>) = live_ok d"
  "archive_ok (d\<lparr>execution_claims := cs\<rparr>) = archive_ok d"
  "unique_ok (d\<lparr>execution_claims := cs\<rparr>) = unique_ok d"
  "steps_owned (d\<lparr>execution_claims := cs\<rparr>) = steps_owned d"
  "live_ids (d\<lparr>execution_claims := cs\<rparr>) = live_ids d"
  "archived_ids (d\<lparr>execution_claims := cs\<rparr>) = archived_ids d"
  unfolding store_inv_defs by simp_all

lemma store_inv_claims:
  "store_inv d \<Longrightarrow> distinct (map c_job_id cs) \<Longrightarrow> store_inv (d\<lparr>execution_claims := cs\<rparr>)"
  by (simp add: store_inv_def)

lemma store_inv_delete_claims:
  "store_inv d \<Longrightarrow> store_inv (d\<lparr>execution_claims := delete_where P (execution_claims d)\<rparr>)"
  by (rule store_inv_claims) (simp_all add: store_inv_def distinct_delete_where)

lemma insert_job_inv:
  assumes inv: "store_inv d" and ok: "insert_job row d = Inr d'"
    and live: "r_status row = 0 \<or> r_status row = 1" and fresh: "r_id row \<notin> archived_ids d"
  shows "store_inv d'"
proof -
  from insert_jobD [OF ok] have eq: "d' = d\<lparr>jobs := jobs d @ [row]\<rparr>"
    and new: "r_id row \<notin> live_ids d" and uk: "\<not> unique_key_taken row (jobs d)" by auto
  have "live_ok d'"
    using inv new live by (auto simp: eq store_inv_def live_ok_def live_ids_def)
  moreover have "live_ids d' \<inter> archived_ids d' = {}" "steps_owned d'"
    using inv fresh by (auto simp: eq store_inv_def live_ids_def archived_ids_def steps_owned_def)
  moreover have "unique_ok d'"
  proof -
    have clash: False
      if "r \<in> set (jobs d)" "r_unique_key row = Some k" "r_unique_key r = Some k" for r k
      using uk that live inv
      by (auto simp: unique_key_taken_def in_unique_index_def store_inv_def live_ok_def)
    show ?thesis
      by (rule unique_okI) (auto simp: eq dest: clash unique_okD [OF inv])
  qed
  ultimately show ?thesis
    using inv by (simp add: eq store_inv_def archive_ok_def)
qed

lemma live_status: "store_inv d \<Longrightarrow> r \<in> set (jobs d) \<Longrightarrow> r_status r = 0 \<or> r_status r = 1"
  by (simp add: store_inv_def live_ok_def)

lemma find_live: "find_row r_id jid (jobs d) = Some r \<Longrightarrow> r \<in> set (jobs d) \<and> r_id r = jid \<and> jid \<in> live_ids d"
  by (auto simp: live_ids_def dest: find_row_SomeD)

lemma write_transaction_simps [simp]:
  "f d = Inl e \<Longrightarrow> write_transaction f d = (Inl e, d)"
  "f d = Inr (a, d') \<Longrightarrow> write_transaction f d = (Inr a, d')"
  by (simp_all add: write_transaction_def)

text \<open>Whatever a transaction preserves on its commits it preserves outright.\<close>

lemma write_transaction_inv:
  assumes "P d" and "\<And>a d'. f d = Inr (a, d') \<Longrightarrow> P d'"
  shows "P (snd (write_transaction f d))"
  using assms by (auto simp: write_transaction_def split: sum.splits prod.splits)

section \<open>The contract of a store operation\<close>

text \<open>
  What every operation but a purge promises: a well-formed store, no live id but the old ones and
  the ids it created, no archived row but the old ones, unchanged, and rows of jobs that were live,
  and no job lost. A purge promises that it takes archived rows only.
\<close>

definition known_ids :: "db \<Rightarrow> string set" where
  "known_ids d = live_ids d \<union> archived_ids d"

definition keeps_store :: "string set \<Rightarrow> db \<Rightarrow> db \<Rightarrow> bool" where
  "keeps_store new d d' \<longleftrightarrow> store_inv d' \<and> live_ids d' \<subseteq> live_ids d \<union> new \<and>
     (\<forall>a \<in> set (archived_jobs d'). a \<in> set (archived_jobs d) \<or> a_id a \<in> live_ids d \<union> new) \<and>
     known_ids d \<subseteq> known_ids d'"

definition trims_store :: "db \<Rightarrow> db \<Rightarrow> bool" where
  "trims_store d d' \<longleftrightarrow> store_inv d' \<and> jobs d' = jobs d \<and> set (archived_jobs d') \<subseteq> set (archived_jobs d)"

lemma trims_refl: "store_inv d \<Longrightarrow> trims_store d d"
  by (simp add: trims_store_def)

lemma trims_inv: "trims_store d d' \<Longrightarrow> store_inv d'"
  by (simp add: trims_store_def)

lemma trims_trans: "trims_store d d' \<Longrightarrow> trims_store d' d'' \<Longrightarrow> trims_store d d''"
  by (auto simp: trims_store_def)

lemma keeps_refl: "store_inv d \<Longrightarrow> keeps_store new d d"
  by (auto simp: keeps_store_def)

lemma keeps_inv: "keeps_store new d d' \<Longrightarrow> store_inv d'"
  by (simp add: keeps_store_def)

lemma keeps_mono: "keeps_store new d d' \<Longrightarrow> new \<subseteq> new' \<Longrightarrow> keeps_store new' d d'"
  by (auto simp: keeps_store_def)

lemma keeps_trans: "keeps_store new d d' \<Longrightarrow> keeps_store new d' d'' \<Longrightarrow> keeps_store new d d''"
  unfolding keeps_store_def by blast

lemma keeps_archived_ids:
  "keeps_store new d d' \<Longrightarrow> archived_ids d' \<subseteq> archived_ids d \<union> live_ids d \<union> new"
  by (auto simp: keeps_store_def archived_ids_def)

lemma keeps_same_jobs:
  "store_inv d' \<Longrightarrow> jobs d' = jobs d \<Longrightarrow> archived_jobs d' = archived_jobs d \<Longrightarrow> keeps_store new d d'"
  by (auto simp: keeps_store_def known_ids_def live_ids_def archived_ids_def)

lemma keeps_frame [simp]:
  "keeps_store new d (d'\<lparr>job_dependencies := x1\<rparr>) = keeps_store new d d'"
  "keeps_store new d (d'\<lparr>job_errors := x2\<rparr>) = keeps_store new d d'"
  "keeps_store new d (d'\<lparr>task_metrics := x3\<rparr>) = keeps_store new d d'"
  "keeps_store new d (d'\<lparr>task_logs := x4\<rparr>) = keeps_store new d d'"
  "keeps_store new d (d'\<lparr>replay_history := x5\<rparr>) = keeps_store new d d'"
  "keeps_store new d (d'\<lparr>dead_letter := x6\<rparr>) = keeps_store new d d'"
  "keeps_store new d (d'\<lparr>distributed_locks := x7\<rparr>) = keeps_store new d d'"
  by (simp_all add: keeps_store_def known_ids_def live_ids_def archived_ids_def)

lemma keeps_delete_claims:
  "keeps_store new d d' \<Longrightarrow>
     keeps_store new d (d'\<lparr>execution_claims := delete_where P (execution_claims d')\<rparr>)"
  by (auto simp: keeps_store_def known_ids_def store_inv_delete_claims)

lemma keeps_update_jobs:
  "store_inv d \<Longrightarrow> keeps_row f \<Longrightarrow> keeps_store new d (d\<lparr>jobs := update_where P f (jobs d)\<rparr>)"
  by (auto simp: keeps_store_def known_ids_def archived_ids_def store_inv_update_jobs live_ids_update)

lemma keeps_archive:
  "store_inv d \<Longrightarrow> r_id row \<in> live_ids d \<Longrightarrow> is_terminal_status (r_status row) \<Longrightarrow>
     keeps_store new d (archive_effect row d)"
  using archive_effect_inv [of d row]
  by (auto simp: keeps_store_def known_ids_def store_inv_def)

lemma keeps_archive_job_row:
  assumes "store_inv d" "archive_job_row row d = Inr d'" "r_id row \<in> live_ids d"
    "is_terminal_status (r_status row)"
  shows "keeps_store new d d'"
  using archive_job_rowD [OF assms(2)] keeps_archive assms by blast

lemma keeps_transaction:
  assumes "store_inv d" and "\<And>a d'. f d = Inr (a, d') \<Longrightarrow> keeps_store new d d'"
  shows "keeps_store new d (snd (write_transaction f d))"
  by (rule write_transaction_inv) (use assms in \<open>auto intro: keeps_refl\<close>)

lemma keeps_try_fold:
  assumes "store_inv d" "try_fold f xs d = Inr d'"
    and "\<And>x s s'. x \<in> set xs \<Longrightarrow> store_inv s \<Longrightarrow> keeps_store new d s \<Longrightarrow> f x s = Inr s' \<Longrightarrow> keeps_store new s s'"
  shows "keeps_store new d d'"
proof -
  have "keeps_store new d s \<Longrightarrow> try_fold f ys s = Inr d' \<Longrightarrow> set ys \<subseteq> set xs \<Longrightarrow> keeps_store new d d'" for ys s
  proof (induction ys arbitrary: s)
    case (Cons y ys)
    then obtain s' where s': "f y s = Inr s'" "try_fold f ys s' = Inr d'"
      by (auto simp: and_then_Inr_iff)
    have "keeps_store new s s'"
      by (rule assms(3) [OF _ _ Cons.prems(1) s'(1)]) (use Cons.prems in \<open>auto intro: keeps_inv\<close>)
    then show ?case using Cons keeps_trans s'(2) by (metis set_subset_Cons subset_trans)
  qed simp
  then show ?thesis using assms(1,2) keeps_refl by blast
qed

end
