(* ===== verification/Enqueue.thy ===== *)
theory Enqueue
  imports Store
begin

text \<open>
  The enqueue paths of \<open>storage/diesel_common/jobs.rs\<close>: plain, batched, debounced and
  deduplicated by unique key. Fresh UUIDs are drawn from the stream \<open>ids\<close> in the order the
  code calls \<open>Uuid::now_v7\<close>, clock readings are the parameter \<open>now\<close>, and where a call
  runs several transactions the writes other connections commit in between are the parameter
  \<open>env\<close>.
\<close>

section \<open>Plain enqueue\<close>

definition map_err :: "('e \<Rightarrow> 'e) \<Rightarrow> 'e + 'a \<Rightarrow> 'e + 'a" where
  "map_err f r = (case r of Inl e \<Rightarrow> Inl (f e) | Inr a \<Rightarrow> Inr a)"

definition dependency_error :: "queue_error \<Rightarrow> queue_error" where
  "dependency_error e =
     (if e = Storage RollbackTransaction
      then DependencyNotFound ''dependency not found or already dead/cancelled'' else e)"

definition validate_dependencies :: "string list \<Rightarrow> string option \<Rightarrow> db \<Rightarrow> unit result" where
  "validate_dependencies depends_on namespace d =
     try_fold (\<lambda>dep_id _. validate_dependency dep_id namespace d) depends_on ()"

definition insert_dependency_rows ::
    "(nat \<Rightarrow> string) \<Rightarrow> string \<Rightarrow> string list \<Rightarrow> db \<Rightarrow> db result" where
  "insert_dependency_rows ids job_id depends_on d =
     try_fold (\<lambda>(i, dep_id). insert_dependency
         \<lparr>e_id = ids i, e_job_id = job_id, e_depends_on_job_id = dep_id\<rparr>)
       (enumerate 0 depends_on) d"

definition insert_new_job ::
    "json_lib \<Rightarrow> (nat \<Rightarrow> string) \<Rightarrow> job \<Rightarrow> string list \<Rightarrow> db \<Rightarrow> db result" where
  "insert_new_job js ids job depends_on d =
     and_then (validate_dependencies depends_on (j_namespace job) d) (\<lambda>_.
     and_then (insert_job (new_job_row js job) d)
       (insert_dependency_rows ids (j_id job) depends_on))"

definition enqueue ::
    "json_lib \<Rightarrow> (nat \<Rightarrow> string) \<Rightarrow> int \<Rightarrow> new_job \<Rightarrow> db \<Rightarrow> job result \<times> db" where
  "enqueue js ids now nj d =
     (let job = into_job (ids 0) now nj;
          (res, d') = write_transaction (\<lambda>d.
            and_then (insert_new_job js (\<lambda>i. ids (1 + i)) job (n_depends_on nj) d)
              (\<lambda>d'. Inr (job, d'))) d
      in (map_err dependency_error res, d'))"

section \<open>Batched enqueue\<close>

definition BATCH_INSERT_CHUNK :: nat where
  "BATCH_INSERT_CHUNK = 50"

definition into_jobs :: "(nat \<Rightarrow> string) \<Rightarrow> (nat \<Rightarrow> int) \<Rightarrow> new_job list \<Rightarrow> job list" where
  "into_jobs ids clock njs = map (\<lambda>(i, nj). into_job (ids i) (clock i) nj) (enumerate 0 njs)"

text \<open>An edge onto another member of the batch is checked against the batch, any other against
  the tables.\<close>

definition validate_batch_dependency ::
    "(string \<rightharpoonup> string option) \<Rightarrow> string option \<Rightarrow> db \<Rightarrow> string \<Rightarrow> unit result" where
  "validate_batch_dependency batch_ns namespace d dep_id =
     (case batch_ns dep_id of
        Some dep_ns \<Rightarrow>
          if dep_ns \<noteq> namespace then Inl (Storage RollbackTransaction) else Inr ()
      | None \<Rightarrow> validate_dependency dep_id namespace d)"

definition validate_batch :: "(job \<times> string list) list \<Rightarrow> db \<Rightarrow> unit result" where
  "validate_batch batch d =
     (let batch_ns = map_of (rev (map (\<lambda>(job, _). (j_id job, j_namespace job)) batch))
      in try_fold (\<lambda>(job, depends_on) _.
           try_fold (\<lambda>dep_id _. validate_batch_dependency batch_ns (j_namespace job) d dep_id)
             depends_on ()) batch ())"

definition batch_edges :: "(job \<times> string list) list \<Rightarrow> (string \<times> string) list" where
  "batch_edges batch = concat (map (\<lambda>(job, depends_on). map (Pair (j_id job)) depends_on) batch)"

definition insert_edges :: "(nat \<Rightarrow> string) \<Rightarrow> (string \<times> string) list \<Rightarrow> db \<Rightarrow> db result" where
  "insert_edges ids edges d =
     try_fold (\<lambda>(i, job_id, dep_id). insert_dependency
         \<lparr>e_id = ids i, e_job_id = job_id, e_depends_on_job_id = dep_id\<rparr>)
       (enumerate 0 edges) d"

definition insert_batch ::
    "json_lib \<Rightarrow> (nat \<Rightarrow> string) \<Rightarrow> (job \<times> string list) list \<Rightarrow> db \<Rightarrow> db result" where
  "insert_batch js ids batch d =
     and_then (validate_batch batch d) (\<lambda>_.
     and_then (try_fold (try_fold insert_job)
         (chunks BATCH_INSERT_CHUNK (map (new_job_row js \<circ> fst) batch)) d)
       (insert_edges ids (batch_edges batch)))"

definition enqueue_batch ::
    "json_lib \<Rightarrow> (nat \<Rightarrow> string) \<Rightarrow> (nat \<Rightarrow> int) \<Rightarrow> new_job list \<Rightarrow> db \<Rightarrow> job list result \<times> db"
    where
  "enqueue_batch js ids clock njs d =
     (let js_jobs = into_jobs ids clock njs;
          batch = zip js_jobs (map n_depends_on njs);
          (res, d') = write_transaction (\<lambda>d.
            and_then (insert_batch js (\<lambda>i. ids (length njs + i)) batch d)
              (\<lambda>d'. Inr (js_jobs, d'))) d
      in (map_err dependency_error res, d'))"

section \<open>Debounced enqueue\<close>

record debounce_options =
  window_ms :: int
  max_wait_ms :: int
  replace_payload :: bool

definition DEBOUNCE_CANDIDATE_SCAN :: int where
  "DEBOUNCE_CANDIDATE_SCAN = 8"

definition validated_debounce_key :: "new_job \<Rightarrow> debounce_options \<Rightarrow> string result" where
  "validated_debounce_key nj options =
     (let key = (case n_debounce_key nj of Some k \<Rightarrow> k | None \<Rightarrow> [])
      in if key = [] then Inl (Config ''enqueue_debounced requires a non-empty debounce_key'')
         else if window_ms options \<le> 0
         then Inl (Config (''debounce window_ms must be positive, got '' @
                string_of_int (window_ms options)))
         else if max_wait_ms options < window_ms options
         then Inl (Config (''debounce max_wait_ms ('' @ string_of_int (max_wait_ms options) @
                '') must be at least window_ms ('' @ string_of_int (window_ms options) @ '')''))
         else Inr key)"

definition debounce_le :: "job_row \<Rightarrow> job_row \<Rightarrow> bool" where
  "debounce_le r r' \<longleftrightarrow>
     r_created_at r < r_created_at r' \<or> r_created_at r = r_created_at r' \<and> r_id r \<le> r_id r'"

definition in_window :: "string option \<Rightarrow> string \<Rightarrow> job_row \<Rightarrow> bool" where
  "in_window namespace debounce_key r \<longleftrightarrow>
     r_debounce_key r = Some debounce_key \<and> r_status r = status_code Pending \<and>
     r_namespace r = namespace"

definition lock_debounce_candidates :: "string option \<Rightarrow> string \<Rightarrow> db \<Rightarrow> job_row list" where
  "lock_debounce_candidates namespace debounce_key d =
     sql_limit DEBOUNCE_CANDIDATE_SCAN
       (order_by debounce_le (filter (in_window namespace debounce_key) (jobs d)))"

definition find_debounce_target :: "string option \<Rightarrow> string \<Rightarrow> db \<Rightarrow> job_row option" where
  "find_debounce_target namespace debounce_key d =
     (let candidates = lock_debounce_candidates namespace debounce_key d;
          row_ids = map r_id candidates;
          claimed = filter (\<lambda>c. c \<in> set row_ids) (map c_job_id (execution_claims d))
      in find (\<lambda>row. r_id row \<notin> set claimed) candidates)"

definition slide ::
    "string \<Rightarrow> int \<Rightarrow> debounce_options \<Rightarrow> bytes \<Rightarrow> db \<Rightarrow> db" where
  "slide pending_id deadline options payload d =
     (if replace_payload options
      then d\<lparr>jobs := update_where (\<lambda>r. r_id r = pending_id)
               (\<lambda>r. r\<lparr>r_scheduled_at := deadline, r_payload := payload\<rparr>) (jobs d)\<rparr>
      else d\<lparr>jobs := update_where (\<lambda>r. r_id r = pending_id)
               (\<lambda>r. r\<lparr>r_scheduled_at := deadline\<rparr>) (jobs d)\<rparr>)"

definition debounce_body ::
    "json_lib \<Rightarrow> (nat \<Rightarrow> string) \<Rightarrow> job \<Rightarrow> string list \<Rightarrow> debounce_options \<Rightarrow> string \<Rightarrow> db
     \<Rightarrow> (job \<times> db) result" where
  "debounce_body js ids job depends_on options debounce_key d =
     (case find_debounce_target (j_namespace job) debounce_key d of
        Some pending \<Rightarrow>
          (let deadline = min (j_scheduled_at job)
                 (saturating_add (r_created_at pending) (max_wait_ms options));
               d' = slide (r_id pending) deadline options (j_payload job) d
           in case find_row r_id (r_id pending) (jobs d') of
                Some row \<Rightarrow> Inr (job_of_row row, d')
              | None \<Rightarrow> Inl (Storage NotFound))
      | None \<Rightarrow> and_then (insert_new_job js ids job depends_on d) (\<lambda>d'. Inr (job, d')))"

definition enqueue_debounced ::
    "json_lib \<Rightarrow> (nat \<Rightarrow> string) \<Rightarrow> int \<Rightarrow> new_job \<Rightarrow> debounce_options \<Rightarrow> db \<Rightarrow> job result \<times> db"
    where
  "enqueue_debounced js ids now nj options d =
     (case validated_debounce_key nj options of
        Inl e \<Rightarrow> (Inl e, d)
      | Inr debounce_key \<Rightarrow>
          (let job = (into_job (ids 0) now nj)\<lparr>j_created_at := now,
                 j_scheduled_at := saturating_add now (window_ms options)\<rparr>;
               (res, d') = write_transaction
                 (debounce_body js (\<lambda>i. ids (1 + i)) job (n_depends_on nj) options debounce_key) d
           in (map_err dependency_error res, d')))"

section \<open>Enqueue with a unique key\<close>

definition MAX_ENQUEUE_ATTEMPTS :: nat where
  "MAX_ENQUEUE_ATTEMPTS = 3"

definition find_active_unique :: "string option \<Rightarrow> db \<Rightarrow> job_row option" where
  "find_active_unique unique_key d =
     (case unique_key of
        None \<Rightarrow> None
      | Some uk \<Rightarrow> find (\<lambda>r. r_unique_key r = Some uk \<and>
          r_status r \<in> {status_code Pending, status_code Running}) (jobs d))"

definition unique_body ::
    "json_lib \<Rightarrow> (nat \<Rightarrow> string) \<Rightarrow> job \<Rightarrow> string list \<Rightarrow> db \<Rightarrow> (job \<times> db) result" where
  "unique_body js ids job depends_on d =
     (case find_active_unique (j_unique_key job) d of
        Some row \<Rightarrow> Inr (job_of_row row, d)
      | None \<Rightarrow> and_then (insert_new_job js ids job depends_on d) (\<lambda>d'. Inr (job, d')))"

text \<open>
  One round of the retry loop is a transaction and, after a unique violation, a read on
  another connection. \<open>env k\<close> is what other connections commit before the \<open>k\<close>-th of these.
\<close>

fun enqueue_unique_loop ::
    "nat \<Rightarrow> nat \<Rightarrow> json_lib \<Rightarrow> (nat \<Rightarrow> string) \<Rightarrow> (nat \<Rightarrow> db \<Rightarrow> db) \<Rightarrow> job \<Rightarrow> string list \<Rightarrow> db
     \<Rightarrow> job result \<times> db" where
  "enqueue_unique_loop 0 k js ids env job depends_on d =
     (Inl (Other ''enqueue_unique: unique key contended across retries''), d)"
| "enqueue_unique_loop (Suc n) k js ids env job depends_on d =
     (let (res, d1) = write_transaction (unique_body js ids job depends_on) (env k d)
      in case res of
           Inr j \<Rightarrow> (Inr j, d1)
         | Inl e \<Rightarrow>
             if e = Storage UniqueViolation
             then (let d2 = env (Suc k) d1
                   in case find_active_unique (j_unique_key job) d2 of
                        Some row \<Rightarrow> (Inr (job_of_row row), d2)
                      | None \<Rightarrow> enqueue_unique_loop n (Suc (Suc k)) js
                          (\<lambda>i. ids (length depends_on + i)) env job depends_on d2)
             else (Inl (dependency_error e), d1))"

definition enqueue_unique ::
    "json_lib \<Rightarrow> (nat \<Rightarrow> string) \<Rightarrow> int \<Rightarrow> (nat \<Rightarrow> db \<Rightarrow> db) \<Rightarrow> new_job \<Rightarrow> db \<Rightarrow> job result \<times> db"
    where
  "enqueue_unique js ids now env nj d =
     enqueue_unique_loop MAX_ENQUEUE_ATTEMPTS 0 js (\<lambda>i. ids (1 + i)) env
       (into_job (ids 0) now nj) (n_depends_on nj) d"

fun unique_batch_body ::
    "json_lib \<Rightarrow> (nat \<Rightarrow> string) \<Rightarrow> (job \<times> string list) list \<Rightarrow> db \<Rightarrow> (job list \<times> db) result" where
  "unique_batch_body js ids [] d = Inr ([], d)"
| "unique_batch_body js ids ((job, depends_on) # rest) d =
     and_then (unique_body js ids job depends_on d) (\<lambda>(j, d1).
     and_then (unique_batch_body js (\<lambda>i. ids (length depends_on + i)) rest d1)
       (\<lambda>(out, d2). Inr (j # out, d2)))"

fun enqueue_unique_batch_loop ::
    "nat \<Rightarrow> nat \<Rightarrow> json_lib \<Rightarrow> (nat \<Rightarrow> string) \<Rightarrow> (nat \<Rightarrow> db \<Rightarrow> db) \<Rightarrow> (job \<times> string list) list \<Rightarrow> db
     \<Rightarrow> job list result \<times> db" where
  "enqueue_unique_batch_loop 0 k js ids env prepared d =
     (Inl (Other ''enqueue_unique_batch: unique key contended across retries''), d)"
| "enqueue_unique_batch_loop (Suc n) k js ids env prepared d =
     (let (res, d1) = write_transaction (unique_batch_body js ids prepared) (env k d)
      in case res of
           Inr out \<Rightarrow> (Inr out, d1)
         | Inl e \<Rightarrow>
             if e = Storage UniqueViolation
             then enqueue_unique_batch_loop n (Suc k) js
                    (\<lambda>i. ids (sum_list (map (length \<circ> snd) prepared) + i)) env prepared d1
             else (Inl (dependency_error e), d1))"

definition enqueue_unique_batch ::
    "json_lib \<Rightarrow> (nat \<Rightarrow> string) \<Rightarrow> (nat \<Rightarrow> int) \<Rightarrow> (nat \<Rightarrow> db \<Rightarrow> db) \<Rightarrow> new_job list \<Rightarrow> db
     \<Rightarrow> job list result \<times> db" where
  "enqueue_unique_batch js ids clock env njs d =
     enqueue_unique_batch_loop MAX_ENQUEUE_ATTEMPTS 0 js (\<lambda>i. ids (length njs + i)) env
       (zip (into_jobs ids clock njs) (map n_depends_on njs)) d"

definition enqueue_batch_dedup ::
    "json_lib \<Rightarrow> (nat \<Rightarrow> string) \<Rightarrow> (nat \<Rightarrow> int) \<Rightarrow> (nat \<Rightarrow> db \<Rightarrow> db) \<Rightarrow> new_job list \<Rightarrow> db
     \<Rightarrow> job list result \<times> db" where
  "enqueue_batch_dedup js ids clock env njs d =
     (if list_ex (\<lambda>nj. n_unique_key nj \<noteq> None) njs
      then enqueue_unique_batch js ids clock env njs d
      else enqueue_batch js ids clock njs d)"

section \<open>What a successful insert commits\<close>

lemma map_err_simps [simp]: "map_err f (Inr a) = Inr a" "map_err f (Inl e) = Inl (f e)"
  by (simp_all add: map_err_def)

lemma map_err_Inr_iff [simp]: "map_err f r = Inr a \<longleftrightarrow> r = Inr a"
  by (cases r) auto

lemma validate_dependency_InlD:
  "validate_dependency dep_id ns d = Inl e \<Longrightarrow> e = Storage RollbackTransaction"
  by (auto simp: validate_dependency_def split: option.splits if_splits)

definition dependency_ok :: "string option \<Rightarrow> db \<Rightarrow> string \<Rightarrow> bool" where
  "dependency_ok namespace d dep_id \<longleftrightarrow> validate_dependency dep_id namespace d = Inr ()"

text \<open>In a well-formed store a dependency is accepted iff its job shares the namespace and is
  live or archived as complete.\<close>

lemma dependency_ok_iff:
  assumes inv: "store_inv d"
  shows "dependency_ok ns d dep_id \<longleftrightarrow>
    (\<exists>r \<in> set (jobs d). r_id r = dep_id \<and> r_namespace r = ns) \<or>
    (\<exists>a \<in> set (archived_jobs d). a_id a = dep_id \<and> a_namespace a = ns \<and>
       a_status a = status_code Complete)"
proof -
  have "distinct (map r_id (jobs d))" "distinct (map a_id (archived_jobs d))"
    using inv by (simp_all add: store_inv_def live_ok_def archive_ok_def)
  moreover have "find_row a_id dep_id (archived_jobs d) = None"
    if "find_row r_id dep_id (jobs d) = Some r" for r
  proof -
    have "dep_id \<in> live_ids d" using find_live [OF that] by blast
    then show ?thesis
      using inv unfolding store_inv_def archived_ids_def find_row_None_iff by blast
  qed
  moreover have "r_status r = status_code Pending \<or> r_status r = status_code Running"
    if "find_row r_id dep_id (jobs d) = Some r" for r
    using inv find_live [OF that] by (simp add: store_inv_def live_ok_def)
  ultimately show ?thesis
    unfolding dependency_ok_def validate_dependency_def
    by (cases "find_row r_id dep_id (jobs d)"; cases "find_row a_id dep_id (archived_jobs d)")
      (auto simp: bex_find_row)
qed

lemma validate_dependencies_eq:
  "validate_dependencies deps ns d =
     (if \<forall>dep \<in> set deps. dependency_ok ns d dep then Inr () else Inl (Storage RollbackTransaction))"
  unfolding validate_dependencies_def
proof (induction deps)
  case (Cons dep deps)
  then show ?case
    by (cases "validate_dependency dep ns d")
      (auto simp: dependency_ok_def dest: validate_dependency_InlD)
qed simp

definition dep_rows :: "(nat \<Rightarrow> string) \<Rightarrow> string \<Rightarrow> string list \<Rightarrow> dep_row list" where
  "dep_rows ids job_id deps =
     map (\<lambda>(i, dep). \<lparr>e_id = ids i, e_job_id = job_id, e_depends_on_job_id = dep\<rparr>)
       (enumerate 0 deps)"

lemma try_fold_insert_dependency:
  "try_fold insert_dependency rows d = Inr d' \<Longrightarrow>
     d' = d\<lparr>job_dependencies := job_dependencies d @ rows\<rparr>"
proof (induction rows arbitrary: d)
  case (Cons row rows)
  then obtain d1 where "insert_dependency row d = Inr d1" "try_fold insert_dependency rows d1 = Inr d'"
    by (auto simp: and_then_Inr_iff)
  from insert_dependencyD [OF this(1)] Cons.IH [OF this(2)] show ?case by simp
qed simp

lemma try_fold_map: "try_fold f (map g xs) s = try_fold (f \<circ> g) xs s"
proof (induction xs arbitrary: s)
  case (Cons x xs)
  then show ?case by (simp add: and_then_def split: sum.splits)
qed simp

lemma insert_dependency_rows_eq:
  "insert_dependency_rows ids job_id deps d = try_fold insert_dependency (dep_rows ids job_id deps) d"
  by (simp add: insert_dependency_rows_def dep_rows_def try_fold_map comp_def case_prod_unfold)

definition new_job_effect ::
    "json_lib \<Rightarrow> (nat \<Rightarrow> string) \<Rightarrow> job \<Rightarrow> string list \<Rightarrow> db \<Rightarrow> db" where
  "new_job_effect js ids job deps d = d\<lparr>
     jobs := jobs d @ [new_job_row js job],
     job_dependencies := job_dependencies d @ dep_rows ids (j_id job) deps\<rparr>"

lemma insert_new_jobD:
  assumes "insert_new_job js ids job deps d = Inr d'"
  shows "d' = new_job_effect js ids job deps d \<and> (\<forall>dep \<in> set deps. dependency_ok (j_namespace job) d dep) \<and>
    j_id job \<notin> live_ids d \<and> \<not> unique_key_taken (new_job_row js job) (jobs d)"
  using assms
  by (auto simp: insert_new_job_def validate_dependencies_eq insert_dependency_rows_eq
      new_job_effect_def and_then_Inr_iff split: if_splits
      dest!: insert_jobD try_fold_insert_dependency)

lemma insert_new_job_inv:
  assumes "store_inv d" "insert_new_job js ids job deps d = Inr d'"
    "j_status job = Pending" "j_id job \<notin> archived_ids d"
  shows "store_inv d'"
proof -
  obtain d1 where d1: "insert_job (new_job_row js job) d = Inr d1"
      and d': "insert_dependency_rows ids (j_id job) deps d1 = Inr d'"
    using assms(2) by (auto simp: insert_new_job_def and_then_Inr_iff)
  have "store_inv d1" by (rule insert_job_inv [OF assms(1) d1]) (use assms in simp_all)
  with d' show ?thesis
    by (auto simp: insert_dependency_rows_eq dest!: try_fold_insert_dependency)
qed

text \<open>The row an enqueue writes reads back as the job it returns.\<close>

lemma job_of_new_job_row:
  assumes "j_started_at job = None" "j_completed_at job = None" "j_result job = None"
    "j_error job = None" "j_progress job = None" "\<not> j_cancel_requested job"
  shows "job_of_row (new_job_row js job) = job"
  using assms
  by (simp add: job_of_row_def from_narrow_def new_job_row_def Let_def del: status_code.simps)

lemma job_of_into_job: "job_of_row (new_job_row js (into_job u now nj)) = into_job u now nj"
  by (rule job_of_new_job_row) (simp_all add: into_job_def)

section \<open>Plain enqueue: every branch\<close>

text \<open>\<open>Uuid::now_v7\<close> never repeats an id: what the code relies on.\<close>

definition fresh_ids :: "(nat \<Rightarrow> string) \<Rightarrow> db \<Rightarrow> bool" where
  "fresh_ids ids d \<longleftrightarrow> inj ids \<and>
     (\<forall>i. ids i \<notin> live_ids d \<and> ids i \<notin> archived_ids d \<and> ids i \<notin> e_id ` set (job_dependencies d))"

lemma try_fold_insert_dependency_ok:
  "distinct (map e_id rows) \<Longrightarrow> e_id ` set rows \<inter> e_id ` set (job_dependencies d) = {} \<Longrightarrow>
     try_fold insert_dependency rows d = Inr (d\<lparr>job_dependencies := job_dependencies d @ rows\<rparr>)"
proof (induction rows arbitrary: d)
  case (Cons row rows)
  let ?d = "d\<lparr>job_dependencies := job_dependencies d @ [row]\<rparr>"
  have "insert_dependency row d = Inr ?d"
    using Cons.prems by (auto simp: insert_dependency_def insert_row_def)
  moreover have "e_id ` set rows \<inter> e_id ` set (job_dependencies ?d) = {}"
    using Cons.prems by auto
  ultimately show ?case using Cons.IH [of ?d] Cons.prems by simp
qed simp

lemma map_e_id_dep_rows: "map e_id (dep_rows ids jid deps) = map ids [0..<length deps]"
  by (simp add: dep_rows_def enumerate_eq_zip comp_def case_prod_unfold map_fst_zip
      flip: map_map [of ids fst, unfolded comp_def])

lemma dep_rows_edge:
  assumes "dep \<in> set deps"
  shows "\<exists>e \<in> set (dep_rows ids jid deps). e_job_id e = jid \<and> e_depends_on_job_id e = dep"
proof -
  from assms obtain i where "i < length deps" "deps ! i = dep" by (auto simp: in_set_conv_nth)
  then have "(i, dep) \<in> set (enumerate 0 deps)" by (auto simp: in_set_enumerate_eq)
  then show ?thesis by (force simp: dep_rows_def)
qed

lemma insert_dependency_rows_ok:
  assumes "inj ids" "\<And>i. ids i \<notin> e_id ` set (job_dependencies d)"
  shows "insert_dependency_rows ids jid deps d =
    Inr (d\<lparr>job_dependencies := job_dependencies d @ dep_rows ids jid deps\<rparr>)"
proof -
  have "distinct (map e_id (dep_rows ids jid deps))"
    using assms(1) by (auto simp: map_e_id_dep_rows distinct_map inj_on_def)
  have "set (map e_id (dep_rows ids jid deps)) \<inter> e_id ` set (job_dependencies d) = {}"
    unfolding map_e_id_dep_rows using assms(2) by auto
  then have "e_id ` set (dep_rows ids jid deps) \<inter> e_id ` set (job_dependencies d) = {}"
    by (simp only: set_map)
  with \<open>distinct (map e_id (dep_rows ids jid deps))\<close> show ?thesis
    unfolding insert_dependency_rows_eq by (rule try_fold_insert_dependency_ok)
qed

text \<open>A unique key is taken exactly when an active job holds it.\<close>

definition key_active :: "string option \<Rightarrow> db \<Rightarrow> bool" where
  "key_active uk d \<longleftrightarrow> uk \<noteq> None \<and> (\<exists>r \<in> set (jobs d). r_unique_key r = uk)"

lemma unique_key_taken_iff:
  assumes "store_inv d" "r_status row = 0 \<or> r_status row = 1"
  shows "unique_key_taken row (jobs d) \<longleftrightarrow> key_active (r_unique_key row) d"
proof (cases "r_unique_key row")
  case None
  then show ?thesis by (simp add: unique_key_taken_def in_unique_index_def key_active_def)
next
  case (Some k)
  have "(\<exists>r \<in> set (jobs d). in_unique_index r \<and> r_unique_key r = Some k) \<longleftrightarrow>
      (\<exists>r \<in> set (jobs d). r_unique_key r = Some k)"
    by (rule bex_cong) (use live_status [OF assms(1)] in \<open>auto simp: in_unique_index_def\<close>)
  with Some assms(2) show ?thesis
    by (simp add: unique_key_taken_def in_unique_index_def [of row] key_active_def)
qed

lemma insert_new_job_eq:
  assumes inv: "store_inv d" and pend: "j_status job = Pending" and new: "j_id job \<notin> live_ids d"
    and ids: "inj ids" "\<And>i. ids i \<notin> e_id ` set (job_dependencies d)"
  shows "insert_new_job js ids job deps d =
    (if \<exists>dep \<in> set deps. \<not> dependency_ok (j_namespace job) d dep then Inl (Storage RollbackTransaction)
     else if key_active (j_unique_key job) d then Inl (Storage UniqueViolation)
     else Inr (new_job_effect js ids job deps d))"
  using insert_dependency_rows_ok [of ids "d\<lparr>jobs := jobs d @ [new_job_row js job]\<rparr>" "j_id job" deps]
    unique_key_taken_iff [OF inv, of "new_job_row js job"] ids new pend
  by (simp add: insert_new_job_def validate_dependencies_eq insert_job_def insert_row_def
      live_ids_def new_job_effect_def)

lemma enqueue_eq:
  assumes inv: "store_inv d" and fresh: "fresh_ids ids d"
  shows "enqueue js ids now nj d =
    (if \<exists>dep \<in> set (n_depends_on nj). \<not> dependency_ok (n_namespace nj) d dep
     then (Inl (DependencyNotFound ''dependency not found or already dead/cancelled''), d)
     else if key_active (n_unique_key nj) d then (Inl (Storage UniqueViolation), d)
     else (Inr (into_job (ids 0) now nj),
           new_job_effect js (\<lambda>i. ids (1 + i)) (into_job (ids 0) now nj) (n_depends_on nj) d))"
proof -
  have "inj (\<lambda>i. ids (1 + i))" "ids (1 + i) \<notin> e_id ` set (job_dependencies d)" "ids 0 \<notin> live_ids d"
    for i
    using fresh by (auto simp: fresh_ids_def inj_def)
  then show ?thesis
    using insert_new_job_eq [OF inv, of "into_job (ids 0) now nj" "\<lambda>i. ids (1 + i)" js "n_depends_on nj"]
    by (simp add: enqueue_def write_transaction_def dependency_error_def Let_def)
qed

lemma get_job_new_other:
  "jid \<noteq> j_id job \<Longrightarrow> get_job jid ns (new_job_effect js ids job deps d) = get_job jid ns d"
  by (simp add: get_job_def new_job_effect_def find_row_append split: option.splits)

lemma get_job_new:
  assumes "j_id job \<notin> live_ids d" "job_of_row (new_job_row js job) = job"
  shows "get_job (j_id job) (j_namespace job) (new_job_effect js ids job deps d) = Some job"
proof -
  have "find_row r_id (j_id job) (jobs d) = None"
    using assms(1) by (simp add: find_row_None_iff live_ids_def)
  then show ?thesis
    using assms(2)
    by (simp add: get_job_def new_job_effect_def find_row_append job_in_namespace_def
        split: option.splits)
qed

lemma new_job_effect_inv:
  assumes "store_inv d" "j_status job = Pending" "j_id job \<notin> live_ids d" "j_id job \<notin> archived_ids d"
    "\<not> key_active (j_unique_key job) d"
  shows "store_inv (new_job_effect js ids job deps d)"
proof -
  have "insert_job (new_job_row js job) d = Inr (d\<lparr>jobs := jobs d @ [new_job_row js job]\<rparr>)"
    using assms by (simp add: insert_job_def insert_row_def live_ids_def unique_key_taken_iff)
  from insert_job_inv [OF assms(1) this] assms show ?thesis
    by (simp add: new_job_effect_def)
qed

text \<open>
  A plain enqueue is total and has three outcomes. It refuses a dependency that is unknown,
  in another namespace, dead or cancelled, and a unique key an active job holds, both leaving
  the store unchanged; otherwise the returned job is the one a read in its namespace finds,
  every other job reads as before, all its dependency edges are stored, and the store stays
  well formed.
\<close>

lemma enqueue_correct:
  assumes "store_inv d" "fresh_ids ids d"
  shows "case enqueue js ids now nj d of
    (Inr job, d') \<Rightarrow>
      (\<forall>dep \<in> set (n_depends_on nj). dependency_ok (n_namespace nj) d dep) \<and>
      \<not> key_active (n_unique_key nj) d \<and> job = into_job (ids 0) now nj \<and> store_inv d' \<and>
      get_job (ids 0) (n_namespace nj) d' = Some job \<and>
      (\<forall>jid ns. jid \<noteq> ids 0 \<longrightarrow> get_job jid ns d' = get_job jid ns d) \<and>
      (\<forall>dep \<in> set (n_depends_on nj). \<exists>e \<in> set (job_dependencies d').
         e_job_id e = ids 0 \<and> e_depends_on_job_id e = dep)
  | (Inl e, d') \<Rightarrow> d' = d \<and>
      ((\<exists>dep \<in> set (n_depends_on nj). \<not> dependency_ok (n_namespace nj) d dep) \<and>
       e = DependencyNotFound ''dependency not found or already dead/cancelled'' \<or>
       key_active (n_unique_key nj) d \<and> e = Storage UniqueViolation)"
proof (cases "\<exists>dep \<in> set (n_depends_on nj). \<not> dependency_ok (n_namespace nj) d dep \<or>
    key_active (n_unique_key nj) d")
  case True
  then show ?thesis using enqueue_eq [OF assms] by auto
next
  case False
  then show ?thesis
  proof (cases "key_active (n_unique_key nj) d")
    case True
    with False show ?thesis using enqueue_eq [OF assms] by auto
  next
    case free: False
    let ?job = "into_job (ids 0) now nj"
    let ?d = "new_job_effect js (\<lambda>i. ids (1 + i)) ?job (n_depends_on nj) d"
    have new: "ids 0 \<notin> live_ids d" "ids 0 \<notin> archived_ids d"
      using assms(2) by (auto simp: fresh_ids_def)
    have "enqueue js ids now nj d = (Inr ?job, ?d)"
      using False free enqueue_eq [OF assms] by auto
    moreover have "\<exists>e \<in> set (job_dependencies ?d). e_job_id e = ids 0 \<and> e_depends_on_job_id e = dep"
      if "dep \<in> set (n_depends_on nj)" for dep
      using dep_rows_edge [OF that, of "\<lambda>i. ids (1 + i)" "ids 0"]
      by (auto simp: new_job_effect_def)
    moreover have "store_inv ?d"
      by (rule new_job_effect_inv) (use new assms free in simp_all)
    ultimately show ?thesis
      using False free new get_job_new [of ?job d js] get_job_new_other [of _ ?job _ js]
      by (simp add: job_of_into_job)
  qed
qed

section \<open>Debounce\<close>

interpretation debounce_order: row_order debounce_le
  by unfold_locales (auto simp: debounce_le_def)

text \<open>The target is the oldest pending row of the key that no worker holds.\<close>

lemma find_debounce_target_SomeD:
  assumes "find_debounce_target ns k d = Some r"
  shows "r \<in> set (jobs d) \<and> in_window ns k r \<and> r_id r \<notin> c_job_id ` set (execution_claims d)"
proof -
  have "r \<in> set (lock_debounce_candidates ns k d)" "r_id r \<notin> c_job_id ` set (execution_claims d)"
    using assms by (auto simp: find_debounce_target_def Let_def find_Some_iff)
  then show ?thesis
    using set_sql_limit unfolding lock_debounce_candidates_def by fastforce
qed

lemma find_debounce_target_single:
  assumes "filter (in_window ns k) (jobs d) = [r]" "r_id r \<notin> c_job_id ` set (execution_claims d)"
  shows "find_debounce_target ns k d = Some r"
  using assms
  by (auto simp: find_debounce_target_def lock_debounce_candidates_def sql_limit_def
      DEBOUNCE_CANDIDATE_SCAN_def Let_def)

lemma find_debounce_target_none:
  "filter (in_window ns k) (jobs d) = [] \<Longrightarrow> find_debounce_target ns k d = None"
  by (simp add: find_debounce_target_def lock_debounce_candidates_def sql_limit_def Let_def)

definition slid :: "int \<Rightarrow> debounce_options \<Rightarrow> bytes \<Rightarrow> job_row \<Rightarrow> job_row" where
  "slid deadline options payload r = r\<lparr>r_scheduled_at := deadline,
     r_payload := (if replace_payload options then payload else r_payload r)\<rparr>"

lemma slid_sel [simp]:
  "r_id (slid dl o' p r) = r_id r" "r_created_at (slid dl o' p r) = r_created_at r"
  "r_scheduled_at (slid dl o' p r) = dl" "in_window ns k (slid dl o' p r) = in_window ns k r"
  "r_payload (slid dl o' p r) = (if replace_payload o' then p else r_payload r)"
  "keeps_row (slid dl o' p)"
  by (simp_all add: slid_def in_window_def keeps_row_def)

lemma slide_eq: "slide pid dl options payload d =
    d\<lparr>jobs := update_where (\<lambda>r. r_id r = pid) (slid dl options payload) (jobs d)\<rparr>"
  by (simp add: slide_def slid_def [abs_def])

lemma slide_inv: "store_inv d \<Longrightarrow> store_inv (slide pid dl options payload d)"
  unfolding slide_eq by (rule store_inv_update_jobs) simp_all

lemma debounce_body_inv:
  assumes "store_inv d" "debounce_body js ids job deps options k d = Inr (j, d')"
    "j_status job = Pending" "j_id job \<notin> archived_ids d"
  shows "store_inv d'"
  using assms
  by (auto simp: debounce_body_def Let_def and_then_Inr_iff split: option.splits
      intro: slide_inv insert_new_job_inv)

lemma debounce_slide:
  fixes now :: int
  assumes inv: "store_inv d" and key: "validated_debounce_key nj options = Inr k"
    and window: "filter (in_window (n_namespace nj) k) (jobs d) = [r]"
    and free: "r_id r \<notin> c_job_id ` set (execution_claims d)"
  defines "dl \<equiv> min (saturating_add now (window_ms options))
      (saturating_add (r_created_at r) (max_wait_ms options))"
  shows "enqueue_debounced js ids now nj options d =
      (Inr (job_of_row (slid dl options (n_payload nj) r)), slide (r_id r) dl options (n_payload nj) d)"
    and "filter (in_window (n_namespace nj) k) (jobs (slide (r_id r) dl options (n_payload nj) d)) =
      [slid dl options (n_payload nj) r]"
proof -
  have "r \<in> set (jobs d)" using window by (metis filter_is_subset list.set_intros(1) subsetD)
  then have "find_row r_id (r_id r) (jobs d) = Some r"
    using inv by (simp add: store_inv_def live_ok_def find_row_Some_iff)
  then have "find_row r_id (r_id r) (jobs (slide (r_id r) dl options (n_payload nj) d)) =
      Some (slid dl options (n_payload nj) r)"
    by (simp add: slide_eq find_row_update_where)
  then show "enqueue_debounced js ids now nj options d =
      (Inr (job_of_row (slid dl options (n_payload nj) r)), slide (r_id r) dl options (n_payload nj) d)"
    using find_debounce_target_single [OF window free]
    by (simp add: enqueue_debounced_def key write_transaction_def debounce_body_def dl_def Let_def)
  show "filter (in_window (n_namespace nj) k) (jobs (slide (r_id r) dl options (n_payload nj) d)) =
      [slid dl options (n_payload nj) r]"
    by (simp add: slide_eq filter_update_where window) (simp add: update_where_def)
qed

lemma debounce_open:
  assumes inv: "store_inv d" and fresh: "fresh_ids ids d"
    and key: "validated_debounce_key nj options = Inr k"
    and closed: "filter (in_window (n_namespace nj) k) (jobs d) = []"
    and deps: "\<forall>dep \<in> set (n_depends_on nj). dependency_ok (n_namespace nj) d dep"
    and uk: "\<not> key_active (n_unique_key nj) d"
  shows "\<exists>r. filter (in_window (n_namespace nj) k) (jobs (snd (enqueue_debounced js ids now nj options d))) = [r]
    \<and> r_id r = ids 0 \<and> r_created_at r = now \<and> r_payload r = n_payload nj
    \<and> r_scheduled_at r = saturating_add now (window_ms options)"
    and "execution_claims (snd (enqueue_debounced js ids now nj options d)) = execution_claims d"
    and "store_inv (snd (enqueue_debounced js ids now nj options d))"
proof -
  let ?job = "(into_job (ids 0) now nj)\<lparr>j_created_at := now,
    j_scheduled_at := saturating_add now (window_ms options)\<rparr>"
  have k: "n_debounce_key nj = Some k"
    using key by (auto simp: validated_debounce_key_def Let_def split: if_splits option.splits)
  have "inj (\<lambda>i. ids (1 + i))" "ids (1 + i) \<notin> e_id ` set (job_dependencies d)"
      "ids 0 \<notin> live_ids d" "ids 0 \<notin> archived_ids d" for i
    using fresh by (auto simp: fresh_ids_def inj_def)
  then have ok: "insert_new_job js (\<lambda>i. ids (1 + i)) ?job (n_depends_on nj) d =
      Inr (new_job_effect js (\<lambda>i. ids (1 + i)) ?job (n_depends_on nj) d)"
    using deps uk by (subst insert_new_job_eq [OF inv]) auto
  then have eq: "snd (enqueue_debounced js ids now nj options d) =
      new_job_effect js (\<lambda>i. ids (1 + i)) ?job (n_depends_on nj) d"
    using find_debounce_target_none [OF closed]
    by (simp add: enqueue_debounced_def key write_transaction_def debounce_body_def Let_def)
  show "\<exists>r. filter (in_window (n_namespace nj) k) (jobs (snd (enqueue_debounced js ids now nj options d))) = [r]
    \<and> r_id r = ids 0 \<and> r_created_at r = now \<and> r_payload r = n_payload nj
    \<and> r_scheduled_at r = saturating_add now (window_ms options)"
    unfolding eq by (simp add: new_job_effect_def closed in_window_def k)
  show "execution_claims (snd (enqueue_debounced js ids now nj options d)) = execution_claims d"
    unfolding eq by (simp add: new_job_effect_def)
  show "store_inv (snd (enqueue_debounced js ids now nj options d))"
    unfolding eq
    by (rule new_job_effect_inv) (use inv fresh uk in \<open>simp_all add: fresh_ids_def\<close>)
qed

text \<open>A burst: one debounced enqueue after another, each with its own ids, clock and job.\<close>

definition debounce_burst ::
    "json_lib \<Rightarrow> debounce_options \<Rightarrow> ((nat \<Rightarrow> string) \<times> int \<times> new_job) list \<Rightarrow> db \<Rightarrow> db" where
  "debounce_burst js options calls d =
     fold (\<lambda>(ids, now, nj) d. snd (enqueue_debounced js ids now nj options d)) calls d"

definition same_window ::
    "debounce_options \<Rightarrow> string option \<Rightarrow> string \<Rightarrow> ((nat \<Rightarrow> string) \<times> int \<times> new_job) list \<Rightarrow> bool" where
  "same_window options ns k calls \<longleftrightarrow> list_all (\<lambda>(ids, now, nj).
     n_namespace nj = ns \<and> validated_debounce_key nj options = Inr k) calls"

lemma debounce_burst_Cons:
  "debounce_burst js options ((ids, now, nj) # calls) d =
     debounce_burst js options calls (snd (enqueue_debounced js ids now nj options d))"
  by (simp add: debounce_burst_def)

lemma burst_slides:
  assumes "store_inv d" "same_window options ns k calls"
    "filter (in_window ns k) (jobs d) = [r]" "r_id r \<notin> c_job_id ` set (execution_claims d)"
    "r_created_at r = t0" "r_scheduled_at r = min (saturating_add t (window_ms options))
       (saturating_add t0 (max_wait_ms options))"
  shows "\<exists>r'. filter (in_window ns k) (jobs (debounce_burst js options calls d)) = [r'] \<and>
    r_id r' = r_id r \<and> r_created_at r' = t0 \<and>
    r_scheduled_at r' = min (saturating_add (last (t # map (\<lambda>c. fst (snd c)) calls)) (window_ms options))
      (saturating_add t0 (max_wait_ms options)) \<and>
    r_payload r' = (if replace_payload options
      then last (r_payload r # map (\<lambda>c. n_payload (snd (snd c))) calls) else r_payload r)"
  using assms
proof (induction calls arbitrary: d r t)
  case Nil
  then show ?case by (simp add: debounce_burst_def)
next
  case (Cons c calls)
  obtain ids now nj where c: "c = (ids, now, nj)" by (cases c)
  have ns: "n_namespace nj = ns" and key: "validated_debounce_key nj options = Inr k"
    and rest: "same_window options ns k calls"
    using Cons.prems(2) by (auto simp: c same_window_def)
  let ?dl = "min (saturating_add now (window_ms options)) (saturating_add t0 (max_wait_ms options))"
  let ?r = "slid ?dl options (n_payload nj) r" and ?d = "slide (r_id r) ?dl options (n_payload nj) d"
  have step: "enqueue_debounced js ids now nj options d = (Inr (job_of_row ?r), ?d)"
      "filter (in_window ns k) (jobs ?d) = [?r]"
    using debounce_slide(1) [OF Cons.prems(1) key, of r js ids now]
      debounce_slide(2) [OF Cons.prems(1) key, of r now] Cons.prems ns by simp_all
  have "store_inv ?d" by (rule slide_inv [OF Cons.prems(1)])
  moreover have "execution_claims ?d = execution_claims d" by (simp add: slide_eq)
  ultimately show ?case
    using Cons.IH [of ?d ?r now] step rest Cons.prems
    by (auto simp: c debounce_burst_Cons)
qed

text \<open>
  C24: a burst of debounced enqueues under one key opens one window and leaves exactly one pending
  job, the first call's. However long the burst, it is scheduled at the last call plus the
  window, capped at the first call plus \<open>max_wait_ms\<close>, and carries the last payload if the
  options replace payloads and the first otherwise.
\<close>

theorem debounce_burst_coalesces:
  assumes "store_inv d" "fresh_ids ids d" "n_namespace nj = ns"
    and key: "validated_debounce_key nj options = Inr k"
    and closed: "filter (in_window ns k) (jobs d) = []"
    and deps: "\<forall>dep \<in> set (n_depends_on nj). dependency_ok ns d dep"
    and uk: "\<not> key_active (n_unique_key nj) d"
    and unclaimed: "ids 0 \<notin> c_job_id ` set (execution_claims d)"
    and calls: "same_window options ns k calls"
  shows "\<exists>r. filter (in_window ns k) (jobs (debounce_burst js options ((ids, t0, nj) # calls) d)) = [r] \<and>
    r_id r = ids 0 \<and> r_created_at r = t0 \<and>
    r_scheduled_at r = min (saturating_add (last (t0 # map (\<lambda>c. fst (snd c)) calls)) (window_ms options))
      (saturating_add t0 (max_wait_ms options)) \<and>
    r_payload r = (if replace_payload options
      then last (n_payload nj # map (\<lambda>c. n_payload (snd (snd c))) calls) else n_payload nj)"
proof -
  let ?d = "snd (enqueue_debounced js ids t0 nj options d)"
  have "window_ms options \<le> max_wait_ms options"
    using key by (auto simp: validated_debounce_key_def Let_def split: if_splits)
  then have cap: "saturating_add t0 (window_ms options) =
      min (saturating_add t0 (window_ms options)) (saturating_add t0 (max_wait_ms options))"
    using saturating_add_mono by (simp add: min_def)
  obtain r where r: "filter (in_window ns k) (jobs ?d) = [r]" "r_id r = ids 0" "r_created_at r = t0"
      "r_payload r = n_payload nj" "r_scheduled_at r = saturating_add t0 (window_ms options)"
    using debounce_open(1) [OF assms(1,2) key, of js t0] closed deps uk assms(3) by auto
  have inv: "store_inv ?d" and claims: "execution_claims ?d = execution_claims d"
    using debounce_open(2,3) [OF assms(1,2) key, of js t0] closed deps uk assms(3) by auto
  have free: "r_id r \<notin> c_job_id ` set (execution_claims ?d)"
    using unclaimed r(2) by (simp add: claims)
  show ?thesis
    using burst_slides [OF inv calls r(1) free r(3) trans [OF r(5) cap], of js]
    unfolding debounce_burst_Cons r(2,4) .
qed

section \<open>Deduplication by unique key\<close>

lemma find_active_uniqueD:
  "find_active_unique uk d = Some r \<Longrightarrow> r \<in> set (jobs d) \<and> uk \<noteq> None \<and> r_unique_key r = uk"
  by (auto simp: find_active_unique_def find_Some_iff split: option.splits)

lemma find_active_unique_None_iff:
  "store_inv d \<Longrightarrow> find_active_unique uk d = None \<longleftrightarrow> \<not> key_active uk d"
  using live_status [of d]
  by (auto simp: find_active_unique_def find_None_iff key_active_def split: option.splits)

text \<open>The job is stored, and no other active job holds its key.\<close>

definition stored_unique :: "string option \<Rightarrow> job \<Rightarrow> db \<Rightarrow> bool" where
  "stored_unique uk j d \<longleftrightarrow> (\<exists>r \<in> set (jobs d). job_of_row r = j \<and> r_unique_key r = uk \<and>
     (uk \<noteq> None \<longrightarrow> (\<forall>r' \<in> set (jobs d). r_unique_key r' = uk \<longrightarrow> r_id r' = j_id j)))"

lemma stored_uniqueI:
  "store_inv d \<Longrightarrow> r \<in> set (jobs d) \<Longrightarrow> r_unique_key r = uk \<Longrightarrow> stored_unique uk (job_of_row r) d"
  unfolding stored_unique_def by (metis job_of_row_sel(1) option.exhaust unique_okD)

lemma unique_body_sound:
  assumes "store_inv d" "unique_body js ids job deps d = Inr (j, d')"
    "j_status job = Pending" "j_id job \<notin> archived_ids d" "job_of_row (new_job_row js job) = job"
  shows "store_inv d' \<and> stored_unique (j_unique_key job) j d'"
proof (cases "find_active_unique (j_unique_key job) d")
  case (Some r)
  with assms show ?thesis
    by (auto simp: unique_body_def intro!: stored_uniqueI dest: find_active_uniqueD)
next
  case None
  with assms(2) have ins: "insert_new_job js ids job deps d = Inr d'" and j: "j = job"
    by (auto simp: unique_body_def and_then_Inr_iff)
  have inv: "store_inv d'" by (rule insert_new_job_inv [OF assms(1) ins assms(3,4)])
  have "new_job_row js job \<in> set (jobs d')"
    using insert_new_jobD [OF ins] by (simp add: new_job_effect_def)
  from stored_uniqueI [OF inv this, of "j_unique_key job"] inv show ?thesis
    by (simp add: j assms(5))
qed

lemma enqueue_unique_loop_sound:
  assumes env: "\<And>k d. store_inv d \<Longrightarrow> j_id job \<notin> archived_ids d \<Longrightarrow>
      store_inv (env k d) \<and> j_id job \<notin> archived_ids (env k d)"
    and job: "j_status job = Pending" "job_of_row (new_job_row js job) = job"
  shows "store_inv d \<Longrightarrow> j_id job \<notin> archived_ids d \<Longrightarrow>
    enqueue_unique_loop n k js ids env job deps d = (Inr j, d') \<Longrightarrow>
    store_inv d' \<and> stored_unique (j_unique_key job) j d'"
proof (induction n arbitrary: k ids d)
  case (Suc n)
  let ?d = "env k d"
  have d: "store_inv ?d" "j_id job \<notin> archived_ids ?d" using env Suc.prems by auto
  show ?case
  proof (cases "unique_body js ids job deps ?d")
    case (Inr r)
    then obtain j1 d1 where "unique_body js ids job deps ?d = Inr (j1, d1)" by (cases r) auto
    with Suc.prems(3) unique_body_sound [OF d(1) this job(1) d(2) job(2)] show ?thesis by simp
  next
    case (Inl e)
    let ?e = "env (Suc k) ?d"
    have e: "store_inv ?e" "j_id job \<notin> archived_ids ?e" using env d by auto
    from Inl Suc.prems(3) have uv: "e = Storage UniqueViolation" by (auto split: if_splits)
    show ?thesis
    proof (cases "find_active_unique (j_unique_key job) ?e")
      case None
      with Inl uv Suc.prems(3) have "enqueue_unique_loop n (Suc (Suc k)) js
          (\<lambda>i. ids (length deps + i)) env job deps ?e = (Inr j, d')" by simp
      then show ?thesis by (rule Suc.IH [OF e])
    next
      case (Some r)
      with Inl uv Suc.prems(3) have "j = job_of_row r" "d' = ?e" by auto
      with Some e show ?thesis by (auto intro!: stored_uniqueI dest: find_active_uniqueD)
    qed
  qed
qed simp

text \<open>
  C18: whatever other connections commit between the attempts of a deduplicated enqueue, a job
  it returns is stored and active, carries the requested unique key, and is the only active
  job with that key: never a phantom whose insert was rolled back.
\<close>

theorem enqueue_unique_sound:
  assumes "store_inv d" "ids 0 \<notin> archived_ids d"
    and env: "\<And>k d. store_inv d \<Longrightarrow> ids 0 \<notin> archived_ids d \<Longrightarrow>
      store_inv (env k d) \<and> ids 0 \<notin> archived_ids (env k d)"
    and result: "enqueue_unique js ids now env nj d = (Inr j, d')"
  shows "store_inv d' \<and> stored_unique (n_unique_key nj) j d'"
  using enqueue_unique_loop_sound [of "into_job (ids 0) now nj" env js d MAX_ENQUEUE_ATTEMPTS 0
      "\<lambda>i. ids (1 + i)" "n_depends_on nj" j d'] assms
  by (simp add: enqueue_unique_def job_of_into_job)

text \<open>
  With no concurrent writer, a deduplicated enqueue returns the active job of its key and
  changes nothing, and behaves exactly as a plain enqueue when the key is free; the retry loop
  ends in its first round.
\<close>

lemma enqueue_unique_sequential:
  assumes "store_inv d" "fresh_ids ids d"
  shows "enqueue_unique js ids now (\<lambda>_ d. d) nj d =
    (case find_active_unique (n_unique_key nj) d of
       Some r \<Rightarrow> (Inr (job_of_row r), d)
     | None \<Rightarrow> enqueue js ids now nj d)"
proof (cases "find_active_unique (n_unique_key nj) d")
  case (Some r)
  then show ?thesis
    by (simp add: enqueue_unique_def MAX_ENQUEUE_ATTEMPTS_def numeral_eq_Suc unique_body_def)
next
  case None
  then have free: "\<not> key_active (n_unique_key nj) d"
    using assms(1) by (simp add: find_active_unique_None_iff)
  have "inj (\<lambda>i. ids (1 + i))" "ids (1 + i) \<notin> e_id ` set (job_dependencies d)" "ids 0 \<notin> live_ids d" for i
    using assms(2) by (auto simp: fresh_ids_def inj_def)
  then have "insert_new_job js (\<lambda>i. ids (1 + i)) (into_job (ids 0) now nj) (n_depends_on nj) d \<noteq>
      Inl (Storage UniqueViolation)"
    using free by (subst insert_new_job_eq [OF assms(1)]) auto
  with None show ?thesis
    by (cases "insert_new_job js (\<lambda>i. ids (1 + i)) (into_job (ids 0) now nj) (n_depends_on nj) d")
      (simp_all add: enqueue_unique_def MAX_ENQUEUE_ATTEMPTS_def numeral_eq_Suc unique_body_def
        enqueue_def write_transaction_def Let_def)
qed

section \<open>Batches\<close>

lemma try_fold_concat: "try_fold (try_fold f) css s = try_fold f (concat css) s"
proof (induction css arbitrary: s)
  case (Cons c css)
  then show ?case by (simp add: try_fold_append and_then_def split: sum.splits)
qed simp

lemma insert_edges_eq:
  "insert_edges ids edges d = try_fold insert_dependency
     (map (\<lambda>(i, jid, dep). \<lparr>e_id = ids i, e_job_id = jid, e_depends_on_job_id = dep\<rparr>) (enumerate 0 edges)) d"
  by (simp add: insert_edges_def try_fold_map comp_def case_prod_unfold)

lemma try_fold_insert_job:
  "try_fold insert_job rows d = Inr d' \<Longrightarrow> d' = d\<lparr>jobs := jobs d @ rows\<rparr>"
proof (induction rows arbitrary: d)
  case (Cons row rows)
  then obtain d1 where "insert_job row d = Inr d1" "try_fold insert_job rows d1 = Inr d'"
    by (auto simp: and_then_Inr_iff)
  with insert_jobD [OF this(1)] Cons.IH [OF this(2)] show ?case by simp
qed simp

lemma try_fold_insert_job_inv:
  assumes "\<And>row. row \<in> set rows \<Longrightarrow> r_status row = 0 \<and> r_id row \<notin> archived_ids d"
    "store_inv d" "try_fold insert_job rows d = Inr d'"
  shows "store_inv d'"
  using assms
proof (induction rows arbitrary: d)
  case (Cons row rows)
  then obtain d1 where d1: "insert_job row d = Inr d1" "try_fold insert_job rows d1 = Inr d'"
    by (auto simp: and_then_Inr_iff)
  have "archived_ids d1 = archived_ids d" using insert_jobD [OF d1(1)] by (simp add: archived_ids_def)
  moreover have "store_inv d1"
    by (rule insert_job_inv [OF Cons.prems(2) d1(1)]) (use Cons.prems(1) in auto)
  ultimately show ?case using Cons.IH [of d1] Cons.prems d1(2) by auto
qed simp

lemma into_jobs_props:
  "length (into_jobs ids clock njs) = length njs"
  "job \<in> set (into_jobs ids clock njs) \<Longrightarrow>
     \<exists>i nj. i < length njs \<and> nj = njs ! i \<and> job = into_job (ids i) (clock i) nj"
  by (auto simp: into_jobs_def in_set_enumerate_eq)

text \<open>
  A batch is all or nothing, and its 50-row chunks cannot be told from one insert. On
  success the rows of the new jobs follow the old ones in request order and exactly the
  requested edges are added; the store stays well formed.
\<close>

lemma enqueue_batch_correct:
  assumes "store_inv d" "fresh_ids ids d"
  shows "case enqueue_batch js ids clock njs d of
    (Inl e, d') \<Rightarrow> d' = d
  | (Inr out, d') \<Rightarrow> store_inv d' \<and> out = into_jobs ids clock njs \<and>
      jobs d' = jobs d @ map (new_job_row js) out \<and>
      map (\<lambda>e. (e_job_id e, e_depends_on_job_id e)) (job_dependencies d') =
        map (\<lambda>e. (e_job_id e, e_depends_on_job_id e)) (job_dependencies d) @
        batch_edges (zip out (map n_depends_on njs))"
proof -
  let ?out = "into_jobs ids clock njs"
  let ?batch = "zip ?out (map n_depends_on njs)"
  let ?ids = "\<lambda>i. ids (length njs + i)"
  show ?thesis
  proof (cases "insert_batch js ?ids ?batch d")
    case (Inl e)
    then show ?thesis by (simp add: enqueue_batch_def write_transaction_def Let_def)
  next
    case (Inr d')
    let ?rows = "map (new_job_row js) ?out"
    have rows: "map (new_job_row js \<circ> fst) ?batch = ?rows"
      by (simp add: into_jobs_props(1) flip: map_map)
    obtain d1 where d1: "try_fold insert_job ?rows d = Inr d1"
        and d': "insert_edges ?ids (batch_edges ?batch) d1 = Inr d'"
      using Inr unfolding insert_batch_def rows
      by (auto simp: and_then_Inr_iff try_fold_concat concat_chunks BATCH_INSERT_CHUNK_def)
    have "r_status row = 0 \<and> r_id row \<notin> archived_ids d" if "row \<in> set ?rows" for row
      using that assms(2) by (auto simp: fresh_ids_def dest!: into_jobs_props(2))
    then have "store_inv d1" by (rule try_fold_insert_job_inv [OF _ assms(1) d1])
    then show ?thesis
      using Inr try_fold_insert_job [OF d1]
        try_fold_insert_dependency [OF d' [unfolded insert_edges_eq]]
      by (simp add: enqueue_batch_def write_transaction_def Let_def comp_def case_prod_unfold)
  qed
qed

section \<open>The enqueue paths keep the store contract\<close>

lemma keeps_insert_new_job:
  assumes "store_inv d" "insert_new_job js ids job deps d = Inr d'"
    "j_status job = Pending" "j_id job \<notin> archived_ids d"
  shows "keeps_store {j_id job} d d'"
  using insert_new_job_inv [OF assms] insert_new_jobD [OF assms(2)]
  by (auto simp: keeps_store_def known_ids_def archived_ids_def new_job_effect_def live_ids_def)

lemma keeps_enqueue:
  assumes "store_inv d" "ids 0 \<notin> archived_ids d"
  shows "keeps_store {ids 0} d (snd (enqueue js ids now nj d))"
proof -
  let ?f = "\<lambda>d. and_then (insert_new_job js (\<lambda>i. ids (1 + i)) (into_job (ids 0) now nj) (n_depends_on nj) d)
    (\<lambda>d'. Inr (into_job (ids 0) now nj, d'))"
  have "keeps_store {ids 0} d (snd (write_transaction ?f d))"
    by (rule keeps_transaction [OF assms(1)])
      (use assms keeps_insert_new_job [OF assms(1), where job = "into_job (ids 0) now nj"]
        in \<open>auto simp: and_then_Inr_iff\<close>)
  then show ?thesis by (simp add: enqueue_def case_prod_unfold Let_def)
qed

lemma keeps_enqueue_debounced:
  assumes "store_inv d" "ids 0 \<notin> archived_ids d"
  shows "keeps_store {ids 0} d (snd (enqueue_debounced js ids now nj options d))"
proof (cases "validated_debounce_key nj options")
  case (Inr k)
  let ?job = "(into_job (ids 0) now nj)\<lparr>j_created_at := now,
    j_scheduled_at := saturating_add now (window_ms options)\<rparr>"
  have "keeps_store {ids 0} d d'"
    if "debounce_body js (\<lambda>i. ids (1 + i)) ?job (n_depends_on nj) options k d = Inr (a, d')" for a d'
    using that keeps_insert_new_job [OF assms(1), where job = ?job] assms
    by (auto simp: debounce_body_def Let_def and_then_Inr_iff slide_eq split: option.splits
        intro: keeps_update_jobs)
  then have "keeps_store {ids 0} d (snd (write_transaction
      (debounce_body js (\<lambda>i. ids (1 + i)) ?job (n_depends_on nj) options k) d))"
    by (rule keeps_transaction [OF assms(1)])
  then show ?thesis by (simp add: enqueue_debounced_def Inr case_prod_unfold Let_def)
qed (simp add: enqueue_debounced_def keeps_refl assms)

lemma keeps_unique_body:
  assumes "store_inv d" "unique_body js ids job deps d = Inr (j, d')"
    "j_status job = Pending" "j_id job \<notin> archived_ids d"
  shows "keeps_store {j_id job} d d'"
  using assms keeps_insert_new_job [OF assms(1)]
  by (auto simp: unique_body_def and_then_Inr_iff split: option.splits intro: keeps_refl)

lemma keeps_enqueue_unique_loop:
  assumes "j_status job = Pending"
  shows "store_inv d \<Longrightarrow> j_id job \<notin> archived_ids d \<Longrightarrow>
    keeps_store {j_id job} d (snd (enqueue_unique_loop n k js ids (\<lambda>_ d. d) job deps d))"
proof (induction n arbitrary: k ids)
  case (Suc n)
  then show ?case
    using keeps_unique_body [OF Suc.prems(1) _ assms Suc.prems(2)] keeps_refl [OF Suc.prems(1)]
    by (cases "unique_body js ids job deps d") (auto split: option.splits)
qed (simp add: keeps_refl)

lemma keeps_enqueue_unique:
  "store_inv d \<Longrightarrow> ids 0 \<notin> archived_ids d \<Longrightarrow>
     keeps_store {ids 0} d (snd (enqueue_unique js ids now (\<lambda>_ d. d) nj d))"
  using keeps_enqueue_unique_loop [of "into_job (ids 0) now nj" d]
  by (simp add: enqueue_unique_def)

lemma keeps_enqueue_batch:
  assumes "store_inv d" "\<And>i. ids i \<notin> archived_ids d"
  shows "keeps_store (ids ` {..<length njs}) d (snd (enqueue_batch js ids clock njs d))"
proof -
  let ?out = "into_jobs ids clock njs"
  let ?batch = "zip ?out (map n_depends_on njs)"
  let ?f = "\<lambda>d. and_then (insert_batch js (\<lambda>i. ids (length njs + i)) ?batch d) (\<lambda>d'. Inr (?out, d'))"
  have rows: "map (new_job_row js \<circ> fst) ?batch = map (new_job_row js) ?out"
    by (simp add: into_jobs_props(1) flip: map_map)
  have "keeps_store (ids ` {..<length njs}) d d'" if ok: "?f d = Inr (a, d')" for a d'
  proof -
    obtain d1 where d1: "try_fold insert_job (map (new_job_row js) ?out) d = Inr d1"
        and d': "insert_edges (\<lambda>i. ids (length njs + i)) (batch_edges ?batch) d1 = Inr d'"
      using ok unfolding insert_batch_def rows
      by (auto simp: and_then_Inr_iff try_fold_concat concat_chunks BATCH_INSERT_CHUNK_def)
    have new: "r_status row = 0 \<and> r_id row \<in> ids ` {..<length njs}"
      if "row \<in> set (map (new_job_row js) ?out)" for row
      using that by (auto dest!: into_jobs_props(2))
    have "r_status row = 0 \<and> r_id row \<notin> archived_ids d"
      if "row \<in> set (map (new_job_row js) ?out)" for row
      using new [OF that] assms(2) by auto
    then have "store_inv d1" by (rule try_fold_insert_job_inv [OF _ assms(1) d1])
    then show ?thesis
      using try_fold_insert_job [OF d1] new
        try_fold_insert_dependency [OF d' [unfolded insert_edges_eq]]
      by (auto simp: keeps_store_def known_ids_def archived_ids_def live_ids_def)
  qed
  from keeps_transaction [OF assms(1), of ?f, OF this] show ?thesis
    by (simp add: enqueue_batch_def case_prod_unfold Let_def)
qed

lemma unique_body_archived:
  "unique_body js ids job deps d = Inr (j, d') \<Longrightarrow> archived_ids d' = archived_ids d"
  by (auto simp: unique_body_def and_then_Inr_iff new_job_effect_def archived_ids_def
      split: option.splits dest!: insert_new_jobD)

lemma keeps_unique_batch_body:
  assumes "\<And>job deps. (job, deps) \<in> set prepared \<Longrightarrow>
      j_status job = Pending \<and> j_id job \<in> new \<and> j_id job \<notin> archived_ids d"
    "store_inv d" "unique_batch_body js ids prepared d = Inr (out, d')"
  shows "keeps_store new d d'"
  using assms
proof (induction prepared arbitrary: ids d out)
  case (Cons p prepared)
  obtain job deps where p: "p = (job, deps)" by (cases p)
  from Cons.prems(3) obtain j d1 out' where d1: "unique_body js ids job deps d = Inr (j, d1)"
      and rest: "unique_batch_body js (\<lambda>i. ids (length deps + i)) prepared d1 = Inr (out', d')"
    by (auto simp: p and_then_Inr_iff)
  have "keeps_store {j_id job} d d1"
    by (rule keeps_unique_body [OF Cons.prems(2) d1]) (use Cons.prems(1) p in auto)
  then have step: "keeps_store new d d1" by (rule keeps_mono) (use Cons.prems(1) p in auto)
  then have "keeps_store new d1 d'"
    using Cons.IH [OF _ _ rest] Cons.prems(1) by (auto simp: unique_body_archived [OF d1] dest: keeps_inv)
  with step show ?case by (rule keeps_trans)
qed (auto intro: keeps_refl)

lemma keeps_enqueue_unique_batch_loop:
  assumes "\<And>job deps. (job, deps) \<in> set prepared \<Longrightarrow>
      j_status job = Pending \<and> j_id job \<in> new \<and> j_id job \<notin> archived_ids d" "store_inv d"
  shows "keeps_store new d (snd (enqueue_unique_batch_loop n k js ids (\<lambda>_ d. d) prepared d))"
proof (induction n arbitrary: k ids)
  case (Suc n)
  then show ?case
    using keeps_unique_batch_body [OF assms] keeps_refl [OF assms(2)]
    by (cases "unique_batch_body js ids prepared d") auto
qed (simp add: keeps_refl assms)

lemma keeps_enqueue_batch_dedup:
  assumes "store_inv d" "\<And>i. ids i \<notin> archived_ids d"
  shows "keeps_store (ids ` {..<length njs}) d (snd (enqueue_batch_dedup js ids clock (\<lambda>_ d. d) njs d))"
proof -
  have "j_status job = Pending \<and> j_id job \<in> ids ` {..<length njs} \<and> j_id job \<notin> archived_ids d"
    if "(job, deps) \<in> set (zip (into_jobs ids clock njs) (map n_depends_on njs))" for job deps
    using assms(2) that by (auto dest!: set_zip_leftD into_jobs_props(2))
  then show ?thesis
    using keeps_enqueue_batch [of d ids, OF assms]
    by (auto simp: enqueue_batch_dedup_def enqueue_unique_batch_def assms
        intro!: keeps_enqueue_unique_batch_loop)
qed

section \<open>Concrete runs\<close>

definition no_json :: json_lib where
  "no_json = \<lparr>from_str = (\<lambda>_. None), to_string = (\<lambda>_. [])\<rparr>"

definition uuid_from :: "string \<Rightarrow> nat \<Rightarrow> string" where
  "uuid_from prefix i = prefix @ replicate i CHR ''x''"

definition plain_job :: new_job where
  "plain_job = \<lparr>n_queue = ''default'', n_task_name = ''t'', n_payload = [], n_priority = 0,
     n_scheduled_at = 5, n_max_retries = 3, n_timeout_ms = 1000, n_unique_key = None,
     n_metadata = None, n_notes = None, n_depends_on = [], n_expires_at = None,
     n_result_ttl_ms = None, n_namespace = None, n_debounce_key = None\<rparr>"

lemma plain_job_sel [simp]:
  "n_depends_on plain_job = []" "n_unique_key plain_job = None" "n_namespace plain_job = None"
  "n_debounce_key plain_job = None" "n_payload plain_job = []" "n_notes plain_job = None"
  "n_queue plain_job = ''default''" "n_scheduled_at plain_job = 5"
  by (simp_all add: plain_job_def)

lemma fresh_ids_empty [simp]: "fresh_ids (uuid_from p) empty_db"
  by (auto simp: fresh_ids_def uuid_from_def inj_def empty_db_def live_ids_def archived_ids_def)

theorem enqueue_unique_sound_witness:
  "stored_unique (Some ''k'') (into_job ''a'' 7 (plain_job\<lparr>n_unique_key := Some ''k''\<rparr>))
     (snd (enqueue_unique no_json (uuid_from ''a'') 7 (\<lambda>_ d. d)
        (plain_job\<lparr>n_unique_key := Some ''k''\<rparr>) empty_db))"
proof -
  let ?nj = "plain_job\<lparr>n_unique_key := Some ''k''\<rparr>"
  have "fst (enqueue_unique no_json (uuid_from ''a'') 7 (\<lambda>_ d. d) ?nj empty_db) =
      Inr (into_job ''a'' 7 ?nj)"
    by (simp add: enqueue_unique_def MAX_ENQUEUE_ATTEMPTS_def numeral_eq_Suc unique_body_def
        find_active_unique_def insert_new_job_def write_transaction_def validate_dependencies_def
        insert_job_def insert_row_def insert_dependency_rows_def unique_key_taken_def
        in_unique_index_def uuid_from_def)
  then obtain d where "enqueue_unique no_json (uuid_from ''a'') 7 (\<lambda>_ d. d) ?nj empty_db =
      (Inr (into_job ''a'' 7 ?nj), d)" by (metis prod.collapse)
  from enqueue_unique_sound [OF _ _ _ this] this show ?thesis
    by (simp add: archived_ids_def store_inv_empty [unfolded])
qed

theorem debounce_burst_coalesces_witness:
  "let nj = plain_job\<lparr>n_debounce_key := Some ''k''\<rparr>;
       options = \<lparr>window_ms = 10, max_wait_ms = 25, replace_payload = False\<rparr>;
       d = debounce_burst no_json options
         [(uuid_from ''a'', 100, nj), (uuid_from ''b'', 109, nj), (uuid_from ''c'', 118, nj)] empty_db
   in \<exists>r. filter (in_window None ''k'') (jobs d) = [r] \<and> r_id r = ''a'' \<and> r_scheduled_at r = 125"
proof -
  let ?nj = "plain_job\<lparr>n_debounce_key := Some ''k''\<rparr>"
  let ?o = "\<lparr>window_ms = 10, max_wait_ms = 25, replace_payload = False\<rparr>"
  have key: "validated_debounce_key ?nj ?o = Inr ''k''"
    by (simp add: validated_debounce_key_def)
  have "same_window ?o None ''k'' [(uuid_from ''b'', 109, ?nj), (uuid_from ''c'', 118, ?nj)]"
    using key by (simp add: same_window_def)
  from debounce_burst_coalesces [OF store_inv_empty fresh_ids_empty [of "''a''"] _ key _ _ _ _ this,
      where js = no_json and ?t0.0 = 100] show ?thesis
    by (auto simp: Let_def key_active_def uuid_from_def
        saturating_add_def sat_i64_def i64_min_def i64_max_def)
qed

end
