(* ===== verification/Dequeue.thy ===== *)
theory Dequeue
  imports Enqueue
begin

text \<open>
  Dispatch: the candidate scan of \<open>storage/sqlite/jobs.rs\<close> and the dequeue family of
  \<open>storage/diesel_common/jobs.rs\<close>. The loops are reduced to closed forms
  (\<open>dequeue_loop_eq\<close>, \<open>batch_loop_eq\<close>) from which the ordering, exclusivity and
  starvation properties follow.
\<close>

section \<open>Operations\<close>

datatype dispatch_order = Fifo | Lifo

definition order_for :: "(string \<rightharpoonup> dispatch_order) \<Rightarrow> string \<Rightarrow> dispatch_order" where
  "order_for orders queue = (case orders queue of Some order \<Rightarrow> order | None \<Rightarrow> Fifo)"

definition dispatch_le :: "dispatch_order \<Rightarrow> job_row \<Rightarrow> job_row \<Rightarrow> bool" where
  "dispatch_le order r r' \<longleftrightarrow>
     r_priority r' < r_priority r \<or> r_priority r = r_priority r' \<and>
     (case order of
        Fifo \<Rightarrow> r_scheduled_at r < r_scheduled_at r' \<or>
          r_scheduled_at r = r_scheduled_at r' \<and> r_id r \<le> r_id r'
      | Lifo \<Rightarrow> r_scheduled_at r' < r_scheduled_at r \<or>
          r_scheduled_at r = r_scheduled_at r' \<and> r_id r' \<le> r_id r)"

definition due :: "string \<Rightarrow> int \<Rightarrow> string option \<Rightarrow> job_row \<Rightarrow> bool" where
  "due queue_name now namespace r \<longleftrightarrow>
     r_queue r = queue_name \<and> r_status r = status_code Pending \<and> r_scheduled_at r \<le> now \<and>
     r_namespace r = namespace"

definition scan_dequeue_candidates ::
    "string \<Rightarrow> int \<Rightarrow> string option \<Rightarrow> int \<Rightarrow> dispatch_order \<Rightarrow> db \<Rightarrow> job_row list" where
  "scan_dequeue_candidates queue_name now namespace limit order d =
     sql_limit limit (order_by (dispatch_le order) (filter (due queue_name now namespace) (jobs d)))"

definition expired :: "int \<Rightarrow> job_row \<Rightarrow> bool" where
  "expired now row = (case r_expires_at row of Some expires_at \<Rightarrow> now > expires_at | None \<Rightarrow> False)"

definition expired_row :: "int \<Rightarrow> job_row \<Rightarrow> job_row" where
  "expired_row now full = full\<lparr>r_status := status_code Cancelled, r_completed_at := Some now,
     r_error := Some ''expired before execution''\<rparr>"

definition claimed_row :: "int \<Rightarrow> job_row \<Rightarrow> job_row" where
  "claimed_row now r = r\<lparr>r_status := status_code Running, r_started_at := Some now\<rparr>"

text \<open>The body of both candidate loops: \<open>None\<close> is \<open>continue\<close>.\<close>

definition try_claim :: "int \<Rightarrow> job_row \<Rightarrow> db \<Rightarrow> (job option \<times> db) result" where
  "try_claim now row d =
     (if expired now row
      then (case find_row r_id (r_id row) (jobs d) of
              None \<Rightarrow> Inl (Storage NotFound)
            | Some full \<Rightarrow> and_then (archive_job_row (expired_row now full) d) (\<lambda>d'. Inr (None, d')))
      else if r_has_deps row \<and> \<not> deps_satisfied (r_id row) d then Inr (None, d)
      else (let P = (\<lambda>r. r_id r = r_id row \<and> r_status r = status_code Pending);
                d' = d\<lparr>jobs := update_where P (claimed_row now) (jobs d)\<rparr>
            in if count_where P (jobs d) = 0 then Inr (None, d')
               else (case find_row r_id (r_id row) (jobs d') of
                       None \<Rightarrow> Inl (Storage NotFound)
                     | Some updated \<Rightarrow> Inr (Some (job_of_row updated), d'))))"

fun dequeue_loop :: "int \<Rightarrow> job_row list \<Rightarrow> db \<Rightarrow> (job option \<times> db) result" where
  "dequeue_loop now [] d = Inr (None, d)"
| "dequeue_loop now (row # candidates) d =
     and_then (try_claim now row d) (\<lambda>(res, d').
       case res of Some j \<Rightarrow> Inr (Some j, d') | None \<Rightarrow> dequeue_loop now candidates d')"

definition dequeue_ordered ::
    "string \<Rightarrow> int \<Rightarrow> string option \<Rightarrow> dispatch_order \<Rightarrow> db \<Rightarrow> job option result \<times> db" where
  "dequeue_ordered queue_name now namespace order d =
     write_transaction (\<lambda>d.
       dequeue_loop now (scan_dequeue_candidates queue_name now namespace 100 order d) d) d"

definition dequeue :: "string \<Rightarrow> int \<Rightarrow> string option \<Rightarrow> db \<Rightarrow> job option result \<times> db" where
  "dequeue queue_name now namespace d = dequeue_ordered queue_name now namespace Fifo d"

fun dequeue_from ::
    "string list \<Rightarrow> int \<Rightarrow> string option \<Rightarrow> (string \<rightharpoonup> dispatch_order) \<Rightarrow> db \<Rightarrow> job option result \<times> db" where
  "dequeue_from [] now namespace orders d = (Inr None, d)"
| "dequeue_from (queue_name # queues) now namespace orders d =
     (let (res, d') = dequeue_ordered queue_name now namespace (order_for orders queue_name) d
      in case res of
           Inl e \<Rightarrow> (Inl e, d')
         | Inr (Some job) \<Rightarrow> (Inr (Some job), d')
         | Inr None \<Rightarrow> dequeue_from queues now namespace orders d')"

fun batch_loop :: "int \<Rightarrow> nat \<Rightarrow> job list \<Rightarrow> job_row list \<Rightarrow> db \<Rightarrow> (job list \<times> db) result" where
  "batch_loop now max_jobs claimed [] d = Inr (claimed, d)"
| "batch_loop now max_jobs claimed (row # candidates) d =
     (if length claimed = max_jobs then Inr (claimed, d)
      else and_then (try_claim now row d) (\<lambda>(res, d').
        case res of
          Some j \<Rightarrow> batch_loop now max_jobs (claimed @ [j]) candidates d'
        | None \<Rightarrow> batch_loop now max_jobs claimed candidates d'))"

definition dequeue_batch_ordered ::
    "string \<Rightarrow> int \<Rightarrow> string option \<Rightarrow> nat \<Rightarrow> dispatch_order \<Rightarrow> db \<Rightarrow> job list result \<times> db" where
  "dequeue_batch_ordered queue_name now namespace max_jobs order d =
     (if max_jobs = 0 then (Inr [], d)
      else let scan_limit = int (min (max_jobs * 4) 400)
           in write_transaction (\<lambda>d. batch_loop now max_jobs []
                (scan_dequeue_candidates queue_name now namespace scan_limit order d) d) d)"

definition dequeue_batch ::
    "string \<Rightarrow> int \<Rightarrow> string option \<Rightarrow> nat \<Rightarrow> db \<Rightarrow> job list result \<times> db" where
  "dequeue_batch queue_name now namespace max_jobs d =
     dequeue_batch_ordered queue_name now namespace max_jobs Fifo d"

fun dequeue_batch_from_loop ::
    "job list \<Rightarrow> string list \<Rightarrow> int \<Rightarrow> string option \<Rightarrow> nat \<Rightarrow> (string \<rightharpoonup> dispatch_order) \<Rightarrow> db
     \<Rightarrow> job list result \<times> db" where
  "dequeue_batch_from_loop claimed [] now namespace max_jobs orders d = (Inr claimed, d)"
| "dequeue_batch_from_loop claimed (queue_name # queues) now namespace max_jobs orders d =
     (if length claimed \<ge> max_jobs then (Inr claimed, d)
      else let (res, d') = dequeue_batch_ordered queue_name now namespace (max_jobs - length claimed)
                 (order_for orders queue_name) d
           in case res of
                Inl e \<Rightarrow> (Inl e, d')
              | Inr batch \<Rightarrow>
                  dequeue_batch_from_loop (claimed @ batch) queues now namespace max_jobs orders d')"

definition dequeue_batch_from ::
    "string list \<Rightarrow> int \<Rightarrow> string option \<Rightarrow> nat \<Rightarrow> (string \<rightharpoonup> dispatch_order) \<Rightarrow> db
     \<Rightarrow> job list result \<times> db" where
  "dequeue_batch_from queues now namespace max_jobs orders d =
     dequeue_batch_from_loop [] queues now namespace max_jobs orders d"

section \<open>Dispatch order and scan\<close>

interpretation dispatch: row_order "dispatch_le order" for order
  by unfold_locales (auto simp: dispatch_le_def split: dispatch_order.splits)

lemma scan_mem:
  "r \<in> set (scan_dequeue_candidates q now ns limit order d) \<Longrightarrow> r \<in> set (jobs d) \<and> due q now ns r"
  using set_sql_limit unfolding scan_dequeue_candidates_def by fastforce

lemma distinct_sql_limit: "distinct (map f xs) \<Longrightarrow> distinct (map f (sql_limit n xs))"
  by (simp add: sql_limit_def flip: take_map)

lemma scan_distinct:
  assumes "store_inv d"
  shows "distinct (map r_id (scan_dequeue_candidates q now ns limit order d))"
  unfolding scan_dequeue_candidates_def
  by (rule distinct_sql_limit)
    (use assms in \<open>simp add: store_inv_def live_ok_def distinct_map_order_by distinct_map_filter\<close>)

lemma scan_sorted: "sorted_wrt (dispatch_le order) (scan_dequeue_candidates q now ns limit order d)"
  using dispatch.sorted_order_by unfolding scan_dequeue_candidates_def sql_limit_def
  by (auto intro: sorted_wrt_take)

lemma scan_best:
  assumes "x \<in> set (scan_dequeue_candidates q now ns limit order d)"
    "y \<in> set (jobs d)" "due q now ns y" "y \<notin> set (scan_dequeue_candidates q now ns limit order d)"
  shows "dispatch_le order x y"
proof (cases "limit < 0")
  case True
  then show ?thesis using assms by (simp add: scan_dequeue_candidates_def sql_limit_def)
next
  case False
  let ?o = "order_by (dispatch_le order) (filter (due q now ns) (jobs d))"
  have x: "x \<in> set (take (nat limit) ?o)" and "y \<notin> set (take (nat limit) ?o)"
    using assms False by (simp_all add: scan_dequeue_candidates_def sql_limit_def)
  moreover have "y \<in> set ?o" using assms by simp
  then have "y \<in> set (take (nat limit) ?o) \<union> set (drop (nat limit) ?o)"
    by (metis append_take_drop_id set_append)
  ultimately show ?thesis using dispatch.order_by_take_least [OF x] by blast
qed

section \<open>One candidate\<close>

definition ready :: "int \<Rightarrow> db \<Rightarrow> job_row \<Rightarrow> bool" where
  "ready now d row \<longleftrightarrow> \<not> expired now row \<and> (r_has_deps row \<longrightarrow> deps_satisfied (r_id row) d)"

definition claim_effect :: "int \<Rightarrow> job_row \<Rightarrow> db \<Rightarrow> db" where
  "claim_effect now row d = d\<lparr>jobs := update_where
     (\<lambda>r. r_id r = r_id row \<and> r_status r = status_code Pending) (claimed_row now) (jobs d)\<rparr>"

definition pending_in :: "db \<Rightarrow> job_row \<Rightarrow> bool" where
  "pending_in d r \<longleftrightarrow> r \<in> set (jobs d) \<and> r_status r = status_code Pending"

lemma row_sel [simp]:
  "r_id (expired_row now r) = r_id r" "r_status (expired_row now r) = status_code Cancelled"
  "r_id (claimed_row now r) = r_id r" "r_status (claimed_row now r) = status_code Running"
  "r_namespace (claimed_row now r) = r_namespace r" "r_queue (claimed_row now r) = r_queue r"
  "keeps_row (claimed_row now)"
  by (simp_all add: expired_row_def claimed_row_def keeps_row_def)

lemma find_row_live:
  "store_inv d \<Longrightarrow> r \<in> set (jobs d) \<Longrightarrow> find_row r_id (r_id r) (jobs d) = Some r"
  by (simp add: store_inv_def live_ok_def find_row_Some_iff)

text \<open>In a well-formed store a dependency is met iff it has left the live table and was not
  archived with another status than complete.\<close>

lemma deps_satisfied_live:
  assumes "store_inv d"
  shows "deps_satisfied jid d \<longleftrightarrow>
    (\<forall>e \<in> set (job_dependencies d). e_job_id e = jid \<longrightarrow> e_depends_on_job_id e \<notin> live_ids d \<and>
       (\<forall>a \<in> set (archived_jobs d). a_id a = e_depends_on_job_id e \<longrightarrow> a_status a = status_code Complete))"
proof -
  have "(\<forall>r \<in> set (jobs d). r_id r = x \<longrightarrow> r_status r = status_code Complete) \<longleftrightarrow> x \<notin> live_ids d" for x
    using live_status [OF assms] by (force simp: live_ids_def)
  then show ?thesis by (simp add: deps_satisfied_iff del: status_code.simps)
qed

lemma deps_satisfied_archive:
  assumes "store_inv d" "row \<in> set (jobs d)"
  shows "deps_satisfied jid (archive_effect (expired_row now row) d) = deps_satisfied jid d"
proof -
  have live: "r_id row \<in> live_ids d" using assms(2) by (simp add: live_ids_def)
  have "store_inv (archive_effect (expired_row now row) d)"
    by (rule archive_effect_inv) (use assms live in \<open>auto simp: store_inv_def\<close>)
  then show ?thesis
    using live by (auto simp: deps_satisfied_live [OF assms(1)] deps_satisfied_live)
qed

lemma claim_effect_sel [simp]:
  "job_dependencies (claim_effect now row d) = job_dependencies d"
  "archived_jobs (claim_effect now row d) = archived_jobs d"
  "live_ids (claim_effect now row d) = live_ids d"
  "archived_ids (claim_effect now row d) = archived_ids d"
  by (simp_all add: claim_effect_def live_ids_update archived_ids_def)

lemma claim_effect_inv: "store_inv d \<Longrightarrow> store_inv (claim_effect now row d)"
  unfolding claim_effect_def by (rule store_inv_update_jobs) simp_all

lemma deps_satisfied_claim:
  "store_inv d \<Longrightarrow> deps_satisfied jid (claim_effect now row d) = deps_satisfied jid d"
  by (simp add: deps_satisfied_live claim_effect_inv)

lemma ready_claim: "store_inv d \<Longrightarrow> ready now (claim_effect now' row d) = ready now d"
  by (simp add: fun_eq_iff ready_def deps_satisfied_claim)

lemma ready_archive:
  "store_inv d \<Longrightarrow> row \<in> set (jobs d) \<Longrightarrow>
     ready now (archive_effect (expired_row now' row) d) = ready now d"
  by (simp add: fun_eq_iff ready_def deps_satisfied_archive)

lemma expired_inv:
  "store_inv d \<Longrightarrow> row \<in> set (jobs d) \<Longrightarrow> store_inv (archive_effect (expired_row now row) d)"
  by (rule keeps_inv [OF keeps_archive]) (auto simp: live_ids_def)

lemma try_claim_expired:
  assumes "store_inv d" "row \<in> set (jobs d)" "expired now row"
  shows "try_claim now row d = Inr (None, archive_effect (expired_row now row) d)"
  using assms archive_job_row_ok [OF assms(1), of "expired_row now row"]
  by (simp add: try_claim_def find_row_live live_ids_def)

lemma try_claim_ready:
  assumes "store_inv d" "pending_in d row" "ready now d row"
  shows "try_claim now row d = Inr (Some (job_of_row (claimed_row now row)), claim_effect now row d)"
proof -
  have row: "row \<in> set (jobs d)" "r_status row = status_code Pending"
    using assms(2) by (auto simp: pending_in_def)
  have "find_row r_id (r_id row) (jobs (claim_effect now row d)) = Some (claimed_row now row)"
    using find_row_live [OF assms(1) row(1)] row(2)
    by (simp add: claim_effect_def find_row_update_where)
  moreover have "count_where (\<lambda>r. r_id r = r_id row \<and> r_status r = status_code Pending) (jobs d) \<noteq> 0"
    using row by (auto simp: count_where_0_iff)
  ultimately show ?thesis
    using assms(3) by (auto simp: try_claim_def ready_def claim_effect_def Let_def)
qed

lemma try_claim_blocked:
  "\<not> expired now row \<Longrightarrow> \<not> ready now d row \<Longrightarrow> try_claim now row d = Inr (None, d)"
  by (simp add: try_claim_def ready_def)

section \<open>Closed form of the single dequeue\<close>

definition expire_rows :: "int \<Rightarrow> job_row list \<Rightarrow> db \<Rightarrow> db" where
  "expire_rows now rows d = fold (archive_effect \<circ> expired_row now) (filter (expired now) rows) d"

lemma expire_rows_Cons:
  "expire_rows now (row # rows) d =
    expire_rows now rows (if expired now row then archive_effect (expired_row now row) d else d)"
  by (simp add: expire_rows_def)

lemma pending_in_archive:
  "pending_in d r \<Longrightarrow> r_id r \<noteq> r_id row \<Longrightarrow> pending_in (archive_effect row d) r"
  by (simp add: pending_in_def set_delete_where)

lemma pending_in_claim:
  assumes "pending_in d r" "r_id r \<noteq> r_id row" shows "pending_in (claim_effect now row d) r"
proof -
  have "(if r_id r = r_id row \<and> r_status r = status_code Pending then claimed_row now r else r)
      \<in> set (jobs (claim_effect now row d))"
    using assms(1) unfolding claim_effect_def by (simp add: set_update_where pending_in_def)
  with assms show ?thesis by (simp add: pending_in_def)
qed

lemma rest_pending:
  assumes "distinct (map r_id (row # rows))" "list_all (pending_in d) (row # rows)"
  shows "list_all (pending_in (if b then archive_effect (expired_row now row) d else d)) rows"
    and "list_all (pending_in (claim_effect now row d)) rows"
proof -
  have "r_id r \<noteq> r_id row" if "r \<in> set rows" for r
    using assms(1) imageI [OF that, of r_id] by auto
  with assms(2) show "list_all (pending_in (if b then archive_effect (expired_row now row) d else d)) rows"
    and "list_all (pending_in (claim_effect now row d)) rows"
    by (auto simp: list_all_iff intro!: pending_in_archive pending_in_claim)
qed

lemma expire_rows_keeps:
  "store_inv d \<Longrightarrow> distinct (map r_id rows) \<Longrightarrow> list_all (pending_in d) rows \<Longrightarrow>
     keeps_store {} d (expire_rows now rows d) \<and> ready now' (expire_rows now rows d) = ready now' d"
proof (induction rows arbitrary: d)
  case (Cons row rows)
  let ?d = "if expired now row then archive_effect (expired_row now row) d else d"
  have row: "row \<in> set (jobs d)" using Cons.prems by (simp add: pending_in_def)
  have keep: "keeps_store {} d ?d"
    using row Cons.prems(1) by (auto simp: live_ids_def intro!: keeps_archive keeps_refl)
  moreover have "list_all (pending_in ?d) rows"
    by (rule rest_pending(1) [OF Cons.prems(2,3)])
  moreover have "ready now' ?d = ready now' d"
    using ready_archive [OF Cons.prems(1) row] by simp
  ultimately show ?case
    using Cons.IH [of ?d] keeps_inv [OF keep] keeps_trans [OF keep] Cons.prems(2)
    unfolding expire_rows_Cons by auto
qed (simp add: expire_rows_def keeps_refl)

lemma dequeue_loop_eq:
  "store_inv d \<Longrightarrow> distinct (map r_id rows) \<Longrightarrow> list_all (pending_in d) rows \<Longrightarrow>
   dequeue_loop now rows d =
    (let skipped = takeWhile (\<lambda>r. \<not> ready now d r) rows;
         d1 = expire_rows now skipped d
     in case dropWhile (\<lambda>r. \<not> ready now d r) rows of
          [] \<Rightarrow> Inr (None, d1)
        | r # _ \<Rightarrow> Inr (Some (job_of_row (claimed_row now r)), claim_effect now r d1))"
proof (induction rows arbitrary: d)
  case (Cons row rows)
  have row: "row \<in> set (jobs d)" "pending_in d row"
    using Cons.prems by (simp_all add: pending_in_def)
  show ?case
  proof (cases "ready now d row")
    case True
    then show ?thesis
      using try_claim_ready [OF Cons.prems(1) row(2) True] by (simp add: expire_rows_def)
  next
    case blocked: False
    let ?d = "if expired now row then archive_effect (expired_row now row) d else d"
    have step: "try_claim now row d = Inr (None, ?d)"
      using try_claim_expired [OF Cons.prems(1) row(1)] try_claim_blocked [OF _ blocked] by auto
    have "store_inv ?d" using expired_inv [OF Cons.prems(1) row(1)] Cons.prems(1) by simp
    moreover have "list_all (pending_in ?d) rows"
      by (rule rest_pending(1) [OF Cons.prems(2,3)])
    moreover have "ready now ?d = ready now d"
      using ready_archive [OF Cons.prems(1) row(1)] by simp
    ultimately show ?thesis
      using Cons.IH [of ?d] Cons.prems(2) step blocked
      by (simp add: expire_rows_Cons Let_def split: list.split del: dropWhile_eq_Nil_conv)
  qed
qed (simp add: expire_rows_def)

lemma scan_pending:
  "list_all (pending_in d) (scan_dequeue_candidates q now ns limit order d)"
  by (auto simp: list_all_iff pending_in_def due_def dest!: scan_mem)

lemma keeps_claim: "store_inv d \<Longrightarrow> keeps_store new d (claim_effect now row d)"
  unfolding claim_effect_def by (rule keeps_update_jobs) simp_all

lemma claimed_in_claim:
  assumes "pending_in d row" shows "claimed_row now row \<in> set (jobs (claim_effect now row d))"
proof -
  have "(if r_id row = r_id row \<and> r_status row = status_code Pending then claimed_row now row else row)
      \<in> set (jobs (claim_effect now row d))"
    using assms unfolding claim_effect_def by (simp add: set_update_where pending_in_def)
  with assms show ?thesis by (simp add: pending_in_def)
qed

lemma pending_expire_rows:
  "pending_in d r \<Longrightarrow> r_id r \<notin> r_id ` set rows \<Longrightarrow> pending_in (expire_rows now rows d) r"
proof (induction rows arbitrary: d)
  case (Cons row rows)
  then show ?case by (auto simp: expire_rows_Cons intro!: Cons.IH pending_in_archive)
qed (simp add: expire_rows_def)

lemma split_first_ready:
  assumes "dropWhile (\<lambda>r. \<not> P r) rows = r # rest"
  shows "rows = takeWhile (\<lambda>r. \<not> P r) rows @ r # rest" "P r"
  using assms takeWhile_dropWhile_id [of "\<lambda>r. \<not> P r" rows] hd_dropWhile [of "\<lambda>r. \<not> P r" rows]
  by auto

lemma first_ready_best:
  assumes rows: "rows = scan_dequeue_candidates q now ns limit order d"
    and first: "dropWhile (\<lambda>r. \<not> P r) rows = r # rest"
    and r': "r' \<in> set (jobs d)" "due q now ns r'" "P r'"
  shows "dispatch_le order r r'"
proof (cases "r' \<in> set rows")
  case True
  note split = split_first_ready [OF first]
  from True r'(3) have "r' \<in> set (r # rest)"
    by (subst (asm) split(1)) (auto dest: set_takeWhileD)
  moreover have "sorted_wrt (dispatch_le order) (takeWhile (\<lambda>r. \<not> P r) rows @ r # rest)"
    using scan_sorted [of order q now ns limit d] split(1) rows by simp
  ultimately show ?thesis by (auto simp: sorted_wrt_append dispatch.le_refl)
next
  case False
  have "r \<in> set rows" by (subst split_first_ready(1) [OF first]) simp
  with False r' show ?thesis unfolding rows by (auto intro: scan_best)
qed

text \<open>
  C5: a dequeue never fails on a well-formed store. The job it hands out was pending, due, in
  exactly the requested queue and namespace, unexpired and with its dependencies met; it is now
  running, and no other such job precedes it in the dispatch order. It hands out nothing only
  if none of the 100 first candidates could run.
\<close>

theorem dequeue_ordered_correct:
  assumes inv: "store_inv d"
  shows "case dequeue_ordered q now ns order d of
    (Inl e, d') \<Rightarrow> False
  | (Inr None, d') \<Rightarrow> store_inv d' \<and>
      (\<forall>r \<in> set (scan_dequeue_candidates q now ns 100 order d). \<not> ready now d r)
  | (Inr (Some j), d') \<Rightarrow> store_inv d' \<and>
      (\<exists>r \<in> set (jobs d). due q now ns r \<and> ready now d r \<and> j = job_of_row (claimed_row now r) \<and>
         claimed_row now r \<in> set (jobs d') \<and>
         (\<forall>r' \<in> set (jobs d). due q now ns r' \<longrightarrow> ready now d r' \<longrightarrow> dispatch_le order r r'))"
proof -
  let ?rows = "scan_dequeue_candidates q now ns 100 order d"
  let ?skip = "takeWhile (\<lambda>r. \<not> ready now d r) ?rows"
  let ?d1 = "expire_rows now ?skip d"
  have dist: "distinct (map r_id ?skip)"
    using scan_distinct [OF inv, of q now ns 100 order] takeWhile_dropWhile_id [of _ ?rows]
    by (metis distinct_append map_append)
  have pend: "list_all (pending_in d) ?skip"
    using scan_pending [of d q now ns 100 order] by (auto simp: list_all_iff dest: set_takeWhileD)
  have d1: "store_inv ?d1"
    using expire_rows_keeps [OF inv dist pend] by (blast dest: keeps_inv)
  note eq = dequeue_loop_eq [OF inv scan_distinct [OF inv] scan_pending, of now q now ns 100 order]
  show ?thesis
  proof (cases "dropWhile (\<lambda>r. \<not> ready now d r) ?rows")
    case Nil
    then have "dequeue_loop now ?rows d = Inr (None, ?d1)"
      using eq by (simp add: Let_def del: dropWhile_eq_Nil_conv)
    with Nil d1 show ?thesis by (simp add: dequeue_ordered_def write_transaction_def)
  next
    case (Cons r rest)
    note split = split_first_ready [OF Cons]
    have r: "r \<in> set ?rows" by (subst split(1)) simp
    then have "pending_in d r" using scan_pending by (auto simp: list_all_iff)
    moreover have "r_id r \<notin> r_id ` set ?skip"
      using scan_distinct [OF inv, of q now ns 100 order] by (subst (asm) split(1)) auto
    ultimately have "claimed_row now r \<in> set (jobs (claim_effect now r ?d1))"
      by (intro claimed_in_claim pending_expire_rows)
    moreover have "store_inv (claim_effect now r ?d1)" by (rule claim_effect_inv [OF d1])
    moreover have "r \<in> set (jobs d)" "due q now ns r" using scan_mem [OF r] by auto
    moreover have "\<forall>r' \<in> set (jobs d). due q now ns r' \<longrightarrow> ready now d r' \<longrightarrow> dispatch_le order r r'"
      using first_ready_best [OF refl Cons] by blast
    ultimately show ?thesis
      using eq Cons split(2) by (auto simp: dequeue_ordered_def write_transaction_def Let_def)
  qed
qed

section \<open>Batched dequeue\<close>

text \<open>Rows outside the candidate list are untouched.\<close>

definition rest_kept :: "job_row list \<Rightarrow> db \<Rightarrow> db \<Rightarrow> bool" where
  "rest_kept rows d d' \<longleftrightarrow> (\<forall>r \<in> set (jobs d). r_id r \<notin> r_id ` set rows \<longrightarrow> r \<in> set (jobs d'))"

lemma rest_kept_step:
  "rest_kept [row] d d1 \<Longrightarrow> rest_kept rows d1 d' \<Longrightarrow> rest_kept (row # rows) d d'"
  by (auto simp: rest_kept_def)

lemma rest_kept_archive: "r_id row = r_id row' \<Longrightarrow> rest_kept [row] d (archive_effect row' d)"
  by (auto simp: rest_kept_def set_delete_where)

lemma rest_kept_claim: "rest_kept [row] d (claim_effect now row d)"
  by (auto simp: rest_kept_def claim_effect_def update_where_def image_iff)

lemma rest_kept_refl: "rest_kept rows d d"
  by (simp add: rest_kept_def)

definition picked :: "int \<Rightarrow> db \<Rightarrow> nat \<Rightarrow> job_row list \<Rightarrow> job_row list" where
  "picked now d n rows = take n (filter (ready now d) rows)"

lemma batch_loop_eq:
  "store_inv d \<Longrightarrow> distinct (map r_id rows) \<Longrightarrow> list_all (pending_in d) rows \<Longrightarrow>
   length claimed \<le> max_jobs \<Longrightarrow>
   \<exists>d'. batch_loop now max_jobs claimed rows d =
      Inr (claimed @ map (job_of_row \<circ> claimed_row now) (picked now d (max_jobs - length claimed) rows), d') \<and>
    keeps_store {} d d' \<and> rest_kept rows d d' \<and>
    (\<forall>r \<in> set (picked now d (max_jobs - length claimed) rows). claimed_row now r \<in> set (jobs d'))"
proof (induction rows arbitrary: d claimed)
  case Nil
  then show ?case by (auto simp: picked_def rest_kept_refl intro: keeps_refl)
next
  case (Cons row rows)
  have row: "row \<in> set (jobs d)" "pending_in d row" "r_id row \<notin> r_id ` set rows"
    using Cons.prems by (auto simp: pending_in_def)
  consider (full) "length claimed = max_jobs"
    | (ready) "length claimed < max_jobs" "ready now d row"
    | (skip) "length claimed < max_jobs" "\<not> ready now d row"
    using Cons.prems(4) by linarith
  then show ?case
  proof cases
    case full
    then show ?thesis using Cons.prems by (auto simp: picked_def rest_kept_refl intro: keeps_refl)
  next
    case ready
    let ?d = "claim_effect now row d" and ?j = "job_of_row (claimed_row now row)"
    from ready have n: "max_jobs - length claimed = Suc (max_jobs - length (claimed @ [?j]))" by simp
    obtain d' where d': "batch_loop now max_jobs (claimed @ [?j]) rows ?d = Inr ((claimed @ [?j]) @
          map (job_of_row \<circ> claimed_row now) (picked now ?d (max_jobs - length (claimed @ [?j])) rows), d')"
        "keeps_store {} ?d d'" "rest_kept rows ?d d'"
        "\<forall>r \<in> set (picked now ?d (max_jobs - length (claimed @ [?j])) rows). claimed_row now r \<in> set (jobs d')"
      using Cons.IH [OF claim_effect_inv [OF Cons.prems(1), of now row] _ rest_pending(2) [OF Cons.prems(2,3)],
          of "claimed @ [?j]"] Cons.prems(2) ready(1) by (auto simp: comp_def)
    have "claimed_row now row \<in> set (jobs d')"
      using d'(3) claimed_in_claim [OF row(2)] row(3) by (simp add: rest_kept_def)
    moreover have "keeps_store {} d d'"
      by (rule keeps_trans [OF keeps_claim [OF Cons.prems(1)] d'(2)])
    moreover have "rest_kept (row # rows) d d'"
      by (rule rest_kept_step [OF rest_kept_claim d'(3)])
    ultimately show ?thesis
      using d'(1,4) ready try_claim_ready [OF Cons.prems(1) row(2) ready(2)]
      by (simp add: n picked_def ready_claim [OF Cons.prems(1)])
  next
    case skip
    let ?d = "if expired now row then archive_effect (expired_row now row) d else d"
    have step: "try_claim now row d = Inr (None, ?d)"
      using try_claim_expired [OF Cons.prems(1) row(1)] try_claim_blocked [OF _ skip(2)] by auto
    have inv: "store_inv ?d" using expired_inv [OF Cons.prems(1) row(1)] Cons.prems(1) by simp
    have keep: "keeps_store {} d ?d"
      using row(1) Cons.prems(1) by (auto simp: live_ids_def intro!: keeps_archive keeps_refl)
    have rdy: "ready now ?d = ready now d" using ready_archive [OF Cons.prems(1) row(1)] by simp
    have rest: "rest_kept [row] d ?d" by (simp add: rest_kept_archive rest_kept_refl)
    show ?thesis
      using Cons.IH [OF inv _ rest_pending(1) [OF Cons.prems(2,3)] Cons.prems(4)]
        Cons.prems(2) skip keeps_trans [OF keep] rest_kept_step [OF rest] step
      by (auto simp: picked_def rdy)
  qed
qed

lemma dequeue_batch_eq:
  fixes now :: int and max_jobs :: nat and q :: string and ns :: "string option" and order :: dispatch_order
  assumes inv: "store_inv d"
  defines "rows \<equiv> picked now d max_jobs (scan_dequeue_candidates q now ns (int (min (max_jobs * 4) 400)) order d)"
  shows "\<exists>d'. dequeue_batch_ordered q now ns max_jobs order d =
      (Inr (map (job_of_row \<circ> claimed_row now) rows), d') \<and> keeps_store {} d d' \<and>
    (\<forall>r \<in> set rows. pending_in d r \<and> due q now ns r \<and> claimed_row now r \<in> set (jobs d'))"
proof -
  let ?scan = "scan_dequeue_candidates q now ns (int (min (max_jobs * 4) 400)) order d"
  obtain d' where d': "batch_loop now max_jobs [] ?scan d = Inr (map (job_of_row \<circ> claimed_row now) rows, d')"
      "keeps_store {} d d'" "\<forall>r \<in> set rows. claimed_row now r \<in> set (jobs d')"
    using batch_loop_eq [OF inv scan_distinct [OF inv] scan_pending, where claimed = "[]"
        and max_jobs = max_jobs and now = now, of q now ns "int (min (max_jobs * 4) 400)" order]
    by (auto simp: rows_def)
  have "pending_in d r \<and> due q now ns r" if "r \<in> set rows" for r
  proof -
    from that have "r \<in> set ?scan" by (auto simp: rows_def picked_def dest!: in_set_takeD)
    with scan_mem [OF this] scan_pending show ?thesis by (auto simp: list_all_iff)
  qed
  with d' inv show ?thesis
    by (cases "max_jobs = 0")
      (auto simp: dequeue_batch_ordered_def write_transaction_def rows_def picked_def intro: keeps_refl)
qed

text \<open>
  A batched dequeue claims exactly the first \<open>max\<close> runnable jobs of its bounded scan, in
  dispatch order, each once, all of the requested queue and namespace and all running afterwards;
  it never fails on a well-formed store.
\<close>

lemma dequeue_batch_correct:
  assumes inv: "store_inv d"
  shows "\<exists>rows d'. rows = take max_jobs (filter (ready now d)
        (scan_dequeue_candidates q now ns (int (min (max_jobs * 4) 400)) order d)) \<and>
    dequeue_batch_ordered q now ns max_jobs order d = (Inr (map (job_of_row \<circ> claimed_row now) rows), d') \<and>
    store_inv d' \<and> length rows \<le> max_jobs \<and> distinct (map r_id rows) \<and>
    sorted_wrt (dispatch_le order) rows \<and>
    list_all (\<lambda>r. r \<in> set (jobs d) \<and> due q now ns r \<and> claimed_row now r \<in> set (jobs d')) rows"
proof -
  let ?scan = "scan_dequeue_candidates q now ns (int (min (max_jobs * 4) 400)) order d"
  let ?rows = "picked now d max_jobs ?scan"
  obtain d' where d': "dequeue_batch_ordered q now ns max_jobs order d =
        (Inr (map (job_of_row \<circ> claimed_row now) ?rows), d')" "keeps_store {} d d'"
      "\<forall>r \<in> set ?rows. pending_in d r \<and> due q now ns r \<and> claimed_row now r \<in> set (jobs d')"
    using dequeue_batch_eq [OF inv] by blast
  have "distinct (map r_id ?rows)"
    using scan_distinct [OF inv] by (simp add: picked_def distinct_map_filter flip: take_map)
  moreover have "sorted_wrt (dispatch_le order) ?rows"
    unfolding picked_def by (intro sorted_wrt_take sorted_wrt_filter scan_sorted)
  moreover have "list_all (\<lambda>r. r \<in> set (jobs d) \<and> due q now ns r \<and> claimed_row now r \<in> set (jobs d')) ?rows"
    using d'(3) by (auto simp: list_all_iff pending_in_def)
  moreover have "length ?rows \<le> max_jobs" by (simp add: picked_def)
  ultimately show ?thesis
    using d'(1) keeps_inv [OF d'(2)]
    by (intro exI [of _ ?rows] exI [of _ d']) (simp add: picked_def)
qed

text \<open>
  No job is handed out twice. Whatever queue, namespace, time, budget and order the next
  batched dequeue uses, the jobs it claims are disjoint from those just claimed.
\<close>

lemma dequeue_batch_exclusive:
  assumes inv: "store_inv d"
    and first: "dequeue_batch_ordered q now ns n order d = (Inr js, d')"
    and second: "dequeue_batch_ordered q' now' ns' n' order' d' = (Inr js', d'')"
  shows "j_id ` set js \<inter> j_id ` set js' = {}"
proof -
  obtain rows where rows: "js = map (job_of_row \<circ> claimed_row now) rows" "store_inv d'"
      "\<forall>r \<in> set rows. claimed_row now r \<in> set (jobs d')"
    using dequeue_batch_eq [OF inv, of q now ns n order] first by (auto dest: keeps_inv)
  obtain rows' where rows': "js' = map (job_of_row \<circ> claimed_row now') rows'"
      "\<forall>r \<in> set rows'. pending_in d' r"
    using dequeue_batch_eq [OF rows(2), of q' now' ns' n' order'] second by auto
  have False if "r \<in> set rows" "r' \<in> set rows'" "r_id r = r_id r'" for r r'
  proof -
    have "claimed_row now r \<in> set (jobs d')" "r' \<in> set (jobs d')" "r_status r' = status_code Pending"
      using rows(3) rows'(2) that by (auto simp: pending_in_def)
    then have "Some (claimed_row now r) = Some r'"
      using find_row_live [OF rows(2)] that(3) by (metis row_sel(3))
    with \<open>r_status r' = status_code Pending\<close> show False
      using row_sel(4) [of now r] by (auto simp del: row_sel)
  qed
  then show ?thesis by (auto simp: rows(1) rows'(1))
qed

lemma batch_loop_blocked:
  "list_all (\<lambda>r. \<not> expired now r \<and> \<not> ready now d r) rows \<Longrightarrow>
     batch_loop now max_jobs claimed rows d = Inr (claimed, d)"
  by (induction rows) (auto simp: try_claim_blocked)

text \<open>
  C37: the scan is bounded by four candidates per requested job, so jobs waiting for their
  dependencies can hide every job behind them: if the first \<open>4 * max\<close> candidates are all
  blocked, a batched dequeue hands out nothing and changes nothing, whatever else is runnable.
\<close>

theorem dequeue_batch_starves:
  assumes "list_all (\<lambda>r. \<not> expired now r \<and> \<not> ready now d r)
      (scan_dequeue_candidates q now ns (int (min (max_jobs * 4) 400)) order d)"
  shows "dequeue_batch_ordered q now ns max_jobs order d = (Inr [], d)"
  using batch_loop_blocked [OF assms]
  by (simp add: dequeue_batch_ordered_def write_transaction_def)

section \<open>The dequeue family keeps the store contract\<close>

lemma keeps_dequeue_ordered:
  assumes inv: "store_inv d"
  shows "keeps_store {} d (snd (dequeue_ordered q now ns order d))"
proof -
  let ?rows = "scan_dequeue_candidates q now ns 100 order d"
  let ?skip = "takeWhile (\<lambda>r. \<not> ready now d r) ?rows"
  have "distinct (map r_id ?skip)"
    using scan_distinct [OF inv, of q now ns 100 order] takeWhile_dropWhile_id [of _ ?rows]
    by (metis distinct_append map_append)
  moreover have "list_all (pending_in d) ?skip"
    using scan_pending [of d q now ns 100 order] by (auto simp: list_all_iff dest: set_takeWhileD)
  ultimately have keep: "keeps_store {} d (expire_rows now ?skip d)"
    using expire_rows_keeps [OF inv] by blast
  note eq = dequeue_loop_eq [OF inv scan_distinct [OF inv] scan_pending, of now q now ns 100 order]
  show ?thesis
    using eq keep keeps_trans [OF keep keeps_claim [OF keeps_inv [OF keep]]]
    by (cases "dropWhile (\<lambda>r. \<not> ready now d r) ?rows")
      (simp_all add: dequeue_ordered_def write_transaction_def Let_def del: dropWhile_eq_Nil_conv)
qed

lemma keeps_dequeue_from:
  "store_inv d \<Longrightarrow> keeps_store {} d (snd (dequeue_from queues now ns orders d))"
proof (induction queues arbitrary: d)
  case (Cons q queues)
  let ?r = "dequeue_ordered q now ns (order_for orders q) d"
  have "keeps_store {} d (snd ?r)" by (rule keeps_dequeue_ordered [OF Cons.prems])
  with Cons.IH [of "snd ?r"] show ?case
    by (auto simp: case_prod_unfold Let_def intro: keeps_trans keeps_inv split: sum.splits option.splits)
qed (simp add: keeps_refl)

lemma keeps_dequeue_batch:
  "store_inv d \<Longrightarrow> keeps_store {} d (snd (dequeue_batch_ordered q now ns n order d))"
  using dequeue_batch_eq [of d q now ns n order] by auto

lemma keeps_dequeue_batch_from_loop:
  "store_inv d \<Longrightarrow> keeps_store {} d (snd (dequeue_batch_from_loop claimed queues now ns n orders d))"
proof (induction queues arbitrary: d claimed)
  case (Cons q queues)
  let ?r = "dequeue_batch_ordered q now ns (n - length claimed) (order_for orders q) d"
  have keep: "keeps_store {} d (snd ?r)" by (rule keeps_dequeue_batch [OF Cons.prems])
  show ?case
    using Cons.IH [OF keeps_inv [OF keep]] keep keeps_refl [OF Cons.prems]
    by (auto simp: case_prod_unfold Let_def intro: keeps_trans [OF keep] split: sum.splits)
qed (simp add: keeps_refl)

lemma keeps_dequeue_batch_from:
  "store_inv d \<Longrightarrow> keeps_store {} d (snd (dequeue_batch_from queues now ns n orders d))"
  by (simp add: dequeue_batch_from_def keeps_dequeue_batch_from_loop)

section \<open>Concrete runs\<close>

definition sample_row :: "string \<Rightarrow> int \<Rightarrow> job_row" where
  "sample_row jid priority = new_job_row no_json
     (into_job jid 0 (plain_job\<lparr>n_priority := priority\<rparr>))"

definition sample_db :: "job_row list \<Rightarrow> db" where
  "sample_db rows = empty_db\<lparr>jobs := rows\<rparr>"

definition two_jobs :: db where
  "two_jobs = sample_db [sample_row ''a'' 0, sample_row ''b'' 5]"

text \<open>A parent of low priority behind four children that wait for it.\<close>

definition hidden_parent :: db where
  "hidden_parent = (sample_db (sample_row ''p'' 0 #
       map (\<lambda>c. (sample_row [c] 1)\<lparr>r_has_deps := True\<rparr>) ''abcd''))
     \<lparr>job_dependencies := map (\<lambda>c. \<lparr>e_id = [c], e_job_id = [c], e_depends_on_job_id = ''p''\<rparr>) ''abcd''\<rparr>"

lemma sample_row_sel [simp]:
  "r_id (sample_row jid p) = jid" "r_status (sample_row jid p) = 0"
  "r_unique_key (sample_row jid p) = None" "r_priority (sample_row jid p) = p"
  "r_scheduled_at (sample_row jid p) = 5" "r_queue (sample_row jid p) = ''default''"
  "r_namespace (sample_row jid p) = None" "r_expires_at (sample_row jid p) = None"
  "\<not> r_has_deps (sample_row jid p)" "r_retry_count (sample_row jid p) = 0"
  "r_started_at (sample_row jid p) = None" "r_created_at (sample_row jid p) = 0"
  by (simp_all add: sample_row_def new_job_row_def Let_def into_job_def plain_job_def)

lemma store_inv_sample:
  assumes "distinct (map r_id rows)" "\<forall>r \<in> set rows. r_status r = 0 \<or> r_status r = 1"
    "\<forall>r \<in> set rows. r_unique_key r = None"
  shows "store_inv (sample_db rows)"
  using assms unfolding store_inv_defs by (simp add: sample_db_def empty_db_def)

lemma store_inv_two_jobs: "store_inv two_jobs"
  unfolding two_jobs_def by (rule store_inv_sample) simp_all

theorem dequeue_ordered_correct_witness:
  "store_inv two_jobs \<and>
   fst (dequeue_ordered ''default'' 10 None Fifo two_jobs) =
     Inr (Some (job_of_row (claimed_row 10 (sample_row ''b'' 5)))) \<and>
   store_inv (snd (dequeue_ordered ''default'' 10 None Fifo two_jobs))"
proof -
  have run: "fst (dequeue_ordered ''default'' 10 None Fifo two_jobs) =
      Inr (Some (job_of_row (claimed_row 10 (sample_row ''b'' 5))))"
    by (simp add: dequeue_ordered_def write_transaction_def scan_dequeue_candidates_def two_jobs_def
        sample_db_def due_def dispatch_le_def sql_limit_def try_claim_def expired_def
        count_where_def update_where_def Let_def)
  with dequeue_ordered_correct [OF store_inv_two_jobs, of "''default''" 10 None Fifo]
  show ?thesis by (auto simp: store_inv_two_jobs split: prod.splits)
qed

theorem dequeue_batch_starves_witness:
  "ready 10 hidden_parent (sample_row ''p'' 0) \<and> due ''default'' 10 None (sample_row ''p'' 0) \<and>
   sample_row ''p'' 0 \<in> set (jobs hidden_parent) \<and>
   dequeue_batch_ordered ''default'' 10 None 1 Fifo hidden_parent = (Inr [], hidden_parent)"
proof -
  have "scan_dequeue_candidates ''default'' 10 None 4 Fifo hidden_parent =
      map (\<lambda>c. (sample_row [c] 1)\<lparr>r_has_deps := True\<rparr>) ''abcd''"
    by (simp add: scan_dequeue_candidates_def hidden_parent_def sample_db_def due_def
        dispatch_le_def sql_limit_def)
  moreover have "\<not> deps_satisfied [c] hidden_parent" if "c \<in> set ''abcd''" for c
    using that
    by (auto simp: deps_satisfied_def hidden_parent_def sample_db_def Let_def count_where_def)
  ultimately have "list_all (\<lambda>r. \<not> expired 10 r \<and> \<not> ready 10 hidden_parent r)
      (scan_dequeue_candidates ''default'' 10 None (int (min (1 * 4) 400)) Fifo hidden_parent)"
    by (simp add: expired_def ready_def)
  from dequeue_batch_starves [OF this] show ?thesis
    by (simp add: ready_def expired_def due_def hidden_parent_def sample_db_def)
qed

end
