(* ===== verification/Lifecycle.thy ===== *)
theory Lifecycle
  imports Dequeue
begin

text \<open>
  The operations of \<open>storage/diesel_common/jobs.rs\<close> that move a job through its life after
  dispatch: completion, failure, retry, requeue, cancellation with its cascade over the
  dependency graph, mass cancellation, progress, error records and the reaper queries.
\<close>

section \<open>Completion and failure\<close>

record job_completion =
  k_job_id :: string
  k_result :: "bytes option"
  k_task_name :: string
  k_wall_time_ns :: int

definition in_scope :: "string option \<Rightarrow> job_row \<Rightarrow> bool" where
  "in_scope namespace r = (case namespace of None \<Rightarrow> True | Some ns \<Rightarrow> r_namespace r = Some ns)"

definition select_running :: "string \<Rightarrow> string option \<Rightarrow> db \<Rightarrow> job_row option" where
  "select_running jid namespace d =
     find (\<lambda>r. r_id r = jid \<and> r_status r = status_code Running \<and> in_scope namespace r) (jobs d)"

definition completed_row :: "int \<Rightarrow> bytes option \<Rightarrow> job_row \<Rightarrow> job_row" where
  "completed_row now result row = row\<lparr>r_status := status_code Complete, r_completed_at := Some now,
     r_result := result\<rparr>"

definition failed_row :: "int \<Rightarrow> string \<Rightarrow> job_row \<Rightarrow> job_row" where
  "failed_row now error row = row\<lparr>r_status := status_code Failed, r_completed_at := Some now,
     r_error := Some error\<rparr>"

definition complete_body :: "int \<Rightarrow> string \<Rightarrow> bytes option \<Rightarrow> string option \<Rightarrow> db \<Rightarrow> (unit \<times> db) result" where
  "complete_body now jid result_bytes namespace d =
     (case select_running jid namespace d of
        None \<Rightarrow> Inl (JobNotFound jid)
      | Some row \<Rightarrow> and_then (archive_job_row (completed_row now result_bytes row) d)
          (\<lambda>d'. Inr ((), d')))"

definition complete ::
    "int \<Rightarrow> string \<Rightarrow> bytes option \<Rightarrow> string option \<Rightarrow> db \<Rightarrow> unit result \<times> db" where
  "complete now jid result_bytes namespace d =
     write_transaction (complete_body now jid result_bytes namespace) d"

definition complete_one ::
    "int \<Rightarrow> string option \<Rightarrow> string \<Rightarrow> job_completion \<Rightarrow> db \<Rightarrow> db result" where
  "complete_one now namespace metric_id c d =
     (case select_running (k_job_id c) namespace d of
        None \<Rightarrow> Inl (JobNotFound (k_job_id c))
      | Some row \<Rightarrow>
          and_then (archive_job_row (completed_row now (k_result c) row) d) (insert_metric
            \<lparr>m_id = metric_id, m_task_name = k_task_name c, m_job_id = k_job_id c,
             m_wall_time_ns = k_wall_time_ns c, m_memory_bytes = 0, m_succeeded = True,
             m_recorded_at = now, m_namespace = r_namespace row\<rparr>))"

definition complete_batch ::
    "(nat \<Rightarrow> string) \<Rightarrow> int \<Rightarrow> job_completion list \<Rightarrow> string option \<Rightarrow> db \<Rightarrow> unit result \<times> db" where
  "complete_batch ids now completions namespace d =
     (if completions = [] then (Inr (), d)
      else write_transaction (\<lambda>d.
        and_then (try_fold (\<lambda>(i, c). complete_one now namespace (ids i) c) (enumerate 0 completions) d)
          (\<lambda>d'. Inr ((), d'))) d)"

definition fail :: "int \<Rightarrow> string \<Rightarrow> string \<Rightarrow> db \<Rightarrow> unit result \<times> db" where
  "fail now jid error d =
     write_transaction (\<lambda>d. case select_running jid None d of
        None \<Rightarrow> Inl (JobNotFound jid)
      | Some row \<Rightarrow> and_then (archive_job_row (failed_row now error row) d) (\<lambda>d'. Inr ((), d'))) d"

section \<open>Retry and requeue\<close>

definition pending_again :: "int \<Rightarrow> job_row \<Rightarrow> job_row" where
  "pending_again next_scheduled_at r = r\<lparr>r_status := status_code Pending,
     r_scheduled_at := next_scheduled_at, r_started_at := None, r_completed_at := None,
     r_error := None\<rparr>"

definition drop_claim :: "string \<Rightarrow> db \<Rightarrow> db" where
  "drop_claim jid d =
     d\<lparr>execution_claims := delete_where (\<lambda>c. c_job_id c = jid) (execution_claims d)\<rparr>"

definition retry_target :: "string \<Rightarrow> string option \<Rightarrow> job_row \<Rightarrow> bool" where
  "retry_target jid namespace r \<longleftrightarrow> r_id r = jid \<and> in_scope namespace r"

definition retry :: "string \<Rightarrow> int \<Rightarrow> string option \<Rightarrow> db \<Rightarrow> unit result \<times> db" where
  "retry jid next_scheduled_at namespace d =
     write_transaction (\<lambda>d.
       if count_where (retry_target jid namespace) (jobs d) = 0 then Inl (JobNotFound jid)
       else Inr ((), drop_claim jid (d\<lparr>jobs := update_where (retry_target jid namespace)
         (\<lambda>r. (pending_again next_scheduled_at r)\<lparr>r_retry_count := r_retry_count r + 1\<rparr>)
         (jobs d)\<rparr>))) d"

definition reschedule :: "string \<Rightarrow> int \<Rightarrow> db \<Rightarrow> unit result \<times> db" where
  "reschedule jid next_scheduled_at d =
     (if count_where (\<lambda>r. r_id r = jid) (jobs d) = 0 then (Inl (JobNotFound jid), d)
      else (Inr (), d\<lparr>jobs := update_where (\<lambda>r. r_id r = jid) (pending_again next_scheduled_at) (jobs d)\<rparr>))"

definition stuck :: "string \<Rightarrow> job_row \<Rightarrow> bool" where
  "stuck jid r \<longleftrightarrow> r_id r = jid \<and> r_status r = status_code Running"

definition requeue_stuck :: "string \<Rightarrow> int \<Rightarrow> db \<Rightarrow> bool result \<times> db" where
  "requeue_stuck jid now d =
     write_transaction (\<lambda>d.
       if count_where (stuck jid) (jobs d) = 0 then Inr (False, d)
       else Inr (True, drop_claim jid (d\<lparr>jobs := update_where (stuck jid)
         (\<lambda>r. (pending_again now r)\<lparr>r_cancel_requested := 0\<rparr>) (jobs d)\<rparr>))) d"

section \<open>Cancellation\<close>

definition cancelled_row :: "int \<Rightarrow> string \<Rightarrow> job_row \<Rightarrow> job_row" where
  "cancelled_row now error row = row\<lparr>r_status := status_code Cancelled,
     r_completed_at := Some now, r_error := Some error\<rparr>"

definition dependents_of :: "string \<Rightarrow> dep_row list \<Rightarrow> string list" where
  "dependents_of current_id edges =
     map e_job_id (filter (\<lambda>e. e_depends_on_job_id e = current_id) edges)"

definition push_new :: "string list \<Rightarrow> string list \<times> string set \<Rightarrow> string list \<times> string set" where
  "push_new deps state = fold (\<lambda>dep_id (queue, visited).
     if dep_id \<in> visited then (queue, visited) else (queue @ [dep_id], insert dep_id visited)) deps state"

lemma push_new_measure:
  assumes "finite U" "set deps \<subseteq> U"
  shows "card (U - snd (push_new deps (q, v))) + length (fst (push_new deps (q, v))) =
    card (U - v) + length q \<and> length q \<le> length (fst (push_new deps (q, v)))"
  using assms(2)
proof (induction deps arbitrary: q v)
  case (Cons x deps)
  show ?case
  proof (cases "x \<in> v")
    case True
    with Cons show ?thesis by (simp add: push_new_def)
  next
    case False
    have "x \<in> U - v" using Cons.prems False by simp
    then have "card (U - v) = Suc (card (U - insert x v))"
      using assms(1) by (metis Diff_insert card_Suc_Diff1 finite_Diff)
    with False Cons.IH [of "q @ [x]" "insert x v"] Cons.prems show ?thesis
      by (auto simp: push_new_def)
  qed
qed (simp add: push_new_def)

text \<open>The breadth-first search: \<open>while idx < queue.len()\<close>.\<close>

function bfs :: "dep_row list \<Rightarrow> string list \<Rightarrow> string set \<Rightarrow> nat \<Rightarrow> string list" where
  "bfs edges queue visited idx =
     (if idx < length queue
      then (let (queue', visited') = push_new (dependents_of (queue ! idx) edges) (queue, visited)
            in bfs edges queue' visited' (Suc idx))
      else queue)"
  by pat_completeness auto

termination
proof (relation "measure (\<lambda>(edges, queue, visited, idx).
    card (e_job_id ` set edges - visited) + (length queue - idx))", goal_cases)
  case 1
  show ?case by simp
next
  case (2 edges queue visited idx x queue' visited')
  have "set (dependents_of (queue ! idx) edges) \<subseteq> e_job_id ` set edges"
    by (auto simp: dependents_of_def)
  moreover have "push_new (dependents_of (queue ! idx) edges) (queue, visited) = (queue', visited')"
    using 2(2,3) by simp
  ultimately have "card (e_job_id ` set edges - visited') + length queue' =
      card (e_job_id ` set edges - visited) + length queue \<and> length queue \<le> length queue'"
    using push_new_measure [of "e_job_id ` set edges" _ queue visited] by fastforce
  with 2(1) show ?case by simp
qed

declare bfs.simps [simp del]

definition cascade_ids :: "string \<Rightarrow> db \<Rightarrow> string list" where
  "cascade_ids failed_job_id d = tl (bfs (job_dependencies d) [failed_job_id] {failed_job_id} 0)"

definition cascade_target :: "string list \<Rightarrow> string option \<Rightarrow> job_row \<Rightarrow> bool" where
  "cascade_target queue namespace r \<longleftrightarrow>
     r_id r \<in> set queue \<and> r_status r = status_code Pending \<and> in_scope namespace r"

definition cascade_cancel ::
    "int \<Rightarrow> string \<Rightarrow> string \<Rightarrow> string option \<Rightarrow> db \<Rightarrow> unit result \<times> db" where
  "cascade_cancel now failed_job_id reason namespace d =
     (let queue = cascade_ids failed_job_id d;
          error_msg = reason @ '': '' @ failed_job_id
      in if queue = [] then (Inr (), d)
         else write_transaction (\<lambda>d.
           and_then (try_fold archive_job_row
               (map (cancelled_row now error_msg) (filter (cascade_target queue namespace) (jobs d))) d)
             (\<lambda>d'. Inr ((), d'))) d)"

definition cancel_body :: "int \<Rightarrow> string \<Rightarrow> string option \<Rightarrow> db \<Rightarrow> (bool \<times> db) result" where
  "cancel_body now jid namespace d =
     (case find (\<lambda>r. r_id r = jid \<and> r_status r = status_code Pending) (jobs d) of
        None \<Rightarrow> Inr (False, d)
      | Some row \<Rightarrow>
          if namespace \<noteq> None \<and> r_namespace row \<noteq> namespace then Inr (False, d)
          else and_then (archive_job_row (row\<lparr>r_status := status_code Cancelled,
                 r_completed_at := Some now\<rparr>) d) (\<lambda>d'. Inr (True, d')))"

definition cancel_job :: "int \<Rightarrow> int \<Rightarrow> string \<Rightarrow> string option \<Rightarrow> db \<Rightarrow> bool result \<times> db" where
  "cancel_job now now' jid namespace d =
     (let (archived, d1) = write_transaction (cancel_body now jid namespace) d
      in case archived of
           Inl e \<Rightarrow> (Inl e, d1)
         | Inr False \<Rightarrow> (Inr False, d1)
         | Inr True \<Rightarrow>
             (let (res, d2) = cascade_cancel now' jid ''dependency cancelled'' namespace d1
              in (map_sum id (\<lambda>_. True) res, d2)))"

definition request_cancel :: "string \<Rightarrow> string option \<Rightarrow> db \<Rightarrow> bool result \<times> db" where
  "request_cancel jid namespace d =
     (let P = (\<lambda>r. r_id r = jid \<and> r_status r = status_code Running \<and> in_scope namespace r)
      in (Inr (count_where P (jobs d) > 0),
          d\<lparr>jobs := update_where P (\<lambda>r. r\<lparr>r_cancel_requested := 1\<rparr>) (jobs d)\<rparr>))"

definition is_cancel_requested :: "string \<Rightarrow> string option \<Rightarrow> db \<Rightarrow> bool" where
  "is_cancel_requested jid namespace d =
     (case find_row r_id jid (jobs d) of
        Some row \<Rightarrow> job_in_namespace (r_namespace row) namespace \<and> r_cancel_requested row \<noteq> 0
      | None \<Rightarrow> False)"

definition mark_cancelled :: "int \<Rightarrow> string \<Rightarrow> string option \<Rightarrow> db \<Rightarrow> unit result \<times> db" where
  "mark_cancelled now jid namespace d =
     write_transaction (\<lambda>d.
       case find_row r_id jid (jobs d) of
         None \<Rightarrow> Inr ((), d)
       | Some row \<Rightarrow>
           if \<not> job_in_namespace (r_namespace row) namespace then Inr ((), d)
           else and_then (archive_job_row (cancelled_row now ''cancelled by request'' row) d)
             (\<lambda>d'. Inr ((), d'))) d"

text \<open>
  Mass cancellation. \<open>archive_pending_in_batches\<close> loops over bounded transactions until one
  comes back short; \<open>select\<close> is the filter of the closure the caller passes.
\<close>

definition MASS_ARCHIVE_BATCH :: int where
  "MASS_ARCHIVE_BATCH = 500"

definition archive_pending_rows :: "job_row list \<Rightarrow> int \<Rightarrow> string \<Rightarrow> db \<Rightarrow> (nat \<times> db) result" where
  "archive_pending_rows rows now error d =
     and_then (try_fold archive_job_row (map (cancelled_row now error) rows) d)
       (\<lambda>d'. Inr (length rows, d'))"

definition archive_batch ::
    "(job_row \<Rightarrow> bool) \<Rightarrow> int \<Rightarrow> string \<Rightarrow> db \<Rightarrow> (nat \<times> db) result" where
  "archive_batch select now error d =
     archive_pending_rows (sql_limit MASS_ARCHIVE_BATCH (filter select (jobs d))) now error d"

lemma archive_job_row_jobs:
  "archive_job_row row d = Inr d' \<Longrightarrow> jobs d' = delete_where (\<lambda>r. r_id r = r_id row) (jobs d)"
  using archive_job_rowD by fastforce

lemma try_fold_archive_length:
  "try_fold archive_job_row rows d = Inr d' \<Longrightarrow> length (jobs d') \<le> length (jobs d)"
proof (induction rows arbitrary: d)
  case (Cons row rows)
  then obtain d1 where d1: "archive_job_row row d = Inr d1" "try_fold archive_job_row rows d1 = Inr d'"
    by (auto simp: and_then_Inr_iff)
  have "length (jobs d1) \<le> length (jobs d)"
    using archive_job_row_jobs [OF d1(1)] by (simp add: delete_where_def)
  with Cons.IH [OF d1(2)] show ?case by simp
qed simp

lemma archive_batch_shrinks:
  assumes "archive_batch select now error d = Inr (n, d')" "0 < n"
  shows "length (jobs d') < length (jobs d)"
proof -
  let ?rows = "sql_limit MASS_ARCHIVE_BATCH (filter select (jobs d))"
  obtain row rows where rows: "?rows = row # rows"
    using assms by (cases ?rows) (auto simp: archive_batch_def archive_pending_rows_def)
  then obtain d1 where d1: "archive_job_row (cancelled_row now error row) d = Inr d1"
      "try_fold archive_job_row (map (cancelled_row now error) rows) d1 = Inr d'"
    using assms(1) by (auto simp: archive_batch_def archive_pending_rows_def and_then_Inr_iff)
  have "row \<in> set (jobs d)" using rows set_sql_limit by (metis filter_is_subset list.set_intros(1) subsetD)
  then have "length (jobs d1) < length (jobs d)"
    using archive_job_row_jobs [OF d1(1)]
    by (auto simp: delete_where_def cancelled_row_def intro: length_filter_less)
  with try_fold_archive_length [OF d1(2)] show ?thesis by simp
qed

function archive_pending_in_batches ::
    "(job_row \<Rightarrow> bool) \<Rightarrow> int \<Rightarrow> string \<Rightarrow> nat \<Rightarrow> db \<Rightarrow> nat result \<times> db" where
  "archive_pending_in_batches select now error sum_archived d =
     (case write_transaction (archive_batch select now error) d of
        (Inl e, d') \<Rightarrow> (Inl e, d')
      | (Inr archived, d') \<Rightarrow>
          if int archived < MASS_ARCHIVE_BATCH then (Inr (sum_archived + archived), d')
          else archive_pending_in_batches select now error (sum_archived + archived) d')"
  by pat_completeness auto

termination
proof (relation "measure (\<lambda>(select, now, error, sum_archived, d). length (jobs d))", goal_cases)
  case 1
  show ?case by simp
next
  case (2 select now error sum_archived d x1 d' archived)
  then have "archive_batch select now error d = Inr (archived, d')"
    by (auto simp: write_transaction_def split: sum.splits prod.splits)
  from archive_batch_shrinks [OF this] 2(3) show ?case by (simp add: MASS_ARCHIVE_BATCH_def)
qed

declare archive_pending_in_batches.simps [simp del]

definition pending_expired :: "int \<Rightarrow> job_row \<Rightarrow> bool" where
  "pending_expired now r \<longleftrightarrow> r_status r = status_code Pending \<and>
     (case r_expires_at r of None \<Rightarrow> False | Some t \<Rightarrow> t < now)"

definition expire_pending_jobs :: "int \<Rightarrow> db \<Rightarrow> nat result \<times> db" where
  "expire_pending_jobs now d = archive_pending_in_batches (pending_expired now) now ''expired'' 0 d"

definition cancel_pending_by_queue :: "int \<Rightarrow> string \<Rightarrow> db \<Rightarrow> nat result \<times> db" where
  "cancel_pending_by_queue now queue d = archive_pending_in_batches
     (\<lambda>r. r_status r = status_code Pending \<and> r_queue r = queue) now ''purged'' 0 d"

definition cancel_pending_by_task :: "int \<Rightarrow> string \<Rightarrow> db \<Rightarrow> nat result \<times> db" where
  "cancel_pending_by_task now task_name d = archive_pending_in_batches
     (\<lambda>r. r_status r = status_code Pending \<and> r_task_name r = task_name) now ''revoked'' 0 d"

section \<open>Progress, errors, graph reads and reaper queries\<close>

definition update_progress :: "string \<Rightarrow> int \<Rightarrow> string option \<Rightarrow> db \<Rightarrow> unit result \<times> db" where
  "update_progress jid progress namespace d =
     (if \<not> (0 \<le> progress \<and> progress \<le> 100)
      then (Inl (Other ''progress must be between 0 and 100''), d)
      else if count_where (retry_target jid namespace) (jobs d) = 0 then (Inl (JobNotFound jid), d)
      else (Inr (), d\<lparr>jobs := update_where (retry_target jid namespace)
              (\<lambda>r. r\<lparr>r_progress := Some progress\<rparr>) (jobs d)\<rparr>))"

definition get_dependencies :: "string \<Rightarrow> string option \<Rightarrow> db \<Rightarrow> string list" where
  "get_dependencies job_id namespace d =
     (if namespace \<noteq> None \<and> get_job job_id namespace d = None then []
      else map e_depends_on_job_id (filter (\<lambda>e. e_job_id e = job_id) (job_dependencies d)))"

definition get_dependents :: "string \<Rightarrow> string option \<Rightarrow> db \<Rightarrow> string list" where
  "get_dependents job_id namespace d =
     (if namespace \<noteq> None \<and> get_job job_id namespace d = None then []
      else dependents_of job_id (job_dependencies d))"

definition record_error ::
    "string \<Rightarrow> int \<Rightarrow> string \<Rightarrow> int \<Rightarrow> string \<Rightarrow> string option \<Rightarrow> db \<Rightarrow> unit result \<times> db" where
  "record_error uuid now job_id attempt error namespace d =
     (if namespace \<noteq> None \<and> get_job job_id namespace d = None then (Inr (), d)
      else case insert_error \<lparr>x_id = uuid, x_job_id = job_id, x_attempt = attempt, x_error = error,
             x_failed_at = now\<rparr> d of
             Inl e \<Rightarrow> (Inl e, d)
           | Inr d' \<Rightarrow> (Inr (), d'))"

definition get_job_errors :: "string \<Rightarrow> string option \<Rightarrow> db \<Rightarrow> error_row list" where
  "get_job_errors job_id namespace d =
     (if namespace \<noteq> None \<and> get_job job_id namespace d = None then []
      else order_by (\<lambda>x y. x_attempt x \<le> x_attempt y)
             (filter (\<lambda>x. x_job_id x = job_id) (job_errors d)))"

definition narrow_job :: "job_row \<Rightarrow> job" where
  "narrow_job r = from_narrow r [] None"

definition reap_stale_jobs :: "int \<Rightarrow> string option \<Rightarrow> db \<Rightarrow> job list" where
  "reap_stale_jobs now namespace d = map narrow_job
     (filter (\<lambda>r. r_status r = status_code Running \<and>
        (case r_started_at r of None \<Rightarrow> False | Some t \<Rightarrow> t + r_timeout_ms r < now) \<and>
        in_scope namespace r) (jobs d))"

definition reap_orphaned_jobs ::
    "string list \<Rightarrow> string option \<Rightarrow> db \<Rightarrow> (job \<times> string) list" where
  "reap_orphaned_jobs live_owner_ids namespace d =
     (if live_owner_ids = [] then []
      else let orphan_claims = map (\<lambda>c. (c_job_id c, c_worker_id c))
                 (filter (\<lambda>c. c_worker_id c \<notin> set live_owner_ids) (execution_claims d));
               owner_by_job = map_of (rev orphan_claims)
           in if orphan_claims = [] then []
              else map (\<lambda>r. (narrow_job r, case owner_by_job (r_id r) of Some w \<Rightarrow> w | None \<Rightarrow> []))
                (filter (\<lambda>r. r_id r \<in> set (map fst orphan_claims) \<and>
                   r_status r = status_code Running \<and> in_scope namespace r) (jobs d)))"

definition count_running_by_task :: "string \<Rightarrow> string option \<Rightarrow> db \<Rightarrow> nat" where
  "count_running_by_task task_name namespace d = count_where
     (\<lambda>r. r_task_name r = task_name \<and> r_status r = status_code Running \<and> in_scope namespace r) (jobs d)"

definition count_pending_by_queue :: "string \<Rightarrow> db \<Rightarrow> nat" where
  "count_pending_by_queue queue_name d = count_where
     (\<lambda>r. r_queue r = queue_name \<and> r_status r = status_code Pending) (jobs d)"

section \<open>Archiving a list of rows\<close>

lemma fold_archive_sel:
  "jobs (fold archive_effect rows d) = delete_where (\<lambda>r. r_id r \<in> r_id ` set rows) (jobs d)"
  "archived_jobs (fold archive_effect rows d) = archived_jobs d @ map archived_of_row rows"
  "job_dependencies (fold archive_effect rows d) = job_dependencies d"
  "live_ids (fold archive_effect rows d) = live_ids d - r_id ` set rows"
  by (induction rows arbitrary: d) (auto simp: delete_where_def intro!: arg_cong [where f = "\<lambda>P. filter P _"])

lemma archive_rows_ok:
  "store_inv d \<Longrightarrow> distinct (map r_id rows) \<Longrightarrow> r_id ` set rows \<subseteq> live_ids d \<Longrightarrow>
   list_all (\<lambda>r. is_terminal_status (r_status r)) rows \<Longrightarrow>
   try_fold archive_job_row rows d = Inr (fold archive_effect rows d) \<and>
   keeps_store {} d (fold archive_effect rows d)"
proof (induction rows arbitrary: d)
  case (Cons row rows)
  let ?d = "archive_effect row d"
  have keep: "keeps_store {} d ?d"
    by (rule keeps_archive) (use Cons.prems in auto)
  have "r_id ` set rows \<subseteq> live_ids ?d"
    using Cons.prems(2,3) by (simp add: subset_Diff_insert)
  then have "try_fold archive_job_row rows ?d = Inr (fold archive_effect rows ?d) \<and>
      keeps_store {} ?d (fold archive_effect rows ?d)"
    using Cons.IH [OF keeps_inv [OF keep]] Cons.prems(2,4) by simp
  then show ?case
    using archive_job_row_ok [OF Cons.prems(1), of row] keeps_trans [OF keep] Cons.prems(3) by simp
qed (simp add: keeps_refl)

lemma cancelled_row_sel [simp]:
  "r_id (cancelled_row now e r) = r_id r" "r_status (cancelled_row now e r) = status_code Cancelled"
  "r_id (completed_row now res r) = r_id r" "r_status (completed_row now res r) = status_code Complete"
  "r_id (failed_row now e r) = r_id r" "r_status (failed_row now e r) = status_code Failed"
  "r_result (completed_row now res r) = res" "r_completed_at (completed_row now res r) = Some now"
  "r_namespace (completed_row now res r) = r_namespace r"
  by (simp_all add: cancelled_row_def completed_row_def failed_row_def)

lemma cancelled_rows_ok:
  assumes "store_inv d" "distinct (map r_id rows)" "set rows \<subseteq> set (jobs d)"
  shows "try_fold archive_job_row (map (cancelled_row now e) rows) d =
      Inr (fold archive_effect (map (cancelled_row now e) rows) d) \<and>
    keeps_store {} d (fold archive_effect (map (cancelled_row now e) rows) d)"
  by (rule archive_rows_ok [OF assms(1)])
    (use assms in \<open>auto simp: comp_def list_all_iff live_ids_def\<close>)

lemma distinct_live: "store_inv d \<Longrightarrow> distinct (map r_id (filter P (jobs d)))"
  by (simp add: store_inv_def live_ok_def distinct_map_filter)

section \<open>The cascade\<close>

definition dep_rel :: "dep_row list \<Rightarrow> (string \<times> string) set" where
  "dep_rel edges = {(e_depends_on_job_id e, e_job_id e) |e. e \<in> set edges}"

lemma push_new_spec:
  assumes "push_new deps (q, v) = (q', v')" "set q = v" "distinct q"
  shows "set q' = v \<union> set deps \<and> v' = v \<union> set deps \<and> distinct q' \<and> (\<exists>ys. q' = q @ ys \<and> set ys \<subseteq> set deps)"
  using assms
proof (induction deps arbitrary: q v)
  case (Cons x deps)
  show ?case
  proof (cases "x \<in> v")
    case True
    with Cons.prems have "push_new deps (q, v) = (q', v')" by (simp add: push_new_def)
    from Cons.IH [OF this Cons.prems(2,3)] True show ?thesis by auto
  next
    case False
    with Cons.prems have "push_new deps (q @ [x], insert x v) = (q', v')" by (simp add: push_new_def)
    from Cons.IH [OF this] False Cons.prems show ?thesis by auto
  qed
qed (auto simp: push_new_def)

lemma set_dependents_of: "set (dependents_of x edges) = dep_rel edges `` {x}"
  by (auto simp: dependents_of_def dep_rel_def)

text \<open>The search loop keeps: the queue is duplicate-free, holds only reachable jobs, and the
  dependents of the processed prefix are in it.\<close>

lemma bfs_inv:
  assumes "set queue = visited" "distinct queue" "idx \<le> length queue" "queue \<noteq> []"
    "set queue \<subseteq> (dep_rel edges)\<^sup>* `` {hd queue}"
    "\<forall>i < idx. dep_rel edges `` {queue ! i} \<subseteq> set queue"
  shows "set (bfs edges queue visited idx) = (dep_rel edges)\<^sup>* `` {hd queue} \<and>
    distinct (bfs edges queue visited idx) \<and> hd (bfs edges queue visited idx) = hd queue \<and>
    bfs edges queue visited idx \<noteq> []"
  using assms
proof (induction edges queue visited idx rule: bfs.induct)
  case (1 edges queue visited idx)
  show ?case
  proof (cases "idx < length queue")
    case True
    obtain q' v' where q': "push_new (dependents_of (queue ! idx) edges) (queue, visited) = (q', v')"
      by fastforce
    note spec = push_new_spec [OF q' 1(2,3), unfolded set_dependents_of]
    obtain ys where ys: "q' = queue @ ys" "set ys \<subseteq> dep_rel edges `` {queue ! idx}"
      using spec by blast
    have "queue ! idx \<in> (dep_rel edges)\<^sup>* `` {hd queue}" using 1(6) True by (meson nth_mem subsetD)
    then have "set ys \<subseteq> (dep_rel edges)\<^sup>* `` {hd queue}"
      using ys(2) by (auto intro: rtrancl_into_rtrancl)
    then have reach: "set q' \<subseteq> (dep_rel edges)\<^sup>* `` {hd q'}"
      using 1(5,6) ys(1) by auto
    have "dep_rel edges `` {q' ! i} \<subseteq> set q'" if "i < Suc idx" for i
    proof (cases "i = idx")
      case True
      with \<open>idx < length queue\<close> show ?thesis
        using spec ys(1) by (simp add: nth_append)
    next
      case False
      with that have "i < idx" by simp
      then have "dep_rel edges `` {queue ! i} \<subseteq> set queue" "q' ! i = queue ! i"
        using 1(7) ys(1) \<open>idx < length queue\<close> by (simp_all add: nth_append)
      then show ?thesis using ys(1) by auto
    qed
    moreover have "set q' = v'" "distinct q'" "Suc idx \<le> length q'" "q' \<noteq> []" "hd q' = hd queue"
      using spec ys(1) True 1(2,5) by auto
    ultimately show ?thesis
      using 1(1) [OF True q' [symmetric]] reach True q' by (subst (1 2 3 4) bfs.simps) simp
  next
    case False
    have "dep_rel edges `` set queue \<subseteq> set queue"
    proof
      fix y assume "y \<in> dep_rel edges `` set queue"
      then obtain i where "i < length queue" "(queue ! i, y) \<in> dep_rel edges"
        by (auto simp: in_set_conv_nth)
      then show "y \<in> set queue" using 1(7) False 1(4) by auto
    qed
    then have "(dep_rel edges)\<^sup>* `` set queue \<subseteq> set queue"
      by (rule Image_closed_trancl [THEN equalityD1])
    moreover have "hd queue \<in> set queue" using 1(5) by simp
    ultimately show ?thesis
      using False 1 by (subst (1 2 3 4) bfs.simps) auto
  qed
qed

lemma cascade_ids_set:
  "set (cascade_ids jid d) = (dep_rel (job_dependencies d))\<^sup>+ `` {jid} - {jid}"
proof -
  let ?b = "bfs (job_dependencies d) [jid] {jid} 0"
  have b: "set ?b = (dep_rel (job_dependencies d))\<^sup>* `` {jid}" "distinct ?b" "hd ?b = jid" "?b \<noteq> []"
    using bfs_inv [of "[jid]" "{jid}" 0 "job_dependencies d"] by auto
  from b(2-4) have "set (tl ?b) = set ?b - {jid}" by (cases ?b) auto
  moreover have "R\<^sup>* `` {jid} - {jid} = R\<^sup>+ `` {jid} - {jid}" for R :: "(string \<times> string) set"
    unfolding Image_singleton by (rule set_eqI) (simp add: rtrancl_eq_or_trancl, blast)
  ultimately show ?thesis by (simp add: cascade_ids_def b(1))
qed

text \<open>The live jobs a cascade from \<open>jid\<close> takes down.\<close>

definition doomed :: "string \<Rightarrow> string option \<Rightarrow> db \<Rightarrow> job_row \<Rightarrow> bool" where
  "doomed jid ns d r \<longleftrightarrow> r_status r = status_code Pending \<and> in_scope ns r \<and> r_id r \<noteq> jid \<and>
     (jid, r_id r) \<in> (dep_rel (job_dependencies d))\<^sup>+"

definition cascade_effect :: "int \<Rightarrow> string \<Rightarrow> string \<Rightarrow> string option \<Rightarrow> db \<Rightarrow> db" where
  "cascade_effect now jid reason ns d =
     fold archive_effect (map (cancelled_row now (reason @ '': '' @ jid)) (filter (doomed jid ns d) (jobs d))) d"

lemma cascade_effect_jobs:
  assumes inv: "store_inv d"
  shows "jobs (cascade_effect now jid reason ns d) = filter (\<lambda>r. \<not> doomed jid ns d r) (jobs d)"
proof -
  let ?rows = "filter (doomed jid ns d) (jobs d)"
  have "r \<in> set ?rows \<longleftrightarrow> r_id r \<in> r_id ` set ?rows" if "r \<in> set (jobs d)" for r
    using find_row_live [OF inv] that by (auto simp: image_iff) (metis option.inject)+
  then show ?thesis
    unfolding cascade_effect_def fold_archive_sel delete_where_def
    by (intro filter_cong) (auto simp: image_image)
qed

lemma cascade_effect_archived:
  "archived_jobs (cascade_effect now jid reason ns d) = archived_jobs d @
     map (archived_of_row \<circ> cancelled_row now (reason @ '': '' @ jid)) (filter (doomed jid ns d) (jobs d))"
  by (simp add: cascade_effect_def fold_archive_sel(2))

lemma cascade_cancel_eq:
  assumes inv: "store_inv d"
  shows "cascade_cancel now jid reason ns d = (Inr (), cascade_effect now jid reason ns d)"
    and "keeps_store {} d (cascade_effect now jid reason ns d)"
proof -
  let ?q = "cascade_ids jid d" and ?e = "reason @ '': '' @ jid"
  let ?rows = "filter (doomed jid ns d) (jobs d)"
  have target: "cascade_target ?q ns = doomed jid ns d"
    by (auto simp: fun_eq_iff cascade_target_def cascade_ids_set doomed_def)
  have ok: "try_fold archive_job_row (map (cancelled_row now ?e) ?rows) d =
      Inr (cascade_effect now jid reason ns d)"
    using cancelled_rows_ok [OF inv distinct_live [OF inv], of "doomed jid ns d" now ?e]
    by (auto simp: cascade_effect_def doomed_def)
  show "keeps_store {} d (cascade_effect now jid reason ns d)"
    using cancelled_rows_ok [OF inv distinct_live [OF inv], of "doomed jid ns d" now ?e]
    by (auto simp: cascade_effect_def doomed_def)
  show "cascade_cancel now jid reason ns d = (Inr (), cascade_effect now jid reason ns d)"
  proof (cases "?q = []")
    case True
    then have "?rows = []" using target by (auto simp: fun_eq_iff cascade_target_def filter_empty_conv)
    then show ?thesis using True by (simp add: cascade_cancel_def cascade_effect_def)
  next
    case False
    then show ?thesis using ok by (simp add: cascade_cancel_def target write_transaction_def)
  qed
qed

text \<open>
  C13: cancelling the dependents of a job terminates on any dependency graph, cyclic or not, and
  archives as cancelled exactly the pending jobs in scope that depend on it directly or
  transitively, in one transaction that cannot fail; every other live job and every archived
  record is untouched.
\<close>

theorem cascade_cancel_correct:
  assumes "store_inv d"
  shows "\<exists>d'. cascade_cancel now jid reason ns d = (Inr (), d') \<and> store_inv d' \<and>
    jobs d' = filter (\<lambda>r. \<not> doomed jid ns d r) (jobs d) \<and>
    archived_jobs d' = archived_jobs d @
      map (archived_of_row \<circ> cancelled_row now (reason @ '': '' @ jid)) (filter (doomed jid ns d) (jobs d))"
  by (rule exI [of _ "cascade_effect now jid reason ns d"])
    (simp add: cascade_cancel_eq [OF assms] keeps_inv [OF cascade_cancel_eq(2) [OF assms]]
      cascade_effect_jobs [OF assms] cascade_effect_archived)

section \<open>Mass cancellation in batches\<close>

lemma filter_not_taken:
  assumes "distinct (map key xs)"
  shows "filter (\<lambda>x. key x \<notin> key ` set (take k xs)) xs = drop k xs"
proof -
  have "key ` set (take k xs) \<inter> key ` set (drop k xs) = {}"
    using assms append_take_drop_id [of k xs] by (metis distinct_append list.set_map map_append)
  then have "filter (\<lambda>x. key x \<notin> key ` set (take k xs)) (take k xs @ drop k xs) = drop k xs"
    unfolding filter_append by (auto simp: filter_empty_conv filter_id_conv)
  then show ?thesis by simp
qed

lemma filter_delete_where_comm:
  "filter P (delete_where Q xs) = delete_where Q (filter P xs)"
  by (auto simp: delete_where_def conj_commute)

lemma archive_batch_eq:
  fixes select :: "job_row \<Rightarrow> bool" and now :: int and e :: string
  assumes inv: "store_inv d"
  defines "rows \<equiv> take 500 (filter select (jobs d))"
    and "d' \<equiv> fold archive_effect (map (cancelled_row now e) (take 500 (filter select (jobs d)))) d"
  shows "archive_batch select now e d = Inr (length rows, d')" "keeps_store {} d d'"
    "filter select (jobs d') = drop 500 (filter select (jobs d))"
proof -
  have dist: "distinct (map r_id (filter select (jobs d)))" by (rule distinct_live [OF inv])
  then have "distinct (map r_id rows)" by (simp add: rows_def flip: take_map)
  moreover have "set rows \<subseteq> set (jobs d)" by (auto simp: rows_def dest!: in_set_takeD)
  ultimately have ok: "try_fold archive_job_row (map (cancelled_row now e) rows) d = Inr d'" "keeps_store {} d d'"
    using cancelled_rows_ok [OF inv, of rows now e] by (simp_all add: d'_def rows_def)
  show "keeps_store {} d d'" by (rule ok(2))
  show "archive_batch select now e d = Inr (length rows, d')"
    using ok(1) by (simp add: archive_batch_def archive_pending_rows_def sql_limit_def
        MASS_ARCHIVE_BATCH_def rows_def)
  show "filter select (jobs d') = drop 500 (filter select (jobs d))"
    using filter_not_taken [OF dist, of 500]
    by (simp add: d'_def fold_archive_sel filter_delete_where_comm image_image)
      (simp add: delete_where_def)
qed

text \<open>
  Cancelling a backlog in bounded transactions terminates and equals one sweep: it reports the
  number of matching jobs, archives exactly those as cancelled in table order, and leaves every
  other live job in place.
\<close>

lemma archive_pending_in_batches_correct:
  assumes "store_inv d"
  shows "\<exists>d'. archive_pending_in_batches select now e n d = (Inr (n + count_where select (jobs d)), d') \<and>
    store_inv d' \<and> jobs d' = filter (\<lambda>r. \<not> select r) (jobs d) \<and>
    archived_jobs d' = archived_jobs d @ map (archived_of_row \<circ> cancelled_row now e) (filter select (jobs d))"
  using assms
proof (induction select now e n d rule: archive_pending_in_batches.induct)
  case (1 select now e n d)
  define hits where "hits = filter select (jobs d)"
  define rows where "rows = take 500 hits"
  define d1 where "d1 = fold archive_effect (map (cancelled_row now e) rows) d"
  note defs = hits_def rows_def d1_def
  have batch: "archive_batch select now e d = Inr (length rows, d1)" "keeps_store {} d d1"
      "filter select (jobs d1) = drop 500 hits"
    unfolding defs by (fact archive_batch_eq [OF 1(2)])+
  have inv: "store_inv d1" by (rule keeps_inv [OF batch(2)])
  have step: "write_transaction (archive_batch select now e) d = (Inr (length rows), d1)"
    using batch(1) by (simp add: write_transaction_def)
  have live: "jobs d1 = filter (\<lambda>r. r_id r \<notin> r_id ` set rows) (jobs d)"
    by (simp add: d1_def fold_archive_sel image_image delete_where_def)
  have sub: "set rows \<subseteq> set (jobs d)" "\<forall>r \<in> set rows. select r"
    by (auto simp: rows_def hits_def dest!: in_set_takeD)
  have keep: "filter (\<lambda>r. \<not> select r) (jobs d1) = filter (\<lambda>r. \<not> select r) (jobs d)"
    unfolding live filter_filter
  proof (rule filter_cong [OF refl])
    fix r assume r: "r \<in> set (jobs d)"
    have "r \<in> set rows" if "r_id r \<in> r_id ` set rows"
    proof -
      from that obtain r' where "r' \<in> set rows" "r_id r = r_id r'" by blast
      with find_row_live [OF 1(2) r] find_row_live [OF 1(2), of r'] sub(1) show ?thesis by auto
    qed
    then show "(r_id r \<notin> r_id ` set rows \<and> \<not> select r) = (\<not> select r)" using sub(2) by blast
  qed
  have arch: "archived_jobs d1 = archived_jobs d @ map (archived_of_row \<circ> cancelled_row now e) rows"
    by (simp add: d1_def fold_archive_sel)
  show ?case
  proof (cases "length hits < 500")
    case True
    then have rows: "rows = hits" and "filter select (jobs d1) = []"
      using batch(3) by (simp_all add: rows_def)
    then have "filter (\<lambda>r. \<not> select r) (jobs d1) = jobs d1"
      by (simp add: filter_empty_conv filter_id_conv)
    with True show ?thesis
      using step keep arch inv rows
      by (subst archive_pending_in_batches.simps)
        (simp add: MASS_ARCHIVE_BATCH_def count_where_def hits_def)
  next
    case False
    then have full: "length rows = 500" and split: "hits = rows @ filter select (jobs d1)"
      using batch(3) by (simp_all add: rows_def)
    then have count: "count_where select (jobs d) = 500 + count_where select (jobs d1)"
      unfolding count_where_def hits_def [symmetric] by (metis length_append)
    obtain d' where d': "archive_pending_in_batches select now e (n + 500) d1 =
          (Inr (n + 500 + count_where select (jobs d1)), d')" "store_inv d'"
        "jobs d' = filter (\<lambda>r. \<not> select r) (jobs d1)"
        "archived_jobs d' = archived_jobs d1 @
           map (archived_of_row \<circ> cancelled_row now e) (filter select (jobs d1))"
      using 1(1) [OF step [symmetric] refl _ inv] full by (auto simp: MASS_ARCHIVE_BATCH_def)
    have "archived_jobs d' = archived_jobs d @ map (archived_of_row \<circ> cancelled_row now e) hits"
      unfolding split d'(4) arch by simp
    moreover have "archive_pending_in_batches select now e n d = (Inr (n + count_where select (jobs d)), d')"
      using step full d'(1) count
      by (subst archive_pending_in_batches.simps) (simp add: MASS_ARCHIVE_BATCH_def add.assoc)
    ultimately show ?thesis using d'(2,3) keep by (auto simp: hits_def)
  qed
qed

section \<open>Completion\<close>

lemma select_runningD:
  "select_running jid ns d = Some r \<Longrightarrow>
     r \<in> set (jobs d) \<and> r_id r = jid \<and> r_status r = status_code Running \<and> in_scope ns r"
  by (auto simp: select_running_def find_Some_iff)

lemma select_running_None_iff:
  "select_running jid ns d = None \<longleftrightarrow>
     \<not> (\<exists>r \<in> set (jobs d). r_id r = jid \<and> r_status r = status_code Running \<and> in_scope ns r)"
  by (auto simp: select_running_def find_None_iff)

lemma find_delete_where:
  "find P (delete_where Q xs) = find (\<lambda>x. P x \<and> \<not> Q x) xs"
  by (induction xs) (auto simp: delete_where_def)

lemma select_running_archive:
  "select_running jid ns (archive_effect row d) =
     (if jid = r_id row then None else select_running jid ns d)"
proof (cases "jid = r_id row")
  case True
  then show ?thesis by (auto simp: select_running_def find_delete_where find_None_iff)
next
  case False
  then have "(\<lambda>r. (r_id r = jid \<and> r_status r = status_code Running \<and> in_scope ns r) \<and> r_id r \<noteq> r_id row) =
      (\<lambda>r. r_id r = jid \<and> r_status r = status_code Running \<and> in_scope ns r)" by auto
  with False show ?thesis by (simp add: select_running_def find_delete_where)
qed

lemma complete_eq:
  assumes "store_inv d"
  shows "complete now jid res ns d =
    (case select_running jid ns d of
       None \<Rightarrow> (Inl (JobNotFound jid), d)
     | Some r \<Rightarrow> (Inr (), archive_effect (completed_row now res r) d))"
proof (cases "select_running jid ns d")
  case (Some r)
  then have "r_id (completed_row now res r) \<in> live_ids d"
    by (auto simp: live_ids_def dest: select_runningD)
  from archive_job_row_ok [OF assms this] Some show ?thesis
    by (simp add: complete_def complete_body_def write_transaction_def)
qed (simp add: complete_def complete_body_def write_transaction_def)

lemma get_job_archived_live:
  assumes "store_inv d" "r \<in> set (jobs d)" "r_id row = r_id r"
  shows "get_job (r_id r) ns (archive_effect row d) =
    (if job_in_namespace (r_namespace row) ns then Some (job_of_archived (archived_of_row row)) else None)"
proof -
  have "find_row a_id (r_id r) (archived_jobs d) = None"
    using assms by (auto simp: find_row_None_iff store_inv_def live_ids_def archived_ids_def)
  then show ?thesis
    by (simp add: get_job_def table_simps assms(3))
qed

lemma get_job_archive_other:
  "jid \<noteq> r_id row \<Longrightarrow> get_job jid ns (archive_effect row d) = get_job jid ns d"
  by (simp add: get_job_def table_simps split: option.splits)

text \<open>
  A completion succeeds exactly for a running job in the caller's scope, and otherwise reports
  \<open>JobNotFound\<close> and changes nothing. Afterwards the job reads back as complete with the
  given result, the clock reading and its own payload; its execution claim and its step memo
  are gone; every other job reads as before.
\<close>

lemma complete_correct:
  assumes inv: "store_inv d"
  shows "case complete now jid res ns d of
    (Inl e, d') \<Rightarrow> e = JobNotFound jid \<and> d' = d \<and>
      \<not> (\<exists>r \<in> set (jobs d). r_id r = jid \<and> r_status r = status_code Running \<and> in_scope ns r)
  | (Inr _, d') \<Rightarrow> store_inv d' \<and>
      (\<exists>r j. r \<in> set (jobs d) \<and> r_id r = jid \<and> r_status r = status_code Running \<and> in_scope ns r \<and>
         get_job jid ns d' = Some j \<and> j_status j = Complete \<and> j_result j = res \<and>
         j_completed_at j = Some now \<and> j_payload j = r_payload r) \<and>
      jid \<notin> c_job_id ` set (execution_claims d') \<and> jid \<notin> s_job_id ` set (job_steps d') \<and>
      (\<forall>jid' ns'. jid' \<noteq> jid \<longrightarrow> get_job jid' ns' d' = get_job jid' ns' d)"
proof (cases "select_running jid ns d")
  case None
  with select_running_None_iff [of jid ns d] show ?thesis by (simp add: complete_eq [OF inv])
next
  case (Some r)
  note r = select_runningD [OF Some]
  let ?row = "completed_row now res r"
  let ?d = "archive_effect ?row d"
  have "store_inv ?d"
    by (rule keeps_inv [OF keeps_archive [OF inv]]) (use r in \<open>auto simp: live_ids_def\<close>)
  moreover have "job_in_namespace (r_namespace ?row) ns"
    using r by (simp add: in_scope_def job_in_namespace_def split: option.splits)
  then have "get_job jid ns ?d = Some (job_of_archived (archived_of_row ?row))"
    using get_job_archived_live [OF inv, of r ?row ns] r by simp
  moreover have "j_status (job_of_archived (archived_of_row ?row)) = Complete"
      "j_result (job_of_archived (archived_of_row ?row)) = res"
      "j_completed_at (job_of_archived (archived_of_row ?row)) = Some now"
      "j_payload (job_of_archived (archived_of_row ?row)) = r_payload r"
    by (simp_all add: job_of_archived_def from_narrow_archived_def archived_of_row_def
        completed_row_def del: status_code.simps)
  moreover have "jid \<notin> c_job_id ` set (execution_claims ?d)" "jid \<notin> s_job_id ` set (job_steps ?d)"
    using r by (auto simp: set_delete_where)
  moreover have "\<forall>jid' ns'. jid' \<noteq> jid \<longrightarrow> get_job jid' ns' ?d = get_job jid' ns' d"
    using r by (simp add: get_job_archive_other)
  ultimately show ?thesis
    using Some r by (auto simp: complete_eq [OF inv])
qed

lemma complete_one_eq:
  assumes inv: "store_inv d" and fresh: "mid \<notin> m_id ` set (task_metrics d)"
  shows "complete_one now ns mid c d =
    (case select_running (k_job_id c) ns d of
       None \<Rightarrow> Inl (JobNotFound (k_job_id c))
     | Some r \<Rightarrow> Inr ((archive_effect (completed_row now (k_result c) r) d)\<lparr>task_metrics := task_metrics d @
         [\<lparr>m_id = mid, m_task_name = k_task_name c, m_job_id = k_job_id c,
           m_wall_time_ns = k_wall_time_ns c, m_memory_bytes = 0, m_succeeded = True,
           m_recorded_at = now, m_namespace = r_namespace r\<rparr>]\<rparr>))"
proof (cases "select_running (k_job_id c) ns d")
  case (Some r)
  then have "r_id (completed_row now (k_result c) r) \<in> live_ids d"
    by (auto simp: live_ids_def dest: select_runningD)
  from archive_job_row_ok [OF inv this] Some fresh show ?thesis
    by (simp add: complete_one_def insert_metric_def insert_row_def)
qed (simp add: complete_one_def)

definition batch_ok :: "string option \<Rightarrow> db \<Rightarrow> job_completion list \<Rightarrow> bool" where
  "batch_ok ns d cs \<longleftrightarrow> distinct (map k_job_id cs) \<and>
     list_all (\<lambda>c. select_running (k_job_id c) ns d \<noteq> None) cs"

definition completed_rows :: "int \<Rightarrow> string option \<Rightarrow> db \<Rightarrow> job_completion list \<Rightarrow> job_row list" where
  "completed_rows now ns d cs =
     map (\<lambda>c. completed_row now (k_result c) (the (select_running (k_job_id c) ns d))) cs"

lemma complete_fold:
  fixes now :: int and ns :: "string option"
  assumes "store_inv d" "distinct (map fst xs)" "fst ` set xs \<inter> m_id ` set (task_metrics d) = {}"
  defines "run \<equiv> try_fold (\<lambda>(mid, c). complete_one now ns mid c) xs d" and "cs \<equiv> map snd xs"
  shows "if batch_ok ns d cs
    then \<exists>d'. run = Inr d' \<and> keeps_store {} d d' \<and>
      jobs d' = delete_where (\<lambda>r. r_id r \<in> k_job_id ` set cs) (jobs d) \<and>
      archived_jobs d' = archived_jobs d @ map archived_of_row (completed_rows now ns d cs) \<and>
      map (\<lambda>m. (m_job_id m, m_task_name m, m_wall_time_ns m, m_succeeded m)) (task_metrics d') =
        map (\<lambda>m. (m_job_id m, m_task_name m, m_wall_time_ns m, m_succeeded m)) (task_metrics d) @
        map (\<lambda>c. (k_job_id c, k_task_name c, k_wall_time_ns c, True)) cs
    else \<exists>j \<in> k_job_id ` set cs. run = Inl (JobNotFound j)"
  using assms(1-3) unfolding run_def cs_def
proof (induction xs arbitrary: d)
  case Nil
  then show ?case by (simp add: batch_ok_def completed_rows_def keeps_refl delete_where_def)
next
  case (Cons x xs)
  obtain mid c where x: "x = (mid, c)" by (cases x)
  let ?run = "\<lambda>xs d. try_fold (\<lambda>(mid, c). complete_one now ns mid c) xs d"
  have fresh: "mid \<notin> m_id ` set (task_metrics d)" using Cons.prems(3) x by auto
  show ?case
  proof (cases "select_running (k_job_id c) ns d")
    case None
    then show ?thesis by (simp add: x batch_ok_def complete_one_eq [OF Cons.prems(1) fresh])
  next
    case (Some r)
    note r = select_runningD [OF Some]
    define m where "m = \<lparr>m_id = mid, m_task_name = k_task_name c, m_job_id = k_job_id c,
      m_wall_time_ns = k_wall_time_ns c, m_memory_bytes = 0, m_succeeded = True,
      m_recorded_at = now, m_namespace = r_namespace r\<rparr>"
    define d1 where "d1 = (archive_effect (completed_row now (k_result c) r) d)
      \<lparr>task_metrics := task_metrics d @ [m]\<rparr>"
    have step: "complete_one now ns mid c d = Inr d1"
      by (simp add: complete_one_eq [OF Cons.prems(1) fresh] Some d1_def m_def)
    have "r_id (completed_row now (k_result c) r) \<in> live_ids d"
      using imageI [of r "set (jobs d)" r_id] r by (simp add: live_ids_def)
    from keeps_archive [OF Cons.prems(1) this, of "{}"] have keep: "keeps_store {} d d1"
      by (simp add: d1_def)
    have sel: "select_running j ns d1 = (if j = k_job_id c then None else select_running j ns d)" for j
      using select_running_archive [of j ns "completed_row now (k_result c) r" d] r
      by (simp add: d1_def select_running_def)
    have sel': "select_running (k_job_id c') ns d1 = select_running (k_job_id c') ns d"
      if "c' \<in> set (map snd xs)" "k_job_id c \<notin> k_job_id ` set (map snd xs)" for c'
    proof -
      have "k_job_id c' \<noteq> k_job_id c" using that by (metis imageI)
      then show ?thesis by (simp add: sel)
    qed
    have fresh1: "fst ` set xs \<inter> m_id ` set (task_metrics d1) = {}"
      using Cons.prems(2,3) x by (auto simp: d1_def m_def)
    note IH = Cons.IH [OF keeps_inv [OF keep] _ fresh1]
    have jobs1: "jobs d1 = delete_where (\<lambda>r. r_id r = k_job_id c) (jobs d)"
        "archived_jobs d1 = archived_jobs d @ [archived_of_row (completed_row now (k_result c) r)]"
        "task_metrics d1 = task_metrics d @ [m]"
      using r by (simp_all add: d1_def)
    show ?thesis
    proof (cases "batch_ok ns d (c # map snd xs)")
      case True
      then have new: "k_job_id c \<notin> k_job_id ` set (map snd xs)"
        by (simp add: batch_ok_def image_image)
      have ok: "batch_ok ns d1 (map snd xs)"
        using True sel' [OF _ new] by (simp add: batch_ok_def list_all_iff)
      have rows: "completed_rows now ns d1 (map snd xs) = completed_rows now ns d (map snd xs)"
        using sel' [OF _ new] by (simp add: completed_rows_def)
      have dist: "distinct (map fst xs)" using Cons.prems(2) by simp
      obtain d' where d': "?run xs d1 = Inr d'" "keeps_store {} d1 d'"
          "jobs d' = delete_where (\<lambda>r. r_id r \<in> k_job_id ` set (map snd xs)) (jobs d1)"
          "archived_jobs d' = archived_jobs d1 @ map archived_of_row (completed_rows now ns d1 (map snd xs))"
          "map (\<lambda>m. (m_job_id m, m_task_name m, m_wall_time_ns m, m_succeeded m)) (task_metrics d') =
           map (\<lambda>m. (m_job_id m, m_task_name m, m_wall_time_ns m, m_succeeded m)) (task_metrics d1) @
           map (\<lambda>c. (k_job_id c, k_task_name c, k_wall_time_ns c, True)) (map snd xs)"
        using IH [OF dist] unfolding if_P [OF ok] by blast
      have "?run (x # xs) d = Inr d'" by (simp add: x step d'(1))
      moreover have "keeps_store {} d d'" by (rule keeps_trans [OF keep d'(2)])
      moreover have "jobs d' = delete_where (\<lambda>r. r_id r \<in> k_job_id ` set (map snd (x # xs))) (jobs d)"
        unfolding d'(3) jobs1 by (simp add: x)
      moreover have "archived_jobs d' = archived_jobs d @
          map archived_of_row (completed_rows now ns d (map snd (x # xs)))"
        unfolding d'(4) jobs1 rows by (simp add: x completed_rows_def Some)
      moreover have "map (\<lambda>m. (m_job_id m, m_task_name m, m_wall_time_ns m, m_succeeded m)) (task_metrics d') =
           map (\<lambda>m. (m_job_id m, m_task_name m, m_wall_time_ns m, m_succeeded m)) (task_metrics d) @
           map (\<lambda>c. (k_job_id c, k_task_name c, k_wall_time_ns c, True)) (map snd (x # xs))"
        unfolding d'(5) jobs1 by (simp add: x m_def)
      moreover have "batch_ok ns d (map snd (x # xs))" using True by (simp add: x)
      ultimately show ?thesis by (simp only: if_True simp_thms) blast
    next
      case False
      have "\<not> batch_ok ns d1 (map snd xs)"
      proof
        assume ok1: "batch_ok ns d1 (map snd xs)"
        then have new: "k_job_id c \<notin> k_job_id ` set (map snd xs)"
          by (auto simp: batch_ok_def list_all_iff sel)
        with ok1 sel' [OF _ new] Some have "batch_ok ns d (c # map snd xs)"
          by (simp add: batch_ok_def list_all_iff image_image)
        with False show "False" by simp
      qed
      with IH Cons.prems(2) have "\<exists>j \<in> k_job_id ` set (map snd xs). ?run xs d1 = Inl (JobNotFound j)"
        by simp
      with False show ?thesis by (auto simp: x step)
    qed
  qed
qed

text \<open>
  C12: a batch of completions is all or nothing. If its jobs are distinct, running and in scope it
  archives all of them as complete with their results, in order, and records one successful
  metric each; otherwise it names a job of the batch that is not and leaves the store unchanged.
\<close>

theorem complete_batch_correct:
  assumes inv: "store_inv d" and ids: "inj ids" "\<And>i. ids i \<notin> m_id ` set (task_metrics d)"
  shows "if batch_ok ns d cs
    then \<exists>d'. complete_batch ids now cs ns d = (Inr (), d') \<and> store_inv d' \<and>
      jobs d' = delete_where (\<lambda>r. r_id r \<in> k_job_id ` set cs) (jobs d) \<and>
      archived_jobs d' = archived_jobs d @ map archived_of_row (completed_rows now ns d cs) \<and>
      map (\<lambda>m. (m_job_id m, m_task_name m, m_wall_time_ns m, m_succeeded m)) (task_metrics d') =
        map (\<lambda>m. (m_job_id m, m_task_name m, m_wall_time_ns m, m_succeeded m)) (task_metrics d) @
        map (\<lambda>c. (k_job_id c, k_task_name c, k_wall_time_ns c, True)) cs
    else \<exists>j \<in> k_job_id ` set cs. complete_batch ids now cs ns d = (Inl (JobNotFound j), d)"
proof (cases "cs = []")
  case True
  then show ?thesis using inv by (simp add: batch_ok_def complete_batch_def completed_rows_def delete_where_def)
next
  case False
  define xs where "xs = map (\<lambda>(i, c). (ids i, c)) (enumerate 0 cs)"
  have fsts: "map fst xs = map ids [0..<length cs]"
    by (simp add: xs_def comp_def case_prod_unfold enumerate_eq_zip map_fst_zip
        flip: map_map [of ids fst, unfolded comp_def])
  have snds: "map snd xs = cs" by (simp add: xs_def comp_def case_prod_unfold)
  have dist: "distinct (map fst xs)"
    unfolding fsts using ids(1) by (auto simp: distinct_map inj_on_def)
  have "set (map fst xs) \<inter> m_id ` set (task_metrics d) = {}"
    unfolding fsts using ids(2) by auto
  then have fresh: "fst ` set xs \<inter> m_id ` set (task_metrics d) = {}" by simp
  have "try_fold (\<lambda>(i, c). complete_one now ns (ids i) c) (enumerate 0 cs) d =
      try_fold (\<lambda>(mid, c). complete_one now ns mid c) xs d"
    by (simp add: xs_def try_fold_map comp_def case_prod_unfold)
  with False have run: "complete_batch ids now cs ns d =
      write_transaction (\<lambda>d. and_then (try_fold (\<lambda>(i, c). complete_one now ns (ids i) c) (enumerate 0 cs) d)
        (\<lambda>d'. Inr ((), d'))) d"
    by (simp add: complete_batch_def)
  note spec = complete_fold [OF inv dist fresh, of ns now, unfolded snds
      \<open>try_fold (\<lambda>(i, c). complete_one now ns (ids i) c) (enumerate 0 cs) d = _\<close> [symmetric]]
  show ?thesis
  proof (cases "batch_ok ns d cs")
    case True
    then show ?thesis
      using spec unfolding run by (auto simp: write_transaction_def dest: keeps_inv)
  next
    case False
    then show ?thesis using spec unfolding run by (auto simp: write_transaction_def)
  qed
qed

section \<open>Retry\<close>

text \<open>
  A retry of a job in scope puts it back to pending at the given time with one more attempt
  counted, revokes its execution claim in the same transaction, and keeps its payload and its
  recorded steps; a retry of any other id reports \<open>JobNotFound\<close> and changes nothing.
\<close>

lemma retry_correct:
  assumes inv: "store_inv d"
  shows "case retry jid t ns d of
    (Inl e, d') \<Rightarrow> e = JobNotFound jid \<and> d' = d \<and> \<not> (\<exists>r \<in> set (jobs d). r_id r = jid \<and> in_scope ns r)
  | (Inr _, d') \<Rightarrow> store_inv d' \<and> jid \<notin> c_job_id ` set (execution_claims d') \<and> job_steps d' = job_steps d \<and>
      (\<exists>r r'. find_row r_id jid (jobs d) = Some r \<and> in_scope ns r \<and>
         find_row r_id jid (jobs d') = Some r' \<and> r_status r' = status_code Pending \<and>
         r_scheduled_at r' = t \<and> r_retry_count r' = r_retry_count r + 1 \<and>
         r_started_at r' = None \<and> r_payload r' = r_payload r)"
proof (cases "count_where (retry_target jid ns) (jobs d) = 0")
  case True
  then show ?thesis
    by (auto simp: retry_def write_transaction_def count_where_0_iff retry_target_def)
next
  case False
  let ?f = "\<lambda>r. (pending_again t r)\<lparr>r_retry_count := r_retry_count r + 1\<rparr>"
  let ?d = "d\<lparr>jobs := update_where (retry_target jid ns) ?f (jobs d)\<rparr>"
  from False obtain r where r: "r \<in> set (jobs d)" "r_id r = jid" "in_scope ns r"
    by (auto simp: count_where_0_iff retry_target_def)
  have found: "find_row r_id jid (jobs d) = Some r" using find_row_live [OF inv r(1)] r(2) by simp
  have "keeps_row ?f" by (simp add: keeps_row_def pending_again_def)
  from store_inv_update_jobs [OF inv this] have "store_inv (drop_claim jid ?d)"
    unfolding drop_claim_def by (rule store_inv_delete_claims)
  moreover have "find_row r_id jid (jobs (drop_claim jid ?d)) = Some (?f r)"
    using found r by (simp add: drop_claim_def find_row_update_where pending_again_def retry_target_def)
  moreover have "jid \<notin> c_job_id ` set (execution_claims (drop_claim jid ?d))"
    by (auto simp: drop_claim_def set_delete_where)
  ultimately show ?thesis
    using False found r(3)
    by (simp add: retry_def write_transaction_def pending_again_def drop_claim_def)
qed

section \<open>The life-cycle operations keep the store contract\<close>

lemma live_idI: "r \<in> set (jobs d) \<Longrightarrow> r_id r \<in> live_ids d"
  by (simp add: live_ids_def)

lemma keeps_archive_found:
  assumes "store_inv d" "r \<in> set (jobs d)" "r_id row = r_id r" "is_terminal_status (r_status row)"
    "archive_job_row row d = Inr d'"
  shows "keeps_store {} d d'"
  by (rule keeps_archive_job_row [OF assms(1,5)]) (use assms live_idI in auto)

lemma keeps_archive_as:
  assumes "store_inv d" "r \<in> set (jobs d)"
  shows "archive_job_row (completed_row now res r) d = Inr d' \<Longrightarrow> keeps_store {} d d'"
    "archive_job_row (failed_row now e r) d = Inr d' \<Longrightarrow> keeps_store {} d d'"
    "archive_job_row (cancelled_row now e r) d = Inr d' \<Longrightarrow> keeps_store {} d d'"
    "archive_job_row (r\<lparr>r_status := status_code Cancelled, r_completed_at := Some now\<rparr>) d = Inr d' \<Longrightarrow>
      keeps_store {} d d'"
  by (erule keeps_archive_found [OF assms, rotated 2]; simp)+

lemma find_SomeD: "find P xs = Some x \<Longrightarrow> x \<in> set xs \<and> P x"
  by (auto simp: find_Some_iff)

lemma keeps_complete: "store_inv d \<Longrightarrow> keeps_store {} d (snd (complete now jid res ns d))"
  unfolding complete_def
  by (rule keeps_transaction)
    (auto simp: complete_body_def and_then_Inr_iff split: option.splits
      intro: keeps_archive_as dest!: select_runningD)

lemma keeps_fail: "store_inv d \<Longrightarrow> keeps_store {} d (snd (fail now jid e d))"
  unfolding fail_def
  by (rule keeps_transaction)
    (auto simp: and_then_Inr_iff split: option.splits intro: keeps_archive_as dest!: select_runningD)

lemma keeps_mark_cancelled: "store_inv d \<Longrightarrow> keeps_store {} d (snd (mark_cancelled now jid ns d))"
  unfolding mark_cancelled_def
  by (rule keeps_transaction)
    (auto simp: and_then_Inr_iff split: option.splits if_splits
      intro: keeps_archive_as keeps_refl dest!: find_row_SomeD)

lemma keeps_complete_one:
  assumes "store_inv d" "complete_one now ns mid c d = Inr d'"
  shows "keeps_store {} d d'"
proof -
  obtain r d1 where r: "select_running (k_job_id c) ns d = Some r"
      and d1: "archive_job_row (completed_row now (k_result c) r) d = Inr d1"
      and d': "d' = d1\<lparr>task_metrics := task_metrics d'\<rparr>"
    using assms(2) by (auto simp: complete_one_def and_then_Inr_iff split: option.splits dest!: insert_metricD)
  have "keeps_store {} d d1"
    by (rule keeps_archive_found [OF assms(1) _ _ _ d1]) (use select_runningD [OF r] in auto)
  then show ?thesis by (subst d') simp
qed

lemma keeps_complete_batch: "store_inv d \<Longrightarrow> keeps_store {} d (snd (complete_batch ids now cs ns d))"
proof (cases "cs = []")
  case False
  assume inv: "store_inv d"
  let ?f = "\<lambda>(i, c). complete_one now ns (ids i) c"
  have "keeps_store {} d d'" if "try_fold ?f (enumerate 0 cs) d = Inr d'" for d'
    by (rule keeps_try_fold [OF inv that]) (auto intro: keeps_complete_one split: prod.splits)
  with False inv show ?thesis
    by (auto simp: complete_batch_def and_then_Inr_iff intro!: keeps_transaction)
qed (simp add: complete_batch_def keeps_refl)

lemma keeps_pending_again: "keeps_row (pending_again t)"
    "keeps_row (\<lambda>r. (pending_again t r)\<lparr>r_retry_count := r_retry_count r + 1\<rparr>)"
    "keeps_row (\<lambda>r. (pending_again t r)\<lparr>r_cancel_requested := 0\<rparr>)"
    "keeps_row (\<lambda>r. r\<lparr>r_cancel_requested := 1\<rparr>)" "keeps_row (\<lambda>r. r\<lparr>r_progress := Some p\<rparr>)"
  by (simp_all add: keeps_row_def pending_again_def)

lemma keeps_drop_claim: "keeps_store new d d' \<Longrightarrow> keeps_store new d (drop_claim jid d')"
  unfolding drop_claim_def by (rule keeps_delete_claims)

lemma keeps_retry: "store_inv d \<Longrightarrow> keeps_store {} d (snd (retry jid t ns d))"
  unfolding retry_def
  by (rule keeps_transaction)
    (auto split: if_splits intro!: keeps_drop_claim keeps_update_jobs keeps_pending_again)

lemma keeps_requeue_stuck: "store_inv d \<Longrightarrow> keeps_store {} d (snd (requeue_stuck jid now d))"
  unfolding requeue_stuck_def
  by (rule keeps_transaction)
    (auto split: if_splits intro!: keeps_drop_claim keeps_update_jobs keeps_pending_again keeps_refl)

lemma keeps_reschedule: "store_inv d \<Longrightarrow> keeps_store {} d (snd (reschedule jid t d))"
  by (auto simp: reschedule_def intro!: keeps_refl keeps_update_jobs keeps_pending_again)

lemma keeps_request_cancel: "store_inv d \<Longrightarrow> keeps_store {} d (snd (request_cancel jid ns d))"
  by (auto simp: request_cancel_def Let_def intro!: keeps_update_jobs keeps_pending_again)

lemma keeps_update_progress: "store_inv d \<Longrightarrow> keeps_store {} d (snd (update_progress jid p ns d))"
  by (auto simp: update_progress_def intro!: keeps_refl keeps_update_jobs keeps_pending_again)

lemma keeps_record_error: "store_inv d \<Longrightarrow> keeps_store {} d (snd (record_error u now jid a e ns d))"
  by (auto simp: record_error_def keeps_refl split: sum.splits dest!: insert_errorD)

lemma keeps_cascade_cancel:
  assumes "store_inv d"
  shows "keeps_store {} d (snd (cascade_cancel now jid reason ns d))"
proof -
  let ?rows = "filter (cascade_target (cascade_ids jid d) ns) (jobs d)"
  have "keeps_store {} d d'"
    if "try_fold archive_job_row (map (cancelled_row now e) ?rows) d = Inr d'" for d' e
    using cancelled_rows_ok [OF assms distinct_live [OF assms]] that by fastforce
  then show ?thesis
    by (auto simp: cascade_cancel_def Let_def keeps_refl assms and_then_Inr_iff intro!: keeps_transaction)
qed

lemma keeps_cancel_body:
  assumes "store_inv d" "cancel_body now jid ns d = Inr (a, d')"
  shows "keeps_store {} d d'"
proof (cases "find (\<lambda>r. r_id r = jid \<and> r_status r = status_code Pending) (jobs d)")
  case None
  then show ?thesis using assms by (auto simp: cancel_body_def intro: keeps_refl)
next
  case (Some row)
  have row: "row \<in> set (jobs d)" using find_SomeD [OF Some] by blast
  show ?thesis
    using assms Some keeps_archive_as(4) [OF assms(1) row]
    by (auto simp: cancel_body_def and_then_Inr_iff split: if_splits intro: keeps_refl)
qed

lemma keeps_cancel_job:
  assumes "store_inv d" shows "keeps_store {} d (snd (cancel_job now now' jid ns d))"
proof -
  have first: "keeps_store {} d (snd (write_transaction (cancel_body now jid ns) d))"
    by (rule keeps_transaction [OF assms keeps_cancel_body [OF assms]])
  obtain res d1 where run: "write_transaction (cancel_body now jid ns) d = (res, d1)" by fastforce
  then have d1: "keeps_store {} d d1" using first by simp
  have "keeps_store {} d (snd (cascade_cancel now' jid ''dependency cancelled'' ns d1))"
    by (rule keeps_trans [OF d1 keeps_cascade_cancel [OF keeps_inv [OF d1]]])
  with d1 run show ?thesis
    by (simp add: cancel_job_def case_prod_unfold Let_def split: sum.split bool.split)
qed

lemma keeps_archive_pending_in_batches:
  "store_inv d \<Longrightarrow> keeps_store {} d (snd (archive_pending_in_batches select now e n d))"
proof (induction select now e n d rule: archive_pending_in_batches.induct)
  case (1 select now e n d)
  let ?d = "fold archive_effect (map (cancelled_row now e) (take 500 (filter select (jobs d)))) d"
  have step: "write_transaction (archive_batch select now e) d =
      (Inr (length (take 500 (filter select (jobs d)))), ?d)"
    using archive_batch_eq(1) [OF 1(2), where select = select and now = now and e = e]
    by (simp add: write_transaction_def)
  have keep: "keeps_store {} d ?d" by (fact archive_batch_eq(2) [OF 1(2)])
  show ?case
    using 1(1) [OF step [symmetric] refl _ keeps_inv [OF keep]] keep step
    by (subst archive_pending_in_batches.simps) (auto intro: keeps_trans)
qed

section \<open>Concrete runs\<close>

definition running_db :: db where
  "running_db = sample_db [claimed_row 6 (sample_row ''a'' 0), sample_row ''b'' 5]"

lemma store_inv_running: "store_inv running_db"
  unfolding running_db_def
  by (rule store_inv_sample) (simp_all add: claimed_row_def)

lemma store_inv_hidden_parent: "store_inv hidden_parent"
  unfolding hidden_parent_def store_inv_frame by (rule store_inv_sample) simp_all

lemma hidden_parent_rows:
  "jobs hidden_parent = sample_row ''p'' 0 #
     map (\<lambda>c. (sample_row [c] 1)\<lparr>r_has_deps := True\<rparr>) ''abcd''"
  "archived_jobs hidden_parent = []" "dead_letter hidden_parent = []"
  by (simp_all add: hidden_parent_def sample_db_def)

lemma hidden_parent_doomed:
  "\<not> doomed ''p'' None hidden_parent (sample_row ''p'' 0)"
  "c \<in> set ''abcd'' \<Longrightarrow> doomed ''p'' None hidden_parent ((sample_row [c] 1)\<lparr>r_has_deps := True\<rparr>)"
proof -
  show "\<not> doomed ''p'' None hidden_parent (sample_row ''p'' 0)" by (simp add: doomed_def)
  assume c: "c \<in> set ''abcd''"
  then have "\<lparr>e_id = [c], e_job_id = [c], e_depends_on_job_id = ''p''\<rparr> \<in> set (job_dependencies hidden_parent)"
    by (auto simp: hidden_parent_def)
  then have "(''p'', [c]) \<in> (dep_rel (job_dependencies hidden_parent))\<^sup>+"
    by (force simp: dep_rel_def intro!: r_into_trancl)
  with c show "doomed ''p'' None hidden_parent ((sample_row [c] 1)\<lparr>r_has_deps := True\<rparr>)"
    by (auto simp: doomed_def in_scope_def)
qed

theorem cascade_cancel_correct_witness:
  "store_inv hidden_parent \<and> (\<exists>d'. cascade_cancel 9 ''p'' ''failed'' None hidden_parent = (Inr (), d') \<and>
     store_inv d' \<and> map r_id (jobs d') = [''p''] \<and> map a_id (archived_jobs d') = [''a'', ''b'', ''c'', ''d''])"
  using cascade_cancel_correct [OF store_inv_hidden_parent, of 9 "''p''" "''failed''" None]
  by (auto simp: store_inv_hidden_parent hidden_parent_rows hidden_parent_doomed)

theorem complete_batch_correct_witness:
  "let c = \<lparr>k_job_id = ''a'', k_result = None, k_task_name = ''t'', k_wall_time_ns = 3\<rparr>
   in batch_ok None running_db [c] \<and> (\<exists>d'. complete_batch (uuid_from ''m'') 9 [c] None running_db = (Inr (), d') \<and>
        map r_id (jobs d') = [''b''] \<and> map a_id (archived_jobs d') = [''a'']) \<and>
      complete_batch (uuid_from ''m'') 9 [c, c] None running_db = (Inl (JobNotFound ''a''), running_db)"
proof -
  let ?c = "\<lparr>k_job_id = ''a'', k_result = None, k_task_name = ''t'', k_wall_time_ns = 3\<rparr>"
  have sel: "select_running ''a'' None running_db = Some (claimed_row 6 (sample_row ''a'' 0))"
    by (simp add: select_running_def running_db_def sample_db_def in_scope_def)
  have ids: "inj (uuid_from ''m'')" "uuid_from ''m'' i \<notin> m_id ` set (task_metrics running_db)" for i
    by (auto simp: uuid_from_def inj_def running_db_def sample_db_def empty_db_def)
  have rows: "jobs running_db = [claimed_row 6 (sample_row ''a'' 0), sample_row ''b'' 5]"
      "archived_jobs running_db = []"
    by (simp_all add: running_db_def sample_db_def)
  show ?thesis
    using complete_batch_correct [OF store_inv_running ids, of None "[?c]" 9]
      complete_batch_correct [OF store_inv_running ids, of None "[?c, ?c]" 9]
    by (auto simp: batch_ok_def sel rows delete_where_def completed_rows_def)
qed

end
