(* ===== verification/Listing.thy ===== *)
theory Listing
  imports Lifecycle "HOL-Library.Product_Lexorder"
begin

text \<open>
  Reads over both job tables: per-status counts, offset listings, and keyset pagination with
  its opaque cursor (\<open>storage/diesel_common/jobs.rs\<close>, \<open>archival.rs\<close> and
  \<open>storage/cursor.rs\<close>).
\<close>

section \<open>Status counts\<close>

record queue_stats =
  q_pending :: int
  q_running :: int
  q_completed :: int
  q_failed :: int
  q_dead :: int
  q_cancelled :: int

definition default_stats :: queue_stats where
  "default_stats = \<lparr>q_pending = 0, q_running = 0, q_completed = 0, q_failed = 0, q_dead = 0,
     q_cancelled = 0\<rparr>"

definition set_status_count :: "int \<Rightarrow> int \<Rightarrow> queue_stats \<Rightarrow> queue_stats" where
  "set_status_count status n stats =
     (case from_i32 status of
        Some Pending \<Rightarrow> stats\<lparr>q_pending := n\<rparr>
      | Some Running \<Rightarrow> stats\<lparr>q_running := n\<rparr>
      | Some Complete \<Rightarrow> stats\<lparr>q_completed := n\<rparr>
      | Some Failed \<Rightarrow> stats\<lparr>q_failed := n\<rparr>
      | Some Dead \<Rightarrow> stats\<lparr>q_dead := n\<rparr>
      | Some Cancelled \<Rightarrow> stats\<lparr>q_cancelled := n\<rparr>
      | None \<Rightarrow> stats)"

definition apply_status_count :: "(int \<times> int) list \<Rightarrow> queue_stats \<Rightarrow> queue_stats" where
  "apply_status_count rows stats = fold (\<lambda>(status, n). set_status_count status n) rows stats"

text \<open>\<open>SELECT key, COUNT(id) ... GROUP BY key\<close>.\<close>

definition group_count :: "('r \<Rightarrow> 'k) \<Rightarrow> 'r list \<Rightarrow> ('k \<times> int) list" where
  "group_count key rows =
     map (\<lambda>k. (k, int (count_where (\<lambda>r. key r = k) rows))) (remdups (map key rows))"

definition arch_in_scope :: "string option \<Rightarrow> archived_row \<Rightarrow> bool" where
  "arch_in_scope namespace a = (case namespace of None \<Rightarrow> True | Some ns \<Rightarrow> a_namespace a = Some ns)"

definition stats :: "string option \<Rightarrow> db \<Rightarrow> queue_stats" where
  "stats namespace d =
     (let live_rows = group_count r_status (filter (in_scope namespace) (jobs d));
          archived_rows = group_count a_status (filter (arch_in_scope namespace) (archived_jobs d))
      in apply_status_count archived_rows (apply_status_count live_rows default_stats))"

definition stats_by_queue :: "string \<Rightarrow> string option \<Rightarrow> db \<Rightarrow> queue_stats" where
  "stats_by_queue queue_name namespace d =
     (let live_rows = group_count r_status
            (filter (\<lambda>r. r_queue r = queue_name \<and> in_scope namespace r) (jobs d));
          archived_rows = group_count a_status
            (filter (\<lambda>a. a_queue a = queue_name \<and> arch_in_scope namespace a) (archived_jobs d))
      in apply_status_count archived_rows (apply_status_count live_rows default_stats))"

definition entry_or_default :: "string \<Rightarrow> (string \<rightharpoonup> queue_stats) \<Rightarrow> queue_stats" where
  "entry_or_default queue m = (case m queue of Some s \<Rightarrow> s | None \<Rightarrow> default_stats)"

definition add_queue_count ::
    "(string \<times> int) \<times> int \<Rightarrow> (string \<rightharpoonup> queue_stats) \<Rightarrow> (string \<rightharpoonup> queue_stats)" where
  "add_queue_count row m = (case row of ((queue, status), n) \<Rightarrow>
     m(queue \<mapsto> set_status_count status n (entry_or_default queue m)))"

definition stats_all_queues :: "string option \<Rightarrow> db \<Rightarrow> (string \<rightharpoonup> queue_stats)" where
  "stats_all_queues namespace d =
     (let live_rows = group_count (\<lambda>r. (r_queue r, r_status r)) (filter (in_scope namespace) (jobs d));
          archived_rows = group_count (\<lambda>a. (a_queue a, a_status a))
            (filter (arch_in_scope namespace) (archived_jobs d))
      in fold add_queue_count (live_rows @ archived_rows) Map.empty)"

section \<open>Listings\<close>

text \<open>SQLite's \<open>LIKE\<close>: \<open>%\<close> is any run of characters, \<open>_\<close> any one, ASCII letters
  compare without case.\<close>

definition ascii_lower :: "char \<Rightarrow> nat" where
  "ascii_lower c = (let n = of_char c :: nat in if 65 \<le> n \<and> n \<le> 90 then n + 32 else n)"

fun sql_like :: "string \<Rightarrow> string \<Rightarrow> bool" where
  "sql_like [] s = (s = [])"
| "sql_like (p # ps) [] = (p = CHR ''%'' \<and> sql_like ps [])"
| "sql_like (p # ps) (c # s) =
     (if p = CHR ''%'' then sql_like ps (c # s) \<or> sql_like (p # ps) s
      else (p = CHR ''_'' \<or> ascii_lower p = ascii_lower c) \<and> sql_like ps s)"

record job_filter =
  f_status :: "int option"
  f_queue_name :: "string option"
  f_task_name :: "string option"
  f_metadata_like :: "string option"
  f_error_like :: "string option"
  f_created_after :: "int option"
  f_created_before :: "int option"
  f_namespace :: "string option"

definition is_if :: "'a option \<Rightarrow> ('a \<Rightarrow> bool) \<Rightarrow> bool" where
  "is_if opt P = (case opt of None \<Rightarrow> True | Some v \<Rightarrow> P v)"

definition like_column :: "string option \<Rightarrow> string \<Rightarrow> bool" where
  "like_column column m = (case column of None \<Rightarrow> False | Some s \<Rightarrow> sql_like (''%'' @ m @ ''%'') s)"

definition live_matches :: "job_filter \<Rightarrow> job_row \<Rightarrow> bool" where
  "live_matches f r \<longleftrightarrow>
     is_if (f_status f) (\<lambda>s. r_status r = s) \<and> is_if (f_queue_name f) (\<lambda>q. r_queue r = q) \<and>
     is_if (f_task_name f) (\<lambda>t. r_task_name r = t) \<and>
     is_if (f_metadata_like f) (like_column (r_metadata r)) \<and>
     is_if (f_error_like f) (like_column (r_error r)) \<and>
     is_if (f_created_after f) (\<lambda>t. t \<le> r_created_at r) \<and>
     is_if (f_created_before f) (\<lambda>t. r_created_at r \<le> t) \<and>
     is_if (f_namespace f) (\<lambda>ns. r_namespace r = Some ns)"

definition archived_matches :: "job_filter \<Rightarrow> archived_row \<Rightarrow> bool" where
  "archived_matches f a \<longleftrightarrow>
     is_if (f_status f) (\<lambda>s. a_status a = s) \<and> is_if (f_queue_name f) (\<lambda>q. a_queue a = q) \<and>
     is_if (f_task_name f) (\<lambda>t. a_task_name a = t) \<and>
     is_if (f_metadata_like f) (like_column (a_metadata a)) \<and>
     is_if (f_error_like f) (like_column (a_error a)) \<and>
     is_if (f_created_after f) (\<lambda>t. t \<le> a_created_at a) \<and>
     is_if (f_created_before f) (\<lambda>t. a_created_at a \<le> t) \<and>
     is_if (f_namespace f) (\<lambda>ns. a_namespace a = Some ns)"

definition list_live_filtered :: "job_filter \<Rightarrow> int \<Rightarrow> int \<Rightarrow> db \<Rightarrow> job list" where
  "list_live_filtered f limit offset d = map narrow_job (sql_limit limit (sql_offset offset
     (order_by (\<lambda>r r'. r_created_at r' \<le> r_created_at r) (filter (live_matches f) (jobs d)))))"

definition list_archived_filtered :: "job_filter \<Rightarrow> int \<Rightarrow> int \<Rightarrow> db \<Rightarrow> job list" where
  "list_archived_filtered f limit offset d = map from_narrow_archived (sql_limit limit (sql_offset offset
     (order_by (\<lambda>a a'. a_created_at a' \<le> a_created_at a) (filter (archived_matches f) (archived_jobs d)))))"

definition list_jobs_filtered :: "job_filter \<Rightarrow> int \<Rightarrow> int \<Rightarrow> db \<Rightarrow> job list" where
  "list_jobs_filtered f limit offset d =
     (case f_status f of
        Some s \<Rightarrow> if is_terminal_status s then list_archived_filtered f limit offset d
                  else list_live_filtered f limit offset d
      | None \<Rightarrow>
          (let n = max (saturating_add limit offset) 0;
               merged = order_by (\<lambda>j j'. j_created_at j' \<le> j_created_at j)
                 (list_live_filtered f n 0 d @ list_archived_filtered f n 0 d);
               start = min (nat (max offset 0)) (length merged);
               stop = min (start + nat (max limit 0)) (length merged)
           in take (stop - start) (drop start merged)))"

definition list_jobs ::
    "int option \<Rightarrow> string option \<Rightarrow> string option \<Rightarrow> int \<Rightarrow> int \<Rightarrow> string option \<Rightarrow> db \<Rightarrow> job list" where
  "list_jobs status queue_name task_name limit offset namespace d = list_jobs_filtered
     \<lparr>f_status = status, f_queue_name = queue_name, f_task_name = task_name, f_metadata_like = None,
      f_error_like = None, f_created_after = None, f_created_before = None, f_namespace = namespace\<rparr>
     limit offset d"

text \<open>Keyset listings page on \<open>(created_at, id)\<close>, newest first.\<close>

type_synonym cursor_key = "int \<times> string"

definition key_lt :: "cursor_key \<Rightarrow> cursor_key \<Rightarrow> bool" where
  "key_lt k k' \<longleftrightarrow> fst k < fst k' \<or> fst k = fst k' \<and> snd k < snd k'"

definition key_desc :: "('r \<Rightarrow> cursor_key) \<Rightarrow> 'r \<Rightarrow> 'r \<Rightarrow> bool" where
  "key_desc key r r' \<longleftrightarrow> \<not> key_lt (key r) (key r')"

definition before_cursor :: "cursor_key option \<Rightarrow> cursor_key \<Rightarrow> bool" where
  "before_cursor after k = (case after of None \<Rightarrow> True | Some c \<Rightarrow> key_lt k c)"

definition live_key :: "job_row \<Rightarrow> cursor_key" where
  "live_key r = (r_created_at r, r_id r)"

definition archived_key :: "archived_row \<Rightarrow> cursor_key" where
  "archived_key a = (a_created_at a, a_id a)"

definition job_key :: "job \<Rightarrow> cursor_key" where
  "job_key j = (j_created_at j, j_id j)"

definition list_live_filtered_after :: "job_filter \<Rightarrow> int \<Rightarrow> cursor_key option \<Rightarrow> db \<Rightarrow> job list" where
  "list_live_filtered_after f limit after d = map narrow_job (sql_limit limit (order_by (key_desc live_key)
     (filter (\<lambda>r. live_matches f r \<and> before_cursor after (live_key r)) (jobs d))))"

definition list_archived_filtered_after :: "job_filter \<Rightarrow> int \<Rightarrow> cursor_key option \<Rightarrow> db \<Rightarrow> job list" where
  "list_archived_filtered_after f limit after d = map from_narrow_archived (sql_limit limit
     (order_by (key_desc archived_key)
       (filter (\<lambda>a. archived_matches f a \<and> before_cursor after (archived_key a)) (archived_jobs d))))"

definition list_jobs_filtered_after :: "job_filter \<Rightarrow> int \<Rightarrow> cursor_key option \<Rightarrow> db \<Rightarrow> job list" where
  "list_jobs_filtered_after f limit after d =
     (if limit \<le> 0 then []
      else case f_status f of
        Some s \<Rightarrow> if is_terminal_status s then list_archived_filtered_after f limit after d
                  else list_live_filtered_after f limit after d
      | None \<Rightarrow> take (nat (max limit 0)) (order_by (key_desc job_key)
          (list_live_filtered_after f limit after d @ list_archived_filtered_after f limit after d)))"

definition list_jobs_after ::
    "int option \<Rightarrow> string option \<Rightarrow> string option \<Rightarrow> int \<Rightarrow> cursor_key option \<Rightarrow> string option \<Rightarrow> db \<Rightarrow> job list" where
  "list_jobs_after status queue_name task_name limit after namespace d = list_jobs_filtered_after
     \<lparr>f_status = status, f_queue_name = queue_name, f_task_name = task_name, f_metadata_like = None,
      f_error_like = None, f_created_after = None, f_created_before = None, f_namespace = namespace\<rparr>
     limit after d"

text \<open>Archive listings page on \<open>(completed_at, id)\<close>; SQLite sorts \<open>NULL\<close> below every value.\<close>

definition completed_desc :: "archived_row \<Rightarrow> archived_row \<Rightarrow> bool" where
  "completed_desc a a' =
     (case (a_completed_at a, a_completed_at a') of
        (_, None) \<Rightarrow> True | (None, Some _) \<Rightarrow> False | (Some t, Some t') \<Rightarrow> t' \<le> t)"

definition completed_id_desc :: "archived_row \<Rightarrow> archived_row \<Rightarrow> bool" where
  "completed_id_desc a a' =
     (case (a_completed_at a, a_completed_at a') of
        (None, None) \<Rightarrow> a_id a' \<le> a_id a | (Some _, None) \<Rightarrow> True | (None, Some _) \<Rightarrow> False
      | (Some t, Some t') \<Rightarrow> t' < t \<or> t = t' \<and> a_id a' \<le> a_id a)"

definition list_archived :: "int \<Rightarrow> int \<Rightarrow> string option \<Rightarrow> db \<Rightarrow> job list" where
  "list_archived limit offset namespace d = map from_narrow_archived (sql_limit limit (sql_offset offset
     (order_by completed_desc (filter (arch_in_scope namespace) (archived_jobs d)))))"

definition completed_before :: "cursor_key option \<Rightarrow> archived_row \<Rightarrow> bool" where
  "completed_before after a =
     (case (after, a_completed_at a) of
        (None, _) \<Rightarrow> True | (Some _, None) \<Rightarrow> False
      | (Some c, Some t) \<Rightarrow> t < fst c \<or> t = fst c \<and> a_id a < snd c)"

definition list_archived_after :: "int \<Rightarrow> cursor_key option \<Rightarrow> string option \<Rightarrow> db \<Rightarrow> job list" where
  "list_archived_after limit after namespace d =
     (if limit \<le> 0 then []
      else map from_narrow_archived (sql_limit limit (order_by completed_id_desc
        (filter (\<lambda>a. arch_in_scope namespace a \<and> completed_before after a) (archived_jobs d)))))"

section \<open>Cursors\<close>

definition encode_cursor :: "int \<Rightarrow> string \<Rightarrow> string" where
  "encode_cursor skey rid = string_of_int skey @ '':'' @ rid"

fun split_once :: "char \<Rightarrow> string \<Rightarrow> (string \<times> string) option" where
  "split_once c [] = None"
| "split_once c (x # xs) =
     (if x = c then Some ([], xs) else map_option (\<lambda>(a, b). (x # a, b)) (split_once c xs))"

text \<open>\<open>str::parse::<i64>\<close>: an optional sign, at least one digit, nothing else, in range.\<close>

definition digit_val :: "char \<Rightarrow> nat option" where
  "digit_val c = (let n = of_char c :: nat in if 48 \<le> n \<and> n \<le> 57 then Some (n - 48) else None)"

fun parse_digits :: "nat \<Rightarrow> string \<Rightarrow> nat option" where
  "parse_digits acc [] = Some acc"
| "parse_digits acc (c # cs) =
     (case digit_val c of None \<Rightarrow> None | Some n \<Rightarrow> parse_digits (10 * acc + n) cs)"

definition parse_i64 :: "string \<Rightarrow> int option" where
  "parse_i64 s =
     (let (neg, digits) = (case s of c # cs \<Rightarrow>
            if c = CHR ''-'' then (True, cs) else if c = CHR ''+'' then (False, cs) else (False, s)
          | [] \<Rightarrow> (False, []))
      in if digits = [] then None
         else case parse_digits 0 digits of
                None \<Rightarrow> None
              | Some n \<Rightarrow> (let i = (if neg then - int n else int n) in if is_i64 i then Some i else None))"

definition decode_cursor :: "string \<Rightarrow> cursor_key result" where
  "decode_cursor cursor =
     (let bad = Inl (Other (''invalid cursor: '' @ cursor))
      in case split_once CHR '':'' cursor of
           None \<Rightarrow> bad
         | Some (key, rid) \<Rightarrow>
             (case parse_i64 key of
                None \<Rightarrow> bad
              | Some skey \<Rightarrow> if skey < 0 \<or> rid = [] then bad else Inr (skey, rid)))"

definition next_cursor :: "'r list \<Rightarrow> int \<Rightarrow> ('r \<Rightarrow> cursor_key) \<Rightarrow> string option" where
  "next_cursor rows limit key =
     (if int (length rows) < limit then None
      else if rows = [] then None
      else Some (let (skey, rid) = key (last rows) in encode_cursor skey rid))"

record 'r page =
  items :: "'r list"
  page_next :: "string option"

definition page :: "'r list \<Rightarrow> int \<Rightarrow> ('r \<Rightarrow> cursor_key) \<Rightarrow> 'r page" where
  "page rows limit key = \<lparr>items = rows, page_next = next_cursor rows limit key\<rparr>"

section \<open>Sorted by a key, newest first\<close>

lemma key_lt_less: "key_lt k k' \<longleftrightarrow> k < k'"
  by (cases k; cases k') (auto simp: key_lt_def)

interpretation key_order: row_order "key_desc key" for key
  by unfold_locales (auto simp: key_desc_def key_lt_less)

definition newest_first :: "('r \<Rightarrow> cursor_key) \<Rightarrow> 'r list \<Rightarrow> bool" where
  "newest_first key xs \<longleftrightarrow> sorted_wrt (\<lambda>x y. key y < key x) xs"

lemma newest_first_filter: "newest_first key xs \<Longrightarrow> newest_first key (filter P xs)"
  unfolding newest_first_def by (rule sorted_wrt_filter)

lemma newest_first_distinct: "newest_first key xs \<Longrightarrow> distinct (map key xs)"
  unfolding newest_first_def by (induction xs) auto

lemma strict_if_distinct:
  "sorted_wrt (key_desc key) zs \<Longrightarrow> distinct (map key zs) \<Longrightarrow> sorted_wrt (\<lambda>x y. key y < key x) zs"
proof (induction zs)
  case (Cons z zs)
  have "key x < key z" if "x \<in> set zs" for x
  proof -
    have "key z \<notin> key ` set zs" using Cons.prems(2) by simp
    with that have "key x \<noteq> key z" by (metis imageI)
    moreover have "key x \<le> key z" using Cons.prems(1) that by (auto simp: key_desc_def key_lt_less)
    ultimately show ?thesis by simp
  qed
  then show ?case using Cons by simp
qed simp

lemma order_by_newest_first:
  assumes "distinct (map key xs)"
  shows "newest_first key (order_by (key_desc key) xs)"
proof -
  have "sorted_wrt (key_desc key) (order_by (key_desc key) xs)" by (rule key_order.sorted_order_by)
  moreover have "distinct (map key (order_by (key_desc key) xs))"
    using assms by (simp add: distinct_map_order_by)
  ultimately show ?thesis unfolding newest_first_def by (rule strict_if_distinct)
qed

lemma newest_first_unique:
  assumes "newest_first key xs" "newest_first key ys" "set xs = set ys"
  shows "xs = ys"
  using assms unfolding newest_first_def
proof (induction xs arbitrary: ys)
  case (Cons x xs)
  then obtain y ys' where ys: "ys = y # ys'" by (cases ys) auto
  have "x = y"
  proof (rule ccontr)
    assume "x \<noteq> y"
    with Cons.prems(3) ys have "x \<in> set ys'" "y \<in> set xs" by auto
    with Cons.prems(1,2) ys show False by (auto dest: less_asym)
  qed
  moreover have "x \<notin> set xs" "y \<notin> set ys'" using Cons.prems(1,2) ys by auto
  ultimately have "set xs = set ys'" using Cons.prems(3) ys by (metis insert_ident list.simps(15))
  with Cons.IH [of ys'] Cons.prems ys \<open>x = y\<close> show ?case by simp
qed simp

lemma last_is_least: "newest_first key xs \<Longrightarrow> r \<in> set xs \<Longrightarrow> \<not> key r < key (last xs)"
  unfolding newest_first_def
proof (induction xs)
  case (Cons x xs)
  then show ?case by (cases "xs = []") (auto dest: less_asym last_in_set)
qed simp

lemma order_by_eq_filter:
  assumes "newest_first key all" "distinct (map key xs)" "set xs \<subseteq> set all"
  shows "order_by (key_desc key) xs = filter (\<lambda>x. x \<in> set xs) all"
  by (rule newest_first_unique [of key])
    (use assms in \<open>auto simp: order_by_newest_first newest_first_filter\<close>)

lemma take_filter_subset: "x \<in> set (take n xs) \<Longrightarrow> P x \<Longrightarrow> x \<in> set (take n (filter P xs))"
proof (induction xs arbitrary: n)
  case (Cons y ys)
  show ?case
  proof (cases n)
    case (Suc m)
    have "x \<in> set (take m (filter P ys))" if "x \<noteq> y"
      using Cons.IH [of m] Cons.prems Suc that by simp
    moreover have "set (take m (filter P ys)) \<subseteq> set (take (Suc m) (filter P ys))"
      by (rule set_take_subset_set_take) simp
    ultimately show ?thesis using Cons.prems Suc by auto
  qed (use Cons.prems in simp)
qed simp

lemma take_filter_id:
  assumes "set (take n xs) \<subseteq> Collect P" shows "take n (filter P xs) = take n xs"
  using assms
proof (induction xs arbitrary: n)
  case (Cons y ys)
  then show ?case by (cases n) auto
qed simp

text \<open>Cutting both inputs to \<open>n\<close> before the merge loses nothing of the merged first \<open>n\<close>.\<close>

lemma merge_top:
  assumes "distinct (map key (xs @ ys))"
  shows "take n (order_by (key_desc key) (take n (order_by (key_desc key) xs) @ take n (order_by (key_desc key) ys))) =
    take n (order_by (key_desc key) (xs @ ys))"
proof -
  define all where "all = order_by (key_desc key) (xs @ ys)"
  have all: "newest_first key all" "set all = set xs \<union> set ys"
    using order_by_newest_first [OF assms] by (simp_all add: all_def)
  define T where "T = take n (order_by (key_desc key) xs) @ take n (order_by (key_desc key) ys)"
  have ord: "order_by (key_desc key) xs = filter (\<lambda>x. x \<in> set xs) all"
      "order_by (key_desc key) ys = filter (\<lambda>x. x \<in> set ys) all"
    by (rule order_by_eq_filter [OF all(1)]; use assms all(2) in auto)+
  have sub: "set T \<subseteq> set all" by (auto simp: T_def all(2) dest!: in_set_takeD)
  have "set (take n all) \<subseteq> set T"
  proof
    fix x assume "x \<in> set (take n all)"
    then show "x \<in> set T"
      using all(2) take_filter_subset [of x n all] in_set_takeD [of x n all] by (auto simp: T_def ord)
  qed
  moreover have "distinct (map key T)"
  proof -
    have "distinct (map key (take n (order_by (key_desc key) xs)))"
        "distinct (map key (take n (order_by (key_desc key) ys)))"
      using assms by (simp_all add: distinct_map_order_by flip: take_map)
    moreover have "key ` set xs \<inter> key ` set ys = {}" using assms by auto
    moreover have "key ` set (take n (order_by (key_desc key) xs)) \<subseteq> key ` set xs"
        "key ` set (take n (order_by (key_desc key) ys)) \<subseteq> key ` set ys"
      by (auto dest!: in_set_takeD)
    ultimately show ?thesis
      unfolding T_def map_append distinct_append set_map by blast
  qed
  ultimately show ?thesis
    unfolding all_def [symmetric] T_def [symmetric]
    by (subst order_by_eq_filter [OF all(1) _ sub]) (auto intro!: take_filter_id)
qed

lemma order_by_map:
  assumes "\<And>x y. le' (f x) (f y) = le x y"
  shows "order_by le' (map f xs) = map f (order_by le xs)"
proof -
  have "insert_by le' (f x) (map f ys) = map f (insert_by le x ys)" for x ys
    by (induction ys) (simp_all add: assms)
  then show ?thesis by (induction xs) simp_all
qed

section \<open>The keyset contract\<close>

text \<open>
  A keyset listing serves the page after a cursor of a fixed newest-first list. The client
  pages until a page comes back short; each cursor travels as a string.
\<close>

fun walk_pages ::
    "nat \<Rightarrow> (cursor_key option \<Rightarrow> 'r list) \<Rightarrow> int \<Rightarrow> ('r \<Rightarrow> cursor_key) \<Rightarrow> cursor_key option \<Rightarrow> 'r list" where
  "walk_pages 0 fetch limit key after = []"
| "walk_pages (Suc n) fetch limit key after =
     (let p = page (fetch after) limit key
      in items p @ (case page_next p of
           None \<Rightarrow> []
         | Some cursor \<Rightarrow> (case decode_cursor cursor of
              Inl _ \<Rightarrow> []
            | Inr k \<Rightarrow> walk_pages n fetch limit key (Some k))))"

lemma digit_val_char: "n < 10 \<Longrightarrow> digit_val (digit_char n) = Some n"
  by (simp add: digit_val_def Let_def)

lemma parse_digits_append:
  "parse_digits acc (xs @ ys) = (case parse_digits acc xs of None \<Rightarrow> None | Some a \<Rightarrow> parse_digits a ys)"
  by (induction xs arbitrary: acc) (auto split: option.splits)

lemma parse_string_of_nat: "parse_digits 0 (string_of_nat n) = Some n"
proof (induction n rule: string_of_nat.induct)
  case (1 n)
  show ?case
  proof (cases "n < 10")
    case True
    then show ?thesis by (subst string_of_nat.simps) (simp add: digit_val_char del: digit_char.simps)
  next
    case False
    with 1 show ?thesis
      by (subst string_of_nat.simps) (simp add: parse_digits_append digit_val_char del: digit_char.simps)
  qed
qed

lemma string_of_nat_digits:
  "string_of_nat n \<noteq> [] \<and> (\<forall>c \<in> set (string_of_nat n). \<exists>k < 10. c = digit_char k)"
proof (induction n rule: string_of_nat.induct)
  case (1 n)
  show ?case
  proof (cases "n < 10")
    case True
    then show ?thesis by (subst (1 2) string_of_nat.simps) auto
  next
    case False
    have "\<exists>k < 10. digit_char (n mod 10) = digit_char k" by (rule exI [of _ "n mod 10"]) simp
    with False 1 show ?thesis by (subst (1 2) string_of_nat.simps) (auto simp del: digit_char.simps)
  qed
qed

lemma digit_char_ne:
  assumes "k < 10" shows "digit_char k \<notin> {CHR '':'', CHR ''-'', CHR ''+''}"
proof -
  have "digit_val CHR '':'' = None" "digit_val CHR ''-'' = None" "digit_val CHR ''+'' = None"
    by (simp_all add: digit_val_def)
  with digit_val_char [OF assms] show ?thesis by (auto simp del: digit_char.simps)
qed

lemma split_once_append: "c \<notin> set xs \<Longrightarrow> split_once c (xs @ c # ys) = Some (xs, ys)"
  by (induction xs) auto

lemma parse_string_of_int:
  assumes "0 \<le> k" "is_i64 k" shows "parse_i64 (string_of_int k) = Some k"
proof -
  let ?s = "string_of_nat (nat k)"
  obtain c cs where s: "?s = c # cs" using string_of_nat_digits [of "nat k"] by (cases ?s) auto
  then obtain n where "n < 10" "c = digit_char n"
    using string_of_nat_digits [of "nat k"] by (metis list.set_intros(1))
  then have c: "c \<noteq> CHR ''-''" "c \<noteq> CHR ''+''" using digit_char_ne [of n] by auto
  have digits: "parse_digits 0 (c # cs) = Some (nat k)" using parse_string_of_nat [of "nat k"] s by simp
  have "string_of_int k = c # cs" using assms(1) s by (simp add: string_of_int_def)
  then show ?thesis
    unfolding parse_i64_def using c digits assms by (simp del: parse_digits.simps)
qed

lemma decode_encode:
  assumes "0 \<le> k" "is_i64 k" "rid \<noteq> []"
  shows "decode_cursor (encode_cursor k rid) = Inr (k, rid)"
proof -
  have "CHR '':'' \<notin> set (string_of_int k)"
    using string_of_nat_digits [of "nat k"] digit_char_ne assms(1) by (force simp: string_of_int_def)
  then show ?thesis
    using assms by (simp add: encode_cursor_def decode_cursor_def split_once_append parse_string_of_int)
qed

definition cursor_safe :: "cursor_key \<Rightarrow> bool" where
  "cursor_safe k \<longleftrightarrow> 0 \<le> fst k \<and> is_i64 (fst k) \<and> snd k \<noteq> []"

locale keyset_listing =
  fixes inv :: "'d \<Rightarrow> bool" and fetch :: "'d \<Rightarrow> int \<Rightarrow> cursor_key option \<Rightarrow> 'r list"
    and key :: "'r \<Rightarrow> cursor_key" and every :: "'d \<Rightarrow> 'r list"
  assumes every_sorted: "inv d \<Longrightarrow> newest_first key (every d)"
    and fetch_page: "inv d \<Longrightarrow> 0 < limit \<Longrightarrow>
      fetch d limit after = take (nat limit) (filter (\<lambda>r. before_cursor after (key r)) (every d))"
begin

lemma after_last:
  assumes "inv d" "0 < n" "n \<le> length rest" "rest = filter (\<lambda>r. before_cursor after (key r)) (every d)"
  shows "filter (\<lambda>r. before_cursor (Some (key (last (take n rest)))) (key r)) (every d) = drop n rest"
proof -
  define k where "k = key (last (take n rest))"
  have sorted: "newest_first key (take n rest @ drop n rest)"
    using every_sorted [OF assms(1)] newest_first_filter assms(4) by auto
  have ne: "take n rest \<noteq> []" using assms(2,3) by auto
  have low: "key r < k" if "r \<in> set (drop n rest)" for r
    using sorted that last_in_set [OF ne] unfolding k_def newest_first_def sorted_wrt_append by blast
  have high: "\<not> key r < k" if "r \<in> set (take n rest)" for r
    unfolding k_def by (rule last_is_least [OF _ that]) (use sorted in \<open>simp add: newest_first_def sorted_wrt_append\<close>)
  have "last (take n rest) \<in> set rest" using last_in_set [OF ne] by (rule in_set_takeD)
  then have last: "before_cursor after k" using assms(4) by (simp add: k_def)
  have "filter (\<lambda>r. key r < k) (every d) = filter (\<lambda>r. key r < k) rest"
    unfolding assms(4) filter_filter
    by (rule filter_cong)
      (use last in \<open>auto simp: before_cursor_def key_lt_less split: option.splits dest: less_trans\<close>)
  also have "\<dots> = filter (\<lambda>r. key r < k) (take n rest @ drop n rest)" by simp
  also have "\<dots> = drop n rest"
    unfolding filter_append using low high by (auto simp: filter_empty_conv filter_id_conv)
  finally show ?thesis by (simp add: before_cursor_def key_lt_less k_def)
qed

lemma walk_all:
  assumes "inv d" "0 < limit" "\<And>r. r \<in> set (every d) \<Longrightarrow> cursor_safe (key r)"
    "length (filter (\<lambda>r. before_cursor after (key r)) (every d)) < fuel"
  shows "walk_pages fuel (fetch d limit) limit key after =
    filter (\<lambda>r. before_cursor after (key r)) (every d)"
  using assms(4)
proof (induction fuel arbitrary: after)
  case (Suc fuel)
  define rest where "rest = filter (\<lambda>r. before_cursor after (key r)) (every d)"
  let ?rows = "take (nat limit) rest"
  have fetch: "fetch d limit after = ?rows" using fetch_page [OF assms(1,2)] by (simp add: rest_def)
  show ?case
  proof (cases "int (length rest) < limit")
    case True
    then show ?thesis
      unfolding rest_def [symmetric] using fetch by (simp add: page_def next_cursor_def)
  next
    case False
    then have n: "0 < nat limit" "nat limit \<le> length rest" using assms(2) by auto
    then have ne: "?rows \<noteq> []" by auto
    have "last ?rows \<in> set rest" using last_in_set [OF ne] by (rule in_set_takeD)
    then have "last ?rows \<in> set (every d)" by (simp add: rest_def)
    then have "cursor_safe (key (last ?rows))" by (rule assms(3))
    then have dec: "decode_cursor (case key (last ?rows) of (k, rid) \<Rightarrow> encode_cursor k rid) = Inr (key (last ?rows))"
      by (cases "key (last ?rows)") (simp add: cursor_safe_def decode_encode)
    have "next_cursor ?rows limit key = Some (case key (last ?rows) of (k, rid) \<Rightarrow> encode_cursor k rid)"
      using n ne assms(2) by (auto simp: next_cursor_def)
    moreover have "walk_pages fuel (fetch d limit) limit key (Some (key (last ?rows))) = drop (nat limit) rest"
      using Suc.IH [of "Some (key (last ?rows))"] after_last [OF assms(1) n rest_def] Suc.prems n
      by (simp add: rest_def)
    ultimately show ?thesis
      unfolding rest_def [symmetric] using fetch dec by (simp add: page_def)
  qed
qed simp

end

section \<open>Paging over both tables\<close>

definition all_jobs :: "job_filter \<Rightarrow> db \<Rightarrow> job list" where
  "all_jobs f d = order_by (key_desc job_key)
     (map narrow_job (filter (live_matches f) (jobs d)) @
      map from_narrow_archived (filter (archived_matches f) (archived_jobs d)))"

lemma job_key_narrow [simp]:
  "job_key (narrow_job r) = live_key r" "job_key (from_narrow_archived a) = archived_key a"
  by (simp_all add: job_key_def narrow_job_def from_narrow_def from_narrow_archived_def live_key_def
      archived_key_def)

lemma j_id_narrow [simp]:
  "j_id (narrow_job r) = r_id r" "j_id (from_narrow_archived a) = a_id a"
  by (simp_all add: narrow_job_def from_narrow_def from_narrow_archived_def)

lemma distinct_job_keys:
  assumes "store_inv d"
  shows "distinct (map job_key (map narrow_job (filter P (jobs d)) @
    map from_narrow_archived (filter Q (archived_jobs d))))"
proof -
  have "distinct (map r_id (filter P (jobs d)) @ map a_id (filter Q (archived_jobs d)))"
    using assms by (auto simp: store_inv_def live_ok_def archive_ok_def distinct_map_filter
        live_ids_def archived_ids_def)
  then have "distinct (map snd (map job_key (map narrow_job (filter P (jobs d)) @
      map from_narrow_archived (filter Q (archived_jobs d)))))"
    by (simp add: comp_def live_key_def archived_key_def)
  then show ?thesis by (rule distinct_map [THEN iffD1, THEN conjunct1])
qed

lemma list_live_after_eq:
  "0 < limit \<Longrightarrow> list_live_filtered_after f limit after d = take (nat limit) (order_by (key_desc job_key)
     (map narrow_job (filter (\<lambda>r. live_matches f r \<and> before_cursor after (live_key r)) (jobs d))))"
  by (simp add: list_live_filtered_after_def sql_limit_def take_map key_desc_def
      order_by_map [where le = "key_desc live_key"])

lemma list_archived_after_eq:
  "0 < limit \<Longrightarrow> list_archived_filtered_after f limit after d = take (nat limit) (order_by (key_desc job_key)
     (map from_narrow_archived
       (filter (\<lambda>a. archived_matches f a \<and> before_cursor after (archived_key a)) (archived_jobs d))))"
  by (simp add: list_archived_filtered_after_def sql_limit_def take_map key_desc_def
      order_by_map [where le = "key_desc archived_key"])

lemma status_tables:
  assumes "store_inv d" "f_status f = Some s"
  shows "is_terminal_status s \<Longrightarrow> filter (\<lambda>r. live_matches f r \<and> P r) (jobs d) = []"
    and "\<not> is_terminal_status s \<Longrightarrow> filter (\<lambda>a. archived_matches f a \<and> Q a) (archived_jobs d) = []"
  using assms live_status [OF assms(1)]
  by (force simp: filter_empty_conv live_matches_def archived_matches_def is_if_def store_inv_def archive_ok_def)+

lemma list_jobs_filtered_after_eq:
  assumes inv: "store_inv d" and limit: "0 < limit"
  shows "list_jobs_filtered_after f limit after d =
    take (nat limit) (filter (\<lambda>j. before_cursor after (job_key j)) (all_jobs f d))"
proof -
  define L where "L = map narrow_job (filter (\<lambda>r. live_matches f r \<and> before_cursor after (live_key r)) (jobs d))"
  define A where "A = map from_narrow_archived
    (filter (\<lambda>a. archived_matches f a \<and> before_cursor after (archived_key a)) (archived_jobs d))"
  have dist: "distinct (map job_key (L @ A))" unfolding L_def A_def by (rule distinct_job_keys [OF inv])
  have "filter (\<lambda>j. before_cursor after (job_key j)) (all_jobs f d) = order_by (key_desc job_key) (L @ A)"
  proof (rule newest_first_unique [of job_key])
    show "newest_first job_key (filter (\<lambda>j. before_cursor after (job_key j)) (all_jobs f d))"
      unfolding all_jobs_def
      by (rule newest_first_filter, rule order_by_newest_first, rule distinct_job_keys [OF inv])
    show "newest_first job_key (order_by (key_desc job_key) (L @ A))"
      by (rule order_by_newest_first [OF dist])
    show "set (filter (\<lambda>j. before_cursor after (job_key j)) (all_jobs f d)) =
        set (order_by (key_desc job_key) (L @ A))"
      by (auto simp: all_jobs_def L_def A_def)
  qed
  moreover have "list_jobs_filtered_after f limit after d = take (nat limit) (order_by (key_desc job_key) (L @ A))"
  proof (cases "f_status f")
    case None
    then show ?thesis
      using limit merge_top [OF dist, of "nat limit"]
      by (simp add: list_jobs_filtered_after_def list_live_after_eq list_archived_after_eq L_def A_def)
  next
    case (Some s)
    then show ?thesis
      using limit status_tables [OF inv Some]
      by (cases "is_terminal_status s")
        (simp_all add: list_jobs_filtered_after_def list_live_after_eq list_archived_after_eq L_def A_def)
  qed
  ultimately show ?thesis by simp
qed

interpretation job_pages: keyset_listing store_inv "\<lambda>d limit after. list_jobs_filtered_after f limit after d"
    job_key "all_jobs f" for f
  by unfold_locales
    (auto simp: list_jobs_filtered_after_eq all_jobs_def intro: order_by_newest_first distinct_job_keys)

text \<open>
  C28: following the cursors from the first page of a job listing until a page comes back short
  visits every matching job of the live and the archive table exactly once, newest first, for
  any page size and filter, although each table is cut to one page before the merge.
\<close>

theorem paging_visits_every_job_once:
  assumes "store_inv d" "0 < limit" "\<And>j. j \<in> set (all_jobs f d) \<Longrightarrow> cursor_safe (job_key j)"
  shows "walk_pages (Suc (length (all_jobs f d))) (\<lambda>after. list_jobs_filtered_after f limit after d)
      limit job_key None = all_jobs f d \<and>
    distinct (map j_id (all_jobs f d)) \<and> newest_first job_key (all_jobs f d) \<and>
    set (map j_id (all_jobs f d)) = {r_id r |r. r \<in> set (jobs d) \<and> live_matches f r} \<union>
      {a_id a |a. a \<in> set (archived_jobs d) \<and> archived_matches f a}"
proof -
  have "walk_pages (Suc (length (all_jobs f d))) (\<lambda>after. list_jobs_filtered_after f limit after d)
      limit job_key None = all_jobs f d"
    using job_pages.walk_all [OF assms(1,2), of f None "Suc (length (all_jobs f d))"] assms(3)
    by (simp add: before_cursor_def)
  moreover have "distinct (map j_id (all_jobs f d))"
  proof -
    have "distinct (map r_id (filter (live_matches f) (jobs d)) @
        map a_id (filter (archived_matches f) (archived_jobs d)))"
      using assms(1) by (auto simp: store_inv_def live_ok_def archive_ok_def distinct_map_filter
          live_ids_def archived_ids_def)
    then show ?thesis
      by (simp add: all_jobs_def distinct_map_order_by comp_def)
  qed
  moreover have "newest_first job_key (all_jobs f d)" by (rule job_pages.every_sorted [OF assms(1)])
  moreover have "set (map j_id (all_jobs f d)) = {r_id r |r. r \<in> set (jobs d) \<and> live_matches f r} \<union>
      {a_id a |a. a \<in> set (archived_jobs d) \<and> archived_matches f a}"
    by (simp add: all_jobs_def image_Un image_image) auto
  ultimately show ?thesis by blast
qed

text \<open>
  A cursor survives its trip through the client: decoding an encoded cursor gives back the sort
  key and the row id, for every non-negative 64-bit sort key and non-empty id, colons in the
  id included.
\<close>

lemma cursor_roundtrip:
  assumes "0 \<le> k" "is_i64 k" "rid \<noteq> []"
  shows "decode_cursor (encode_cursor k rid) = Inr (k, rid)"
  by (rule decode_encode [OF assms])

section \<open>Status counts are exact\<close>

fun stat_of :: "job_status \<Rightarrow> queue_stats \<Rightarrow> int" where
  "stat_of Pending s = q_pending s"
| "stat_of Running s = q_running s"
| "stat_of Complete s = q_completed s"
| "stat_of Failed s = q_failed s"
| "stat_of Dead s = q_dead s"
| "stat_of Cancelled s = q_cancelled s"

lemma stat_of_set:
  "stat_of s (set_status_count code n st) = (if code = status_code s then n else stat_of s st)"
proof (cases "from_i32 code")
  case None
  then show ?thesis by (auto simp: set_status_count_def simp del: status_code.simps)
next
  case (Some s')
  then have "code = status_code s'" by (rule from_i32_SomeD)
  with Some show ?thesis
    by (cases s; cases s') (simp_all add: set_status_count_def)
qed

lemma stat_of_default: "stat_of s default_stats = 0"
  by (cases s) (simp_all add: default_stats_def)

lemma stat_of_fold:
  "distinct (map fst rows) \<Longrightarrow> stat_of s (apply_status_count rows st) =
    (case map_of rows (status_code s) of Some n \<Rightarrow> n | None \<Rightarrow> stat_of s st)"
  unfolding apply_status_count_def
proof (induction rows arbitrary: st)
  case (Cons row rows)
  then show ?case
    by (cases row) (auto simp: stat_of_set map_of_eq_None_iff simp del: status_code.simps
        split: option.splits dest: map_of_SomeD intro: rev_image_eqI)
qed simp

lemma group_count_keys: "map fst (group_count key rows) = remdups (map key rows)"
  by (simp add: group_count_def comp_def)

lemma map_of_group_count:
  "map_of (group_count key rows) k =
    (if k \<in> key ` set rows then Some (int (count_where (\<lambda>r. key r = k) rows)) else None)"
  unfolding group_count_def by (auto simp: map_of_map_restrict restrict_map_def)

lemma count_where_0: "k \<notin> key ` set rows \<Longrightarrow> count_where (\<lambda>r. key r = k) rows = 0"
  by (auto simp: count_where_0_iff)

text \<open>A status lives in one table only, so one grouped count never overwrites the other.\<close>

lemma stats_of_tables:
  assumes live: "\<forall>r \<in> set live. \<not> is_terminal_status (r_status r)"
    and arch: "\<forall>a \<in> set arch. is_terminal_status (a_status a)"
  shows "stat_of s (apply_status_count (group_count a_status arch)
      (apply_status_count (group_count r_status live) default_stats)) =
    int (count_where (\<lambda>r. r_status r = status_code s) live + count_where (\<lambda>a. a_status a = status_code s) arch)"
proof -
  have "status_code s \<notin> r_status ` set live \<or> status_code s \<notin> a_status ` set arch"
    using live arch by (metis imageE)
  then show ?thesis
    using count_where_0 [of "status_code s" r_status live] count_where_0 [of "status_code s" a_status arch]
    by (auto simp: stat_of_fold group_count_keys map_of_group_count stat_of_default
        simp del: status_code.simps)
qed

lemma live_not_terminal:
  assumes "store_inv d"
  shows "\<forall>r \<in> set (filter P (jobs d)). \<not> is_terminal_status (r_status r)"
    and "\<forall>a \<in> set (filter Q (archived_jobs d)). is_terminal_status (a_status a)"
proof -
  have "\<not> is_terminal_status (r_status r)" if "r \<in> set (jobs d)" for r
    using live_status [OF assms that] by auto
  then show "\<forall>r \<in> set (filter P (jobs d)). \<not> is_terminal_status (r_status r)" by simp
  show "\<forall>a \<in> set (filter Q (archived_jobs d)). is_terminal_status (a_status a)"
    using assms by (simp add: store_inv_def archive_ok_def)
qed

lemma stat_of_add_queue_count:
  "stat_of s (entry_or_default q (add_queue_count (k, n) m)) =
    (if k = (q, status_code s) then n else stat_of s (entry_or_default q m))"
  by (cases k) (auto simp: add_queue_count_def entry_or_default_def stat_of_set simp del: status_code.simps)

lemma stat_of_queues_fold:
  "distinct (map fst rows) \<Longrightarrow> stat_of s (entry_or_default q (fold add_queue_count rows m)) =
    (case map_of rows (q, status_code s) of Some n \<Rightarrow> n | None \<Rightarrow> stat_of s (entry_or_default q m))"
proof (induction rows arbitrary: m)
  case (Cons row rows)
  obtain k n where row: "row = (k, n)" by (cases row)
  have "map_of rows k = None" using Cons.prems row by (simp add: map_of_eq_None_iff)
  with Cons show ?case
    by (auto simp: row stat_of_add_queue_count simp del: status_code.simps split: option.splits)
qed simp

lemma queues_of_tables:
  fixes live :: "job_row list" and arch :: "archived_row list"
  assumes live: "\<forall>r \<in> set live. \<not> is_terminal_status (r_status r)"
    and arch: "\<forall>a \<in> set arch. is_terminal_status (a_status a)"
  shows "stat_of s (entry_or_default q (fold add_queue_count
      (group_count (\<lambda>r. (r_queue r, r_status r)) live @ group_count (\<lambda>a. (a_queue a, a_status a)) arch) Map.empty)) =
    int (count_where (\<lambda>r. r_queue r = q \<and> r_status r = status_code s) live +
         count_where (\<lambda>a. a_queue a = q \<and> a_status a = status_code s) arch)"
proof -
  define k where "k = (q, status_code s)"
  define rl where "rl = (\<lambda>r :: job_row. (r_queue r, r_status r))"
  define al where "al = (\<lambda>a :: archived_row. (a_queue a, a_status a))"
  have dist: "distinct (map fst (group_count rl live))" "distinct (map fst (group_count al arch))"
    by (simp_all add: group_count_keys)
  have empty: "stat_of s (entry_or_default q Map.empty) = 0"
    by (simp add: entry_or_default_def stat_of_default)
  have "k \<notin> rl ` set live \<or> k \<notin> al ` set arch"
    using live arch unfolding k_def rl_def al_def by (metis (no_types, lifting) imageE prod.inject)
  moreover have "(case map_of (group_count al arch) k of Some n \<Rightarrow> n
      | None \<Rightarrow> (case map_of (group_count rl live) k of Some n \<Rightarrow> n | None \<Rightarrow> 0)) =
      int (count_where (\<lambda>r. rl r = k) live + count_where (\<lambda>a. al a = k) arch)"
    if "k \<notin> rl ` set live \<or> k \<notin> al ` set arch"
    using that count_where_0 [of k rl live] count_where_0 [of k al arch]
    unfolding map_of_group_count by (auto split: if_splits)
  ultimately show ?thesis
    unfolding rl_def [symmetric] al_def [symmetric] fold_append comp_def
      stat_of_queues_fold [OF dist(2)] stat_of_queues_fold [OF dist(1)] empty k_def [symmetric]
    by (simp add: k_def rl_def al_def del: status_code.simps)
qed

text \<open>
  The status counts of the whole queue, of one queue and of every queue are exact: for each
  status they equal the number of live and archived jobs in scope with that status, and the
  per-queue map agrees with the single-queue query.
\<close>

lemma stats_exact:
  assumes "store_inv d"
  shows "stat_of s (stats ns d) =
      int (count_where (\<lambda>r. in_scope ns r \<and> r_status r = status_code s) (jobs d) +
           count_where (\<lambda>a. arch_in_scope ns a \<and> a_status a = status_code s) (archived_jobs d)) \<and>
    stat_of s (stats_by_queue q ns d) =
      int (count_where (\<lambda>r. r_queue r = q \<and> in_scope ns r \<and> r_status r = status_code s) (jobs d) +
           count_where (\<lambda>a. a_queue a = q \<and> arch_in_scope ns a \<and> a_status a = status_code s) (archived_jobs d)) \<and>
    stat_of s (entry_or_default q (stats_all_queues ns d)) = stat_of s (stats_by_queue q ns d)"
proof -
  note tables = live_not_terminal [OF assms]
  have count: "count_where P (filter Q xs) = count_where (\<lambda>x. Q x \<and> P x) xs" for P Q and xs :: "'x list"
    by (simp add: count_where_def conj_commute)
  have one: "stat_of s (stats ns d) =
      int (count_where (\<lambda>r. in_scope ns r \<and> r_status r = status_code s) (jobs d) +
           count_where (\<lambda>a. arch_in_scope ns a \<and> a_status a = status_code s) (archived_jobs d))"
    unfolding stats_def Let_def stats_of_tables [OF tables] count ..
  have two: "stat_of s (stats_by_queue q ns d) =
      int (count_where (\<lambda>r. r_queue r = q \<and> in_scope ns r \<and> r_status r = status_code s) (jobs d) +
           count_where (\<lambda>a. a_queue a = q \<and> arch_in_scope ns a \<and> a_status a = status_code s) (archived_jobs d))"
    unfolding stats_by_queue_def Let_def stats_of_tables [OF tables] count by (simp only: conj_assoc)
  have three: "stat_of s (entry_or_default q (stats_all_queues ns d)) = stat_of s (stats_by_queue q ns d)"
    unfolding two stats_all_queues_def Let_def queues_of_tables [OF tables] count
    by (simp add: conj_ac del: status_code.simps)
  from one two three show ?thesis by blast
qed

section \<open>Concrete runs\<close>

definition any_job :: job_filter where
  "any_job = \<lparr>f_status = None, f_queue_name = None, f_task_name = None, f_metadata_like = None,
     f_error_like = None, f_created_after = None, f_created_before = None, f_namespace = None\<rparr>"

lemma any_job_matches [simp]: "live_matches any_job r" "archived_matches any_job a"
  by (simp_all add: any_job_def live_matches_def archived_matches_def is_if_def)

theorem paging_visits_every_job_once_witness:
  "map j_id (walk_pages 3 (\<lambda>after. list_jobs_filtered_after any_job 1 after two_jobs) 1 job_key None) =
     [''b'', ''a''] \<and> store_inv two_jobs"
proof -
  have rows: "jobs two_jobs = [sample_row ''a'' 0, sample_row ''b'' 5]" "archived_jobs two_jobs = []"
    by (simp_all add: two_jobs_def sample_db_def)
  have all: "all_jobs any_job two_jobs = [narrow_job (sample_row ''b'' 5), narrow_job (sample_row ''a'' 0)]"
    by (simp add: all_jobs_def rows key_desc_def key_lt_def live_key_def)
  have "cursor_safe (job_key j)" if "j \<in> set (all_jobs any_job two_jobs)" for j
    using that by (auto simp: all cursor_safe_def live_key_def is_i64_def i64_min_def i64_max_def)
  then have "walk_pages (Suc (length (all_jobs any_job two_jobs)))
      (\<lambda>after. list_jobs_filtered_after any_job 1 after two_jobs) 1 job_key None = all_jobs any_job two_jobs"
    using paging_visits_every_job_once [OF store_inv_two_jobs, of 1 any_job] by simp
  then show ?thesis by (simp add: all store_inv_two_jobs numeral_3_eq_3 del: walk_pages.simps)
qed

end
