(* ===== verification/Retention.thy ===== *)
theory Retention
  imports Lifecycle
begin

text \<open>
  The history tables and their retention: task metrics, task logs and replay entries
  (\<open>storage/diesel_common/metrics.rs\<close>, \<open>logs.rs\<close>), the shared drain loop of the
  batched purges (\<open>purge.rs\<close>), every purge built on it (\<open>jobs.rs\<close>,
  \<open>dead_letter.rs\<close>) and the read-only dry run (\<open>retention.rs\<close>). The locale
  \<open>purge_sweep\<close> is the contract between the drain loop and a batch: its lemmas are proved
  once and used by all seven sweeps.
\<close>

section \<open>Metrics, logs and replays\<close>

definition in_ns :: "string option \<Rightarrow> string option \<Rightarrow> bool" where
  "in_ns namespace column = (case namespace of None \<Rightarrow> True | Some ns \<Rightarrow> column = Some ns)"

definition opt_eq :: "'a option \<Rightarrow> 'a \<Rightarrow> bool" where
  "opt_eq wanted v = (case wanted of None \<Rightarrow> True | Some w \<Rightarrow> v = w)"

definition record_metric ::
    "string \<Rightarrow> int \<Rightarrow> string \<Rightarrow> string \<Rightarrow> int \<Rightarrow> int \<Rightarrow> bool \<Rightarrow> string option \<Rightarrow> db \<Rightarrow> unit result \<times> db" where
  "record_metric uid now task_name job_id wall_time_ns memory_bytes succeeded namespace d =
     (case insert_metric \<lparr>m_id = uid, m_task_name = task_name, m_job_id = job_id,
         m_wall_time_ns = wall_time_ns, m_memory_bytes = memory_bytes, m_succeeded = succeeded,
         m_recorded_at = now, m_namespace = namespace\<rparr> d of
        Inl e \<Rightarrow> (Inl e, d) | Inr d' \<Rightarrow> (Inr (), d'))"

definition get_metrics :: "string option \<Rightarrow> int \<Rightarrow> string option \<Rightarrow> db \<Rightarrow> metric_row list" where
  "get_metrics name since_ms namespace d =
     order_by (\<lambda>m m'. m_recorded_at m' \<le> m_recorded_at m)
       (filter (\<lambda>m. since_ms \<le> m_recorded_at m \<and> opt_eq name (m_task_name m) \<and>
          in_ns namespace (m_namespace m)) (task_metrics d))"

definition insert_replay :: "replay_row \<Rightarrow> db \<Rightarrow> db result" where
  "insert_replay row d =
     (case insert_row p_id row (replay_history d) of
        None \<Rightarrow> Inl (Storage UniqueViolation)
      | Some rows \<Rightarrow> Inr (d\<lparr>replay_history := rows\<rparr>))"

definition record_replay ::
    "string \<Rightarrow> int \<Rightarrow> string \<Rightarrow> string \<Rightarrow> bytes option \<Rightarrow> bytes option \<Rightarrow> string option \<Rightarrow>
     string option \<Rightarrow> db \<Rightarrow> unit result \<times> db" where
  "record_replay uid now original_job_id replay_job_id original_result replay_result
       original_error replay_error d =
     (case insert_replay \<lparr>p_id = uid, p_original_job_id = original_job_id,
         p_replay_job_id = replay_job_id, p_replayed_at = now, p_original_result = original_result,
         p_replay_result = replay_result, p_original_error = original_error,
         p_replay_error = replay_error\<rparr> d of
        Inl e \<Rightarrow> (Inl e, d) | Inr d' \<Rightarrow> (Inr (), d'))"

definition get_replay_history :: "string \<Rightarrow> db \<Rightarrow> replay_row list" where
  "get_replay_history original_job_id d =
     order_by (\<lambda>p p'. p_replayed_at p' \<le> p_replayed_at p)
       (filter (\<lambda>p. p_original_job_id p = original_job_id) (replay_history d))"

definition insert_log :: "log_row \<Rightarrow> db \<Rightarrow> db result" where
  "insert_log row d =
     (case insert_row g_id row (task_logs d) of
        None \<Rightarrow> Inl (Storage UniqueViolation)
      | Some rows \<Rightarrow> Inr (d\<lparr>task_logs := rows\<rparr>))"

definition write_task_log ::
    "string \<Rightarrow> int \<Rightarrow> string \<Rightarrow> string \<Rightarrow> string \<Rightarrow> string \<Rightarrow> string option \<Rightarrow> string option \<Rightarrow> db \<Rightarrow>
     unit result \<times> db" where
  "write_task_log uid now job_id task_name level message extra namespace d =
     (case insert_log \<lparr>g_id = uid, g_job_id = job_id, g_task_name = task_name, g_level = level,
         g_message = message, g_extra = extra, g_logged_at = now, g_namespace = namespace\<rparr> d of
        Inl e \<Rightarrow> (Inl e, d) | Inr d' \<Rightarrow> (Inr (), d'))"

definition get_task_logs :: "string \<Rightarrow> string option \<Rightarrow> db \<Rightarrow> log_row list" where
  "get_task_logs job_id namespace d =
     order_by (\<lambda>g g'. g_logged_at g \<le> g_logged_at g')
       (filter (\<lambda>g. g_job_id g = job_id \<and> in_ns namespace (g_namespace g)) (task_logs d))"

definition log_after :: "string option \<Rightarrow> log_row \<Rightarrow> bool" where
  "log_after after_id g = (case after_id of None \<Rightarrow> True | Some cursor \<Rightarrow> cursor < g_id g)"

definition get_task_logs_after ::
    "string \<Rightarrow> string option \<Rightarrow> string option \<Rightarrow> db \<Rightarrow> log_row list" where
  "get_task_logs_after job_id after_id namespace d =
     order_by (\<lambda>g g'. g_id g \<le> g_id g')
       (filter (\<lambda>g. g_job_id g = job_id \<and> in_ns namespace (g_namespace g) \<and> log_after after_id g)
          (task_logs d))"

definition query_task_logs ::
    "string option \<Rightarrow> string option \<Rightarrow> int \<Rightarrow> int \<Rightarrow> string option \<Rightarrow> db \<Rightarrow> log_row list" where
  "query_task_logs task_name level since_ms limit namespace d =
     sql_limit limit (order_by (\<lambda>g g'. g_logged_at g' \<le> g_logged_at g)
       (filter (\<lambda>g. since_ms \<le> g_logged_at g \<and> opt_eq task_name (g_task_name g) \<and>
          opt_eq level (g_level g) \<and> in_ns namespace (g_namespace g)) (task_logs d)))"

section \<open>The drain loop\<close>

definition PURGE_BATCH :: nat where
  "PURGE_BATCH = 500"

definition MAX_BATCHES_PER_SWEEP :: nat where
  "MAX_BATCHES_PER_SWEEP = 200"

fun drain_loop :: "nat \<Rightarrow> (db \<Rightarrow> nat result \<times> db) \<Rightarrow> nat \<Rightarrow> db \<Rightarrow> nat result \<times> db" where
  "drain_loop 0 delete_batch tot d = (Inr tot, d)"
| "drain_loop (Suc n) delete_batch tot d =
     (case delete_batch d of
        (Inl e, d') \<Rightarrow> (Inl e, d')
      | (Inr removed, d') \<Rightarrow>
          if removed < PURGE_BATCH then (Inr (tot + removed), d')
          else drain_loop n delete_batch (tot + removed) d')"

definition drain_batches :: "(db \<Rightarrow> nat result \<times> db) \<Rightarrow> db \<Rightarrow> nat result \<times> db" where
  "drain_batches delete_batch d = drain_loop MAX_BATCHES_PER_SWEEP delete_batch 0 d"

section \<open>Batches and purges\<close>

text \<open>The first \<open>PURGE_BATCH\<close> rows matching the filter, in row order: no purge orders its select.\<close>

definition batch_ids :: "('r \<Rightarrow> 'k) \<Rightarrow> ('r \<Rightarrow> bool) \<Rightarrow> 'r list \<Rightarrow> 'k list" where
  "batch_ids key P rows = map key (take PURGE_BATCH (filter P rows))"

definition purge_archived_id_batch :: "string list \<Rightarrow> bool \<Rightarrow> db \<Rightarrow> (nat \<times> db) result" where
  "purge_archived_id_batch ids cascade_diagnostics d =
     (if ids = [] then Inr (0, d)
      else
        let d1 = delete_job_relations ids d;
            d2 = (if cascade_diagnostics then delete_job_diagnostics ids d1 else d1)
        in Inr (count_where (\<lambda>a. a_id a \<in> set ids) (archived_jobs d2),
                d2\<lparr>archived_jobs := delete_where (\<lambda>a. a_id a \<in> set ids) (archived_jobs d2)\<rparr>))"

definition archived_batch :: "(archived_row \<Rightarrow> bool) \<Rightarrow> bool \<Rightarrow> db \<Rightarrow> nat result \<times> db" where
  "archived_batch P cascade_diagnostics d = write_transaction (\<lambda>d.
     purge_archived_id_batch (batch_ids a_id P (archived_jobs d)) cascade_diagnostics d) d"

definition older :: "int \<Rightarrow> int option \<Rightarrow> bool" where
  "older cutoff t = (case t of None \<Rightarrow> False | Some t \<Rightarrow> t < cutoff)"

definition completed_before :: "int \<Rightarrow> archived_row \<Rightarrow> bool" where
  "completed_before older_than_ms a \<longleftrightarrow>
     a_status a = status_code Complete \<and> older older_than_ms (a_completed_at a)"

definition purge_completed :: "int \<Rightarrow> db \<Rightarrow> nat result \<times> db" where
  "purge_completed older_than_ms d = drain_batches (archived_batch (completed_before older_than_ms) True) d"

definition archived_past_cutoff :: "int \<Rightarrow> archived_row \<Rightarrow> bool" where
  "archived_past_cutoff cutoff a \<longleftrightarrow> a_result_ttl_ms a = None \<and> older cutoff (a_completed_at a)"

definition archived_past_ttl :: "int \<Rightarrow> archived_row \<Rightarrow> bool" where
  "archived_past_ttl now a = (case (a_completed_at a, a_result_ttl_ms a) of
     (Some t, Some ttl) \<Rightarrow> t + ttl < now | _ \<Rightarrow> False)"

text \<open>Two sweeps, one after the other; the first one's error is the operation's.\<close>

definition two_sweeps ::
    "(db \<Rightarrow> nat result \<times> db) \<Rightarrow> (db \<Rightarrow> nat result \<times> db) \<Rightarrow> db \<Rightarrow> nat result \<times> db" where
  "two_sweeps sweep1 sweep2 d =
     (case sweep1 d of
        (Inl e, d1) \<Rightarrow> (Inl e, d1)
      | (Inr global, d1) \<Rightarrow>
          (case sweep2 d1 of
             (Inl e, d2) \<Rightarrow> (Inl e, d2)
           | (Inr per_entry, d2) \<Rightarrow> (Inr (global + per_entry), d2)))"

definition optional_sweep ::
    "'a option \<Rightarrow> ('a \<Rightarrow> db \<Rightarrow> nat result \<times> db) \<Rightarrow> db \<Rightarrow> nat result \<times> db" where
  "optional_sweep cutoff sweep d = (case cutoff of Some c \<Rightarrow> sweep c d | None \<Rightarrow> (Inr 0, d))"

definition purge_completed_with_ttl :: "int \<Rightarrow> int option \<Rightarrow> db \<Rightarrow> nat result \<times> db" where
  "purge_completed_with_ttl now global_cutoff_ms d =
     two_sweeps
       (optional_sweep global_cutoff_ms
          (\<lambda>cutoff. drain_batches (archived_batch (archived_past_cutoff cutoff) False)))
       (drain_batches (archived_batch (archived_past_ttl now) False)) d"

definition dead_batch :: "(dead_row \<Rightarrow> bool) \<Rightarrow> db \<Rightarrow> nat result \<times> db" where
  "dead_batch P d = write_transaction (\<lambda>d.
     let ids = batch_ids d_id P (dead_letter d)
     in Inr (count_where (\<lambda>r. d_id r \<in> set ids) (dead_letter d),
             d\<lparr>dead_letter := delete_where (\<lambda>r. d_id r \<in> set ids) (dead_letter d)\<rparr>)) d"

definition purge_dead :: "int \<Rightarrow> db \<Rightarrow> nat result \<times> db" where
  "purge_dead older_than_ms d = drain_batches (dead_batch (\<lambda>r. d_failed_at r < older_than_ms)) d"

definition dead_past_cutoff :: "int \<Rightarrow> dead_row \<Rightarrow> bool" where
  "dead_past_cutoff cutoff r \<longleftrightarrow> d_result_ttl_ms r = None \<and> d_failed_at r < cutoff"

definition dead_past_ttl :: "int \<Rightarrow> dead_row \<Rightarrow> bool" where
  "dead_past_ttl now r = (case d_result_ttl_ms r of
     Some ttl \<Rightarrow> d_failed_at r + ttl < now | None \<Rightarrow> False)"

definition purge_dead_with_ttl :: "int \<Rightarrow> int option \<Rightarrow> db \<Rightarrow> nat result \<times> db" where
  "purge_dead_with_ttl now global_cutoff_ms d =
     two_sweeps
       (optional_sweep global_cutoff_ms (\<lambda>cutoff. drain_batches (dead_batch (dead_past_cutoff cutoff))))
       (drain_batches (dead_batch (dead_past_ttl now))) d"

definition errors_batch :: "int \<Rightarrow> db \<Rightarrow> nat result \<times> db" where
  "errors_batch older_than_ms d = write_transaction (\<lambda>d.
     let ids = batch_ids x_id (\<lambda>x. x_failed_at x < older_than_ms) (job_errors d)
     in Inr (count_where (\<lambda>x. x_id x \<in> set ids) (job_errors d),
             d\<lparr>job_errors := delete_where (\<lambda>x. x_id x \<in> set ids) (job_errors d)\<rparr>)) d"

definition purge_job_errors :: "int \<Rightarrow> db \<Rightarrow> nat result \<times> db" where
  "purge_job_errors older_than_ms d = drain_batches (errors_batch older_than_ms) d"

definition metrics_batch :: "int \<Rightarrow> db \<Rightarrow> nat result \<times> db" where
  "metrics_batch older_than_ms d = write_transaction (\<lambda>d.
     let ids = batch_ids m_id (\<lambda>m. m_recorded_at m < older_than_ms) (task_metrics d)
     in Inr (count_where (\<lambda>m. m_id m \<in> set ids) (task_metrics d),
             d\<lparr>task_metrics := delete_where (\<lambda>m. m_id m \<in> set ids) (task_metrics d)\<rparr>)) d"

definition purge_metrics :: "int \<Rightarrow> db \<Rightarrow> nat result \<times> db" where
  "purge_metrics older_than_ms d = drain_batches (metrics_batch older_than_ms) d"

definition logs_batch :: "int \<Rightarrow> db \<Rightarrow> nat result \<times> db" where
  "logs_batch older_than_ms d = write_transaction (\<lambda>d.
     let ids = batch_ids g_id (\<lambda>g. g_logged_at g < older_than_ms) (task_logs d)
     in Inr (count_where (\<lambda>g. g_id g \<in> set ids) (task_logs d),
             d\<lparr>task_logs := delete_where (\<lambda>g. g_id g \<in> set ids) (task_logs d)\<rparr>)) d"

definition purge_task_logs :: "int \<Rightarrow> db \<Rightarrow> nat result \<times> db" where
  "purge_task_logs older_than_ms d = drain_batches (logs_batch older_than_ms) d"

section \<open>The dry run\<close>

record retention_cutoffs =
  rc_archived_jobs :: "int option"
  rc_dead_letter :: "int option"
  rc_task_logs :: "int option"
  rc_task_metrics :: "int option"
  rc_job_errors :: "int option"

record retention_counts =
  rn_archived_jobs :: nat
  rn_dead_letter :: nat
  rn_task_logs :: nat
  rn_task_metrics :: nat
  rn_job_errors :: nat

definition total_rows :: "retention_counts \<Rightarrow> nat" where
  "total_rows c = rn_archived_jobs c + rn_dead_letter c + rn_task_logs c + rn_task_metrics c + rn_job_errors c"

definition count_past :: "'a option \<Rightarrow> ('a \<Rightarrow> 'r \<Rightarrow> bool) \<Rightarrow> 'r list \<Rightarrow> nat" where
  "count_past cutoff P rows = (case cutoff of Some c \<Rightarrow> count_where (P c) rows | None \<Rightarrow> 0)"

definition count_expired_rows :: "retention_cutoffs \<Rightarrow> int \<Rightarrow> db \<Rightarrow> retention_counts" where
  "count_expired_rows cutoffs now d = \<lparr>
     rn_archived_jobs = count_past (rc_archived_jobs cutoffs) archived_past_cutoff (archived_jobs d) +
       count_where (archived_past_ttl now) (archived_jobs d),
     rn_dead_letter = count_past (rc_dead_letter cutoffs) dead_past_cutoff (dead_letter d) +
       count_where (dead_past_ttl now) (dead_letter d),
     rn_task_logs = count_past (rc_task_logs cutoffs) (\<lambda>c g. g_logged_at g < c) (task_logs d),
     rn_task_metrics = count_past (rc_task_metrics cutoffs) (\<lambda>c m. m_recorded_at m < c) (task_metrics d),
     rn_job_errors = count_past (rc_job_errors cutoffs) (\<lambda>c x. x_failed_at x < c) (job_errors d)\<rparr>"

section \<open>Retention windows\<close>

record retention_config =
  archived_jobs_ttl_ms :: "int option"
  dead_letter_ttl_ms :: "int option"
  task_logs_ttl_ms :: "int option"
  task_metrics_ttl_ms :: "int option"
  job_errors_ttl_ms :: "int option"

definition DAY_MS :: int where
  "DAY_MS = 86400000"

definition uniform :: "int \<Rightarrow> retention_config" where
  "uniform ttl_ms = \<lparr>archived_jobs_ttl_ms = Some ttl_ms, dead_letter_ttl_ms = Some ttl_ms,
     task_logs_ttl_ms = Some ttl_ms, task_metrics_ttl_ms = Some ttl_ms,
     job_errors_ttl_ms = Some ttl_ms\<rparr>"

definition recommended :: retention_config where
  "recommended = \<lparr>archived_jobs_ttl_ms = Some (7 * DAY_MS), dead_letter_ttl_ms = Some (30 * DAY_MS),
     task_logs_ttl_ms = Some (3 * DAY_MS), task_metrics_ttl_ms = Some (7 * DAY_MS),
     job_errors_ttl_ms = Some (7 * DAY_MS)\<rparr>"

definition no_retention :: retention_config where
  "no_retention = \<lparr>archived_jobs_ttl_ms = None, dead_letter_ttl_ms = None, task_logs_ttl_ms = None,
     task_metrics_ttl_ms = None, job_errors_ttl_ms = None\<rparr>"

definition is_empty_config :: "retention_config \<Rightarrow> bool" where
  "is_empty_config c \<longleftrightarrow> c = no_retention"

definition keep_window :: "int option \<Rightarrow> int option" where
  "keep_window ttl = (case ttl of Some t \<Rightarrow> if 0 \<le> t then Some t else None | None \<Rightarrow> None)"

definition sanitized :: "retention_config \<Rightarrow> retention_config" where
  "sanitized c = \<lparr>
     archived_jobs_ttl_ms = keep_window (archived_jobs_ttl_ms c),
     dead_letter_ttl_ms = keep_window (dead_letter_ttl_ms c),
     task_logs_ttl_ms = keep_window (task_logs_ttl_ms c),
     task_metrics_ttl_ms = keep_window (task_metrics_ttl_ms c),
     job_errors_ttl_ms = keep_window (job_errors_ttl_ms c)\<rparr>"

definition cutoff :: "int \<Rightarrow> int option \<Rightarrow> int option" where
  "cutoff now ttl = map_option (saturating_sub now) ttl"

definition cutoffs :: "retention_config \<Rightarrow> int \<Rightarrow> retention_cutoffs" where
  "cutoffs c now = (let s = sanitized c in \<lparr>
     rc_archived_jobs = cutoff now (archived_jobs_ttl_ms s),
     rc_dead_letter = cutoff now (dead_letter_ttl_ms s),
     rc_task_logs = cutoff now (task_logs_ttl_ms s),
     rc_task_metrics = cutoff now (task_metrics_ttl_ms s),
     rc_job_errors = cutoff now (job_errors_ttl_ms s)\<rparr>)"

definition resolve_effective_retention :: "retention_config option \<Rightarrow> int option \<Rightarrow> retention_config" where
  "resolve_effective_retention retention result_ttl_ms =
     (case retention of
        Some r \<Rightarrow> sanitized r
      | None \<Rightarrow>
          (case result_ttl_ms of
             Some ttl \<Rightarrow> if 0 \<le> ttl then uniform ttl else no_retention
           | None \<Rightarrow> recommended))"

definition is_retention_defaulted :: "retention_config option \<Rightarrow> int option \<Rightarrow> bool" where
  "is_retention_defaulted retention result_ttl_ms \<longleftrightarrow> retention = None \<and> result_ttl_ms = None"

section \<open>The contract of a purge sweep\<close>

lemma filter_without_batch:
  assumes "distinct (map key rows)"
  shows "filter P (delete_where (\<lambda>r. key r \<in> set (map key (take n (filter P rows)))) rows) =
    drop n (filter P rows)"
proof -
  let ?F = "filter P rows"
  have dist: "distinct (map key (take n ?F) @ map key (drop n ?F))"
    using assms by (metis append_take_drop_id distinct_map_filter map_append)
  have "filter P (delete_where (\<lambda>r. key r \<in> set (map key (take n ?F))) rows) =
      filter (\<lambda>r. key r \<notin> set (map key (take n ?F))) (take n ?F @ drop n ?F)"
    by (simp add: delete_where_def conj_commute)
  also have "\<dots> = drop n ?F"
    unfolding filter_append using dist by (auto simp: filter_empty_conv filter_id_conv)
  finally show ?thesis .
qed

lemma count_in_batch:
  assumes "distinct (map key rows)"
  shows "count_where (\<lambda>r. key r \<in> set (map key (take n (filter P rows)))) rows =
    min n (count_where P rows)"
proof -
  let ?T = "take n (filter P rows)"
  have d: "distinct (map key ?T)"
    using assms by (metis distinct_map_filter distinct_take take_map)
  have sub: "set ?T \<subseteq> set rows" by (auto dest: in_set_takeD)
  have "r \<in> set ?T" if "r \<in> set rows" "key r \<in> key ` set ?T" for r
    using that sub assms by (auto simp: distinct_map) (metis inj_onD subsetD)
  then have "set (filter (\<lambda>r. key r \<in> set (map key ?T)) rows) = set ?T"
    using sub by auto
  moreover have "distinct (filter (\<lambda>r. key r \<in> set (map key ?T)) rows)" "distinct ?T"
    using assms d by (auto simp: distinct_map)
  ultimately have "length (filter (\<lambda>r. key r \<in> set (map key ?T)) rows) = length ?T"
    by (metis distinct_card)
  then show ?thesis by (simp add: count_where_def min.commute)
qed

text \<open>
  A batch deletes the rows of the ids it selected, whatever else it deletes with them, and
  deleting two id lists in turn is deleting their concatenation.
\<close>

locale purge_sweep =
  fixes inv :: "db \<Rightarrow> bool" and rows :: "db \<Rightarrow> 'r list" and key :: "'r \<Rightarrow> string"
    and P :: "'r \<Rightarrow> bool" and effect :: "string list \<Rightarrow> db \<Rightarrow> db"
    and batch :: "db \<Rightarrow> nat result \<times> db"
  assumes effect_append: "effect (xs @ ys) d = effect ys (effect xs d)"
    and effect_rows: "rows (effect ids d) = delete_where (\<lambda>r. key r \<in> set ids) (rows d)"
    and effect_inv: "inv d \<Longrightarrow> inv (effect ids d)"
    and keys: "inv d \<Longrightarrow> distinct (map key (rows d))"
    and effect_nil: "effect [] d = d"
    and batch_step: "inv d \<Longrightarrow>
      batch d = (Inr (min PURGE_BATCH (count_where P (rows d))), effect (batch_ids key P (rows d)) d)"
begin

lemma drain_loop_exact:
  "inv d \<Longrightarrow> drain_loop n batch tot d =
    (Inr (tot + min (n * PURGE_BATCH) (count_where P (rows d))),
     effect (map key (take (n * PURGE_BATCH) (filter P (rows d)))) d)"
proof (induction n arbitrary: tot d)
  case 0
  then show ?case by (simp add: effect_nil)
next
  case (Suc n)
  let ?F = "filter P (rows d)"
  define d1 where "d1 = effect (batch_ids key P (rows d)) d"
  have step: "batch d = (Inr (min PURGE_BATCH (length ?F)), d1)"
    using batch_step [OF Suc.prems] by (simp add: d1_def count_where_def)
  have rest: "filter P (rows d1) = drop PURGE_BATCH ?F"
    unfolding d1_def effect_rows batch_ids_def by (rule filter_without_batch [OF keys [OF Suc.prems]])
  show ?case
  proof (cases "length ?F < PURGE_BATCH")
    case True
    then have "batch_ids key P (rows d) = map key (take (Suc n * PURGE_BATCH) ?F)"
      by (simp add: batch_ids_def)
    with True step show ?thesis by (simp add: d1_def count_where_def)
  next
    case False
    have "drain_loop n batch (tot + PURGE_BATCH) d1 =
        (Inr (tot + PURGE_BATCH + min (n * PURGE_BATCH) (length (drop PURGE_BATCH ?F))),
         effect (map key (take (n * PURGE_BATCH) (drop PURGE_BATCH ?F))) d1)"
      using Suc.IH [of d1] effect_inv [OF Suc.prems] rest
      by (simp add: d1_def count_where_def)
    moreover have "effect (map key (take (n * PURGE_BATCH) (drop PURGE_BATCH ?F))) d1 =
        effect (map key (take (Suc n * PURGE_BATCH) ?F)) d"
      by (simp add: d1_def batch_ids_def take_add effect_append)
    moreover have "tot + PURGE_BATCH + min (n * PURGE_BATCH) (length (drop PURGE_BATCH ?F)) =
        tot + min (Suc n * PURGE_BATCH) (length ?F)"
      using False by (auto simp: min_def)
    moreover have "min PURGE_BATCH (length ?F) = PURGE_BATCH" using False by simp
    ultimately show ?thesis
      using step by (simp only: drain_loop.simps count_where_def) simp
  qed
qed

lemma drain_exact:
  "inv d \<Longrightarrow> drain_batches batch d =
    (Inr (min (MAX_BATCHES_PER_SWEEP * PURGE_BATCH) (count_where P (rows d))),
     effect (map key (take (MAX_BATCHES_PER_SWEEP * PURGE_BATCH) (filter P (rows d)))) d)"
  by (simp add: drain_batches_def drain_loop_exact)

lemma drain_all:
  assumes "inv d" "count_where P (rows d) \<le> MAX_BATCHES_PER_SWEEP * PURGE_BATCH"
  shows "drain_batches batch d = (Inr (count_where P (rows d)), effect (map key (filter P (rows d))) d)"
  using drain_exact [OF assms(1)] assms(2) by (simp add: count_where_def)

lemma rows_after_all:
  assumes "inv d"
  shows "rows (effect (map key (filter P (rows d))) d) = delete_where P (rows d)"
  unfolding effect_rows delete_where_def
  by (rule filter_cong) (use keys [OF assms] in \<open>auto simp: distinct_map dest: inj_onD\<close>)

end

section \<open>The sweeps of the source satisfy the contract\<close>

text \<open>The primary keys of the history tables, beside the invariant of the job store.\<close>

definition history_ok :: "db \<Rightarrow> bool" where
  "history_ok d \<longleftrightarrow> store_inv d \<and> distinct (map d_id (dead_letter d)) \<and>
     distinct (map x_id (job_errors d)) \<and> distinct (map m_id (task_metrics d)) \<and>
     distinct (map g_id (task_logs d))"

definition purge_effect :: "bool \<Rightarrow> string list \<Rightarrow> db \<Rightarrow> db" where
  "purge_effect cascade_diagnostics ids d =
     (let d1 = delete_relations_of ids d;
          d2 = (if cascade_diagnostics then delete_diagnostics_of ids d1 else d1)
      in d2\<lparr>archived_jobs := delete_where (\<lambda>a. a_id a \<in> set ids) (archived_jobs d2)\<rparr>)"

lemma purge_effect_sel [simp]:
  "jobs (purge_effect c ids d) = jobs d"
  "archived_jobs (purge_effect c ids d) = delete_where (\<lambda>a. a_id a \<in> set ids) (archived_jobs d)"
  "job_dependencies (purge_effect c ids d) =
     delete_where (\<lambda>e. e_job_id e \<in> set ids \<or> e_depends_on_job_id e \<in> set ids) (job_dependencies d)"
  "execution_claims (purge_effect c ids d) = execution_claims d"
  "job_steps (purge_effect c ids d) = job_steps d"
  "dead_letter (purge_effect c ids d) = dead_letter d"
  "job_errors (purge_effect c ids d) =
     (if c then delete_where (\<lambda>x. x_job_id x \<in> set ids) (job_errors d) else job_errors d)"
  "task_logs (purge_effect c ids d) =
     (if c then delete_where (\<lambda>g. g_job_id g \<in> set ids) (task_logs d) else task_logs d)"
  "task_metrics (purge_effect c ids d) =
     (if c then delete_where (\<lambda>m. m_job_id m \<in> set ids) (task_metrics d) else task_metrics d)"
  by (simp_all add: purge_effect_def Let_def delete_relations_of_def delete_diagnostics_of_def)

lemma purge_effect_append: "purge_effect c (xs @ ys) d = purge_effect c ys (purge_effect c xs d)"
  by (simp add: purge_effect_def Let_def delete_relations_of_def delete_diagnostics_of_def disj_ac)

lemma purge_effect_nil: "purge_effect c [] d = d"
  by (simp add: purge_effect_def Let_def delete_relations_of_def delete_diagnostics_of_def
      delete_where_def)

text \<open>Dropping archived rows keeps the store: the live tables are untouched.\<close>

lemma store_inv_drop_archived:
  assumes inv: "store_inv d" and eq: "jobs d' = jobs d" "job_steps d' = job_steps d"
    "execution_claims d' = execution_claims d"
    "archived_jobs d' = delete_where Q (archived_jobs d)"
  shows "store_inv d'"
proof -
  have live: "live_ids d' = live_ids d" by (simp add: live_ids_def eq)
  have arch: "archived_ids d' \<subseteq> archived_ids d" by (auto simp: archived_ids_def eq set_delete_where)
  have "archive_ok d'"
    using inv by (auto simp: store_inv_def archive_ok_def eq set_delete_where distinct_delete_where)
  moreover have "live_ok d'" "unique_ok d'" "steps_owned d'"
    using inv unfolding store_inv_def live_ok_def unique_ok_def steps_owned_def live eq by blast+
  moreover have "live_ids d' \<inter> archived_ids d' = {}" using inv arch live by (auto simp: store_inv_def)
  ultimately show ?thesis using inv by (simp add: store_inv_def eq)
qed

lemma trims_purge_effect:
  assumes "store_inv d"
  shows "trims_store d (purge_effect c ids d)"
  using store_inv_drop_archived [OF assms, of "purge_effect c ids d" "\<lambda>a. a_id a \<in> set ids"]
  by (auto simp: trims_store_def set_delete_where)

lemma history_purge_effect: "history_ok d \<Longrightarrow> history_ok (purge_effect c ids d)"
  using trims_inv [OF trims_purge_effect [of d c ids]]
  by (simp add: history_ok_def distinct_delete_where)

lemma archived_batch_step:
  assumes "history_ok d"
  shows "archived_batch P c d = (Inr (min PURGE_BATCH (count_where P (archived_jobs d))),
    purge_effect c (batch_ids a_id P (archived_jobs d)) d)"
proof -
  let ?ids = "batch_ids a_id P (archived_jobs d)"
  have "distinct (map a_id (archived_jobs d))"
    using assms by (simp add: history_ok_def store_inv_def archive_ok_def)
  from count_in_batch [OF this, of PURGE_BATCH P]
  have count: "count_where (\<lambda>a. a_id a \<in> set ?ids) (archived_jobs d) =
      min PURGE_BATCH (count_where P (archived_jobs d))" by (simp add: batch_ids_def)
  have "purge_archived_id_batch ?ids c d =
      Inr (count_where (\<lambda>a. a_id a \<in> set ?ids) (archived_jobs d), purge_effect c ?ids d)"
  proof (cases "?ids = []")
    case True
    then show ?thesis by (simp add: purge_archived_id_batch_def purge_effect_nil count_where_def)
  next
    case False
    then show ?thesis
      by (simp add: purge_archived_id_batch_def purge_effect_def Let_def delete_job_relations_eq
          delete_job_diagnostics_eq delete_relations_of_def delete_diagnostics_of_def)
  qed
  then show ?thesis by (simp add: archived_batch_def count)
qed

interpretation archived: purge_sweep history_ok archived_jobs a_id P "purge_effect c"
    "archived_batch P c" for P c
  by unfold_locales
    (simp_all add: purge_effect_append purge_effect_nil history_purge_effect archived_batch_step,
     simp add: history_ok_def store_inv_def archive_ok_def)

lemma history_delete:
  "history_ok d \<Longrightarrow> history_ok (d\<lparr>dead_letter := delete_where Q1 (dead_letter d)\<rparr>)"
  "history_ok d \<Longrightarrow> history_ok (d\<lparr>job_errors := delete_where Q2 (job_errors d)\<rparr>)"
  "history_ok d \<Longrightarrow> history_ok (d\<lparr>task_metrics := delete_where Q3 (task_metrics d)\<rparr>)"
  "history_ok d \<Longrightarrow> history_ok (d\<lparr>task_logs := delete_where Q4 (task_logs d)\<rparr>)"
  by (simp_all add: history_ok_def distinct_delete_where)

lemma history_keys:
  assumes "history_ok d"
  shows "store_inv d" "distinct (map a_id (archived_jobs d))" "distinct (map d_id (dead_letter d))"
    "distinct (map x_id (job_errors d))" "distinct (map m_id (task_metrics d))"
    "distinct (map g_id (task_logs d))"
  using assms by (simp_all add: history_ok_def store_inv_def archive_ok_def)

lemmas count_batch_ids = count_in_batch [of _ _ PURGE_BATCH, folded batch_ids_def]

lemmas table_batch_simps = history_delete history_keys write_transaction_def Let_def count_batch_ids

lemma delete_none [simp]: "delete_where (\<lambda>r. False) rows = rows"
  by (simp add: delete_where_def)

interpretation dead: purge_sweep history_ok dead_letter d_id P
    "\<lambda>ids d. d\<lparr>dead_letter := delete_where (\<lambda>r. d_id r \<in> set ids) (dead_letter d)\<rparr>"
    "dead_batch P" for P
  by unfold_locales (simp_all add: dead_batch_def table_batch_simps)

interpretation errors: purge_sweep history_ok job_errors x_id "\<lambda>x. x_failed_at x < c"
    "\<lambda>ids d. d\<lparr>job_errors := delete_where (\<lambda>x. x_id x \<in> set ids) (job_errors d)\<rparr>"
    "errors_batch c" for c
  by unfold_locales (simp_all add: errors_batch_def table_batch_simps)

interpretation metrics: purge_sweep history_ok task_metrics m_id "\<lambda>m. m_recorded_at m < c"
    "\<lambda>ids d. d\<lparr>task_metrics := delete_where (\<lambda>m. m_id m \<in> set ids) (task_metrics d)\<rparr>"
    "metrics_batch c" for c
  by unfold_locales (simp_all add: metrics_batch_def table_batch_simps)

interpretation logs: purge_sweep history_ok task_logs g_id "\<lambda>g. g_logged_at g < c"
    "\<lambda>ids d. d\<lparr>task_logs := delete_where (\<lambda>g. g_id g \<in> set ids) (task_logs d)\<rparr>"
    "logs_batch c" for c
  by unfold_locales (simp_all add: logs_batch_def table_batch_simps)

section \<open>What the purges delete\<close>

abbreviation sweep_cap :: nat where
  "sweep_cap \<equiv> MAX_BATCHES_PER_SWEEP * PURGE_BATCH"

definition past_window :: "('a \<Rightarrow> 'r \<Rightarrow> bool) \<Rightarrow> 'a option \<Rightarrow> 'r \<Rightarrow> bool" where
  "past_window P c r = (case c of Some t \<Rightarrow> P t r | None \<Rightarrow> False)"

lemma past_window_simps [simp]: "past_window P None = (\<lambda>r. False)" "past_window P (Some t) = P t"
  by (simp_all add: past_window_def fun_eq_iff)

lemma count_past_eq: "count_past c P rows = count_where (past_window P c) rows"
  by (cases c) (simp_all add: count_past_def count_where_def)

lemma filter_disjoint_delete:
  assumes "distinct (map key rows)" "\<And>r. P r \<Longrightarrow> \<not> Q r"
  shows "filter Q (delete_where (\<lambda>r. key r \<in> set (map key (filter P rows))) rows) = filter Q rows"
proof -
  have "filter Q (delete_where (\<lambda>r. key r \<in> set (map key (filter P rows))) rows) =
      filter (\<lambda>r. Q r \<and> key r \<notin> key ` set (filter P rows)) rows"
    by (simp add: delete_where_def conj_commute)
  also have "\<dots> = filter Q rows"
    by (rule filter_cong) (use assms in \<open>auto simp: distinct_map dest: inj_onD\<close>)
  finally show ?thesis .
qed

text \<open>
  One global window and one per-entry sweep over disjoint rows: the two counts add up and the
  rows left are those neither sweep matches.
\<close>

lemma optional_archived_sweep:
  assumes "history_ok d" "count_past c archived_past_cutoff (archived_jobs d) \<le> sweep_cap"
  shows "optional_sweep c (\<lambda>cutoff. drain_batches (archived_batch (archived_past_cutoff cutoff) False)) d =
    (Inr (count_past c archived_past_cutoff (archived_jobs d)),
     purge_effect False (map a_id (filter (past_window archived_past_cutoff c) (archived_jobs d))) d)"
proof (cases c)
  case None
  then show ?thesis
    by (simp add: optional_sweep_def count_past_def purge_effect_nil)
next
  case (Some t)
  then show ?thesis
    using archived.drain_all [OF assms(1), of "archived_past_cutoff t" False] assms(2)
    by (simp add: optional_sweep_def count_past_def)
qed

lemma purge_completed_with_ttl_exact:
  assumes inv: "history_ok d"
    and cap: "count_past c archived_past_cutoff (archived_jobs d) \<le> sweep_cap"
      "count_where (archived_past_ttl now) (archived_jobs d) \<le> sweep_cap"
  shows "purge_completed_with_ttl now c d =
    (Inr (count_past c archived_past_cutoff (archived_jobs d) +
          count_where (archived_past_ttl now) (archived_jobs d)),
     purge_effect False
       (map a_id (filter (past_window archived_past_cutoff c) (archived_jobs d)) @
        map a_id (filter (archived_past_ttl now) (archived_jobs d))) d)"
proof -
  define ids where "ids = map a_id (filter (past_window archived_past_cutoff c) (archived_jobs d))"
  define d1 where "d1 = purge_effect False ids d"
  have inv1: "history_ok d1" unfolding d1_def by (rule history_purge_effect [OF inv])
  have "past_window archived_past_cutoff c a \<Longrightarrow> \<not> archived_past_ttl now a" for a
    by (auto simp: past_window_def archived_past_cutoff_def archived_past_ttl_def split: option.splits)
  then have same: "filter (archived_past_ttl now) (archived_jobs d1) =
      filter (archived_past_ttl now) (archived_jobs d)"
    unfolding d1_def ids_def purge_effect_sel by (rule filter_disjoint_delete [OF history_keys(2) [OF inv]])
  then have "drain_batches (archived_batch (archived_past_ttl now) False) d1 =
      (Inr (count_where (archived_past_ttl now) (archived_jobs d)),
       purge_effect False (map a_id (filter (archived_past_ttl now) (archived_jobs d))) d1)"
    using archived.drain_all [OF inv1, of "archived_past_ttl now" False] cap(2)
    by (simp add: count_where_def)
  then show ?thesis
    using optional_archived_sweep [OF inv cap(1)]
    by (simp add: purge_completed_with_ttl_def two_sweeps_def purge_effect_append
        ids_def [symmetric] d1_def [symmetric])
qed

lemma optional_dead_sweep:
  assumes "history_ok d" "count_past c dead_past_cutoff (dead_letter d) \<le> sweep_cap"
  shows "optional_sweep c (\<lambda>cutoff. drain_batches (dead_batch (dead_past_cutoff cutoff))) d =
    (Inr (count_past c dead_past_cutoff (dead_letter d)),
     d\<lparr>dead_letter := delete_where (past_window dead_past_cutoff c) (dead_letter d)\<rparr>)"
proof (cases c)
  case None
  then show ?thesis
    by (simp add: optional_sweep_def count_past_def)
next
  case (Some t)
  have "drain_batches (dead_batch (dead_past_cutoff t)) d =
      (Inr (count_where (dead_past_cutoff t) (dead_letter d)),
       d\<lparr>dead_letter := delete_where (dead_past_cutoff t) (dead_letter d)\<rparr>)"
    using dead.drain_all [OF assms(1), of "dead_past_cutoff t"] Some assms(2)
      dead.rows_after_all [OF assms(1), of "dead_past_cutoff t"]
    by (simp add: count_past_def)
  then show ?thesis
    using Some by (simp add: optional_sweep_def count_past_def)
qed

lemma purge_dead_with_ttl_exact:
  assumes inv: "history_ok d"
    and cap: "count_past c dead_past_cutoff (dead_letter d) \<le> sweep_cap"
      "count_where (dead_past_ttl now) (dead_letter d) \<le> sweep_cap"
  shows "purge_dead_with_ttl now c d =
    (Inr (count_past c dead_past_cutoff (dead_letter d) + count_where (dead_past_ttl now) (dead_letter d)),
     d\<lparr>dead_letter :=
       delete_where (\<lambda>r. past_window dead_past_cutoff c r \<or> dead_past_ttl now r) (dead_letter d)\<rparr>)"
proof -
  define d1 where "d1 = d\<lparr>dead_letter := delete_where (past_window dead_past_cutoff c) (dead_letter d)\<rparr>"
  have inv1: "history_ok d1" unfolding d1_def by (rule history_delete(1) [OF inv])
  have "past_window dead_past_cutoff c r \<Longrightarrow> \<not> dead_past_ttl now r" for r
    by (auto simp: past_window_def dead_past_cutoff_def dead_past_ttl_def split: option.splits)
  then have "count_where (dead_past_ttl now) (dead_letter d1) = count_where (dead_past_ttl now) (dead_letter d)"
    unfolding d1_def count_where_def delete_where_def
    by (simp, intro arg_cong [where f = length] filter_cong) auto
  then have "drain_batches (dead_batch (dead_past_ttl now)) d1 =
      (Inr (count_where (dead_past_ttl now) (dead_letter d)),
       d1\<lparr>dead_letter := delete_where (dead_past_ttl now) (dead_letter d1)\<rparr>)"
    using dead.drain_all [OF inv1, of "dead_past_ttl now"] cap(2)
      dead.rows_after_all [OF inv1, of "dead_past_ttl now"] by simp
  then show ?thesis
    using optional_dead_sweep [OF inv cap(1)]
    by (simp add: purge_dead_with_ttl_def two_sweeps_def d1_def)
qed

lemma purge_side_exact:
  assumes "history_ok d"
  shows "count_where (\<lambda>x. x_failed_at x < c) (job_errors d) \<le> sweep_cap \<Longrightarrow>
      purge_job_errors c d = (Inr (count_where (\<lambda>x. x_failed_at x < c) (job_errors d)),
        d\<lparr>job_errors := delete_where (\<lambda>x. x_failed_at x < c) (job_errors d)\<rparr>)"
    and "count_where (\<lambda>m. m_recorded_at m < c) (task_metrics d) \<le> sweep_cap \<Longrightarrow>
      purge_metrics c d = (Inr (count_where (\<lambda>m. m_recorded_at m < c) (task_metrics d)),
        d\<lparr>task_metrics := delete_where (\<lambda>m. m_recorded_at m < c) (task_metrics d)\<rparr>)"
    and "count_where (\<lambda>g. g_logged_at g < c) (task_logs d) \<le> sweep_cap \<Longrightarrow>
      purge_task_logs c d = (Inr (count_where (\<lambda>g. g_logged_at g < c) (task_logs d)),
        d\<lparr>task_logs := delete_where (\<lambda>g. g_logged_at g < c) (task_logs d)\<rparr>)"
  using errors.drain_all [OF assms, of c] errors.rows_after_all [OF assms, of c]
    metrics.drain_all [OF assms, of c] metrics.rows_after_all [OF assms, of c]
    logs.drain_all [OF assms, of c] logs.rows_after_all [OF assms, of c]
  by (simp_all add: purge_job_errors_def purge_metrics_def purge_task_logs_def)

lemma dry_run_parts:
  assumes "history_ok d" "n = count_expired_rows cs now d"
    "rn_archived_jobs n \<le> sweep_cap" "rn_dead_letter n \<le> sweep_cap" "rn_task_logs n \<le> sweep_cap"
    "rn_task_metrics n \<le> sweep_cap" "rn_job_errors n \<le> sweep_cap"
  shows "fst (purge_completed_with_ttl now (rc_archived_jobs cs) d) = Inr (rn_archived_jobs n) \<and>
      archived_jobs (snd (purge_completed_with_ttl now (rc_archived_jobs cs) d)) =
        delete_where (\<lambda>a. past_window archived_past_cutoff (rc_archived_jobs cs) a \<or> archived_past_ttl now a)
          (archived_jobs d) \<and>
      jobs (snd (purge_completed_with_ttl now (rc_archived_jobs cs) d)) = jobs d"
    "rn_archived_jobs
       (count_expired_rows cs now (snd (purge_completed_with_ttl now (rc_archived_jobs cs) d))) = 0"
    "purge_dead_with_ttl now (rc_dead_letter cs) d = (Inr (rn_dead_letter n), d\<lparr>dead_letter :=
       delete_where (\<lambda>r. past_window dead_past_cutoff (rc_dead_letter cs) r \<or> dead_past_ttl now r)
         (dead_letter d)\<rparr>)"
    "optional_sweep (rc_task_logs cs) purge_task_logs d = (Inr (rn_task_logs n), d\<lparr>task_logs :=
       delete_where (past_window (\<lambda>c g. g_logged_at g < c) (rc_task_logs cs)) (task_logs d)\<rparr>)"
    "optional_sweep (rc_task_metrics cs) purge_metrics d = (Inr (rn_task_metrics n), d\<lparr>task_metrics :=
       delete_where (past_window (\<lambda>c m. m_recorded_at m < c) (rc_task_metrics cs)) (task_metrics d)\<rparr>)"
    "optional_sweep (rc_job_errors cs) purge_job_errors d = (Inr (rn_job_errors n), d\<lparr>job_errors :=
       delete_where (past_window (\<lambda>c x. x_failed_at x < c) (rc_job_errors cs)) (job_errors d)\<rparr>)"
proof -
  let ?P = "past_window archived_past_cutoff (rc_archived_jobs cs)"
  note inv = assms(1)
  have arch: "purge_completed_with_ttl now (rc_archived_jobs cs) d =
    (Inr (rn_archived_jobs n), purge_effect False
       (map a_id (filter ?P (archived_jobs d)) @
        map a_id (filter (archived_past_ttl now) (archived_jobs d))) d)"
    using purge_completed_with_ttl_exact [OF inv, of "rc_archived_jobs cs" now] assms(2,3)
    by (simp add: count_expired_rows_def)
  have rows: "archived_jobs (snd (purge_completed_with_ttl now (rc_archived_jobs cs) d)) =
      delete_where (\<lambda>a. ?P a \<or> archived_past_ttl now a) (archived_jobs d)"
    unfolding arch snd_conv purge_effect_sel delete_where_def
    by (rule filter_cong) (use history_keys(2) [OF inv] in \<open>auto simp: distinct_map dest: inj_onD\<close>)
  then show "fst (purge_completed_with_ttl now (rc_archived_jobs cs) d) = Inr (rn_archived_jobs n) \<and>
      archived_jobs (snd (purge_completed_with_ttl now (rc_archived_jobs cs) d)) =
        delete_where (\<lambda>a. ?P a \<or> archived_past_ttl now a) (archived_jobs d) \<and>
      jobs (snd (purge_completed_with_ttl now (rc_archived_jobs cs) d)) = jobs d"
    using arch by simp
  show "rn_archived_jobs
      (count_expired_rows cs now (snd (purge_completed_with_ttl now (rc_archived_jobs cs) d))) = 0"
    by (simp add: count_expired_rows_def count_past_eq rows count_where_0_iff set_delete_where)
  show "purge_dead_with_ttl now (rc_dead_letter cs) d = (Inr (rn_dead_letter n), d\<lparr>dead_letter :=
       delete_where (\<lambda>r. past_window dead_past_cutoff (rc_dead_letter cs) r \<or> dead_past_ttl now r)
         (dead_letter d)\<rparr>)"
    using purge_dead_with_ttl_exact [OF inv, of "rc_dead_letter cs" now] assms(2,4)
    by (simp add: count_expired_rows_def)
  show "optional_sweep (rc_task_logs cs) purge_task_logs d = (Inr (rn_task_logs n), d\<lparr>task_logs :=
       delete_where (past_window (\<lambda>c g. g_logged_at g < c) (rc_task_logs cs)) (task_logs d)\<rparr>)"
    using purge_side_exact(3) [OF inv] assms(2,5)
    by (cases "rc_task_logs cs") (simp_all add: count_expired_rows_def count_past_def optional_sweep_def)
  show "optional_sweep (rc_task_metrics cs) purge_metrics d = (Inr (rn_task_metrics n), d\<lparr>task_metrics :=
       delete_where (past_window (\<lambda>c m. m_recorded_at m < c) (rc_task_metrics cs)) (task_metrics d)\<rparr>)"
    using purge_side_exact(2) [OF inv] assms(2,6)
    by (cases "rc_task_metrics cs") (simp_all add: count_expired_rows_def count_past_def optional_sweep_def)
  show "optional_sweep (rc_job_errors cs) purge_job_errors d = (Inr (rn_job_errors n), d\<lparr>job_errors :=
       delete_where (past_window (\<lambda>c x. x_failed_at x < c) (rc_job_errors cs)) (job_errors d)\<rparr>)"
    using purge_side_exact(1) [OF inv] assms(2,7)
    by (cases "rc_job_errors cs") (simp_all add: count_expired_rows_def count_past_def optional_sweep_def)
qed

text \<open>
  The dry run tells the truth. While no sweep exceeds its batch cap, each of the five
  purges deletes exactly the number of rows the dry run reports for its table under the same
  cutoffs, deletes precisely the rows past their window or their own time to live, and a
  second dry run reports nothing left. No live job is touched.
\<close>

lemma dry_run_exact:
  assumes "history_ok d" "n = count_expired_rows cs now d"
    "rn_archived_jobs n \<le> sweep_cap" "rn_dead_letter n \<le> sweep_cap" "rn_task_logs n \<le> sweep_cap"
    "rn_task_metrics n \<le> sweep_cap" "rn_job_errors n \<le> sweep_cap"
  shows "fst (purge_completed_with_ttl now (rc_archived_jobs cs) d) = Inr (rn_archived_jobs n) \<and>
      archived_jobs (snd (purge_completed_with_ttl now (rc_archived_jobs cs) d)) =
        delete_where (\<lambda>a. past_window archived_past_cutoff (rc_archived_jobs cs) a \<or> archived_past_ttl now a)
          (archived_jobs d) \<and>
      jobs (snd (purge_completed_with_ttl now (rc_archived_jobs cs) d)) = jobs d \<and>
    (rn_archived_jobs
       (count_expired_rows cs now (snd (purge_completed_with_ttl now (rc_archived_jobs cs) d))) = 0) \<and>
    (purge_dead_with_ttl now (rc_dead_letter cs) d = (Inr (rn_dead_letter n), d\<lparr>dead_letter :=
       delete_where (\<lambda>r. past_window dead_past_cutoff (rc_dead_letter cs) r \<or> dead_past_ttl now r)
         (dead_letter d)\<rparr>)) \<and>
    (optional_sweep (rc_task_logs cs) purge_task_logs d = (Inr (rn_task_logs n), d\<lparr>task_logs :=
       delete_where (past_window (\<lambda>c g. g_logged_at g < c) (rc_task_logs cs)) (task_logs d)\<rparr>)) \<and>
    (optional_sweep (rc_task_metrics cs) purge_metrics d = (Inr (rn_task_metrics n), d\<lparr>task_metrics :=
       delete_where (past_window (\<lambda>c m. m_recorded_at m < c) (rc_task_metrics cs)) (task_metrics d)\<rparr>)) \<and>
    (optional_sweep (rc_job_errors cs) purge_job_errors d = (Inr (rn_job_errors n), d\<lparr>job_errors :=
       delete_where (past_window (\<lambda>c x. x_failed_at x < c) (rc_job_errors cs)) (job_errors d)\<rparr>))"
  using dry_run_parts [OF assms] by blast

lemma keep_window_nonneg: "keep_window w = Some t \<Longrightarrow> 0 \<le> t"
  by (auto simp: keep_window_def split: option.splits if_splits)

lemma saturating_sub_le: "is_i64 a \<Longrightarrow> 0 \<le> b \<Longrightarrow> saturating_sub a b \<le> a"
  by (auto simp: i64_defs)

lemma cutoff_not_future:
  "is_i64 now \<Longrightarrow> rc_archived_jobs (cutoffs c now) = Some t \<Longrightarrow> t \<le> now"
  by (auto simp: cutoffs_def Let_def cutoff_def sanitized_def dest!: keep_window_nonneg intro: saturating_sub_le)

lemma no_retention_cutoff [simp]:
  "rc_archived_jobs (cutoffs (resolve_effective_retention (Some no_retention) ttl) now) = None"
  by (simp add: resolve_effective_retention_def cutoffs_def Let_def sanitized_def no_retention_def
      keep_window_def cutoff_def)

text \<open>A sweep deletes only rows it matches, whether or not it reaches its cap.\<close>

lemma archived_sweep_keeps:
  assumes "history_ok d" "a \<in> set (archived_jobs d)" "\<not> P a"
  shows "history_ok (snd (drain_batches (archived_batch P c) d)) \<and>
    a \<in> set (archived_jobs (snd (drain_batches (archived_batch P c) d)))"
proof -
  let ?ids = "map a_id (take sweep_cap (filter P (archived_jobs d)))"
  have "a_id a \<notin> set ?ids"
  proof
    assume "a_id a \<in> set ?ids"
    then obtain b where "b \<in> set (take sweep_cap (filter P (archived_jobs d)))" "a_id b = a_id a" by auto
    then have "b \<in> set (archived_jobs d)" "P b" "a_id b = a_id a" by (auto dest!: in_set_takeD)
    then show False
      using history_keys(2) [OF assms(1)] assms(2,3) by (auto simp: distinct_map dest: inj_onD)
  qed
  then show ?thesis
    using archived.drain_exact [OF assms(1), of P c] assms(1,2) history_purge_effect
    by (simp add: set_delete_where)
qed

lemma purge_completed_with_ttl_keeps:
  assumes "history_ok d" "a \<in> set (archived_jobs d)" "\<not> past_window archived_past_cutoff c a"
    "\<not> archived_past_ttl now a"
  shows "a \<in> set (archived_jobs (snd (purge_completed_with_ttl now c d)))"
proof -
  let ?first = "optional_sweep c (\<lambda>t. drain_batches (archived_batch (archived_past_cutoff t) False))"
  have first: "history_ok (snd (?first d)) \<and> a \<in> set (archived_jobs (snd (?first d)))"
    using archived_sweep_keeps [OF assms(1,2)] assms by (cases c) (auto simp: optional_sweep_def)
  then have "a \<in> set (archived_jobs (snd (drain_batches (archived_batch (archived_past_ttl now) False)
      (snd (?first d)))))"
    using archived_sweep_keeps [where P = "archived_past_ttl now" and a = a] assms(4) by blast
  with first show ?thesis
    by (auto simp: purge_completed_with_ttl_def two_sweeps_def split: prod.splits sum.splits)
qed

text \<open>
  A retention window never reaches into the future. Whatever windows are configured,
  negative ones and the deprecated queue-wide time to live included, the cleanup that runs at
  \<open>now\<close> keeps every archived job without a time to live of its own that ended at or after
  \<open>now\<close>, and with an empty retention configuration it keeps every archived job without a time
  to live, however old.
\<close>

lemma retention_keeps_the_recent:
  assumes "history_ok d" "is_i64 now" "a \<in> set (archived_jobs d)" "a_result_ttl_ms a = None"
    "(\<exists>t. a_completed_at a = Some t \<and> now \<le> t) \<or> retention = Some no_retention"
  shows "a \<in> set (archived_jobs (snd (purge_completed_with_ttl now
    (rc_archived_jobs (cutoffs (resolve_effective_retention retention result_ttl_ms) now)) d)))"
proof -
  let ?c = "rc_archived_jobs (cutoffs (resolve_effective_retention retention result_ttl_ms) now)"
  have "\<not> past_window archived_past_cutoff ?c a"
    using assms(2,5) cutoff_not_future by (fastforce simp: past_window_def archived_past_cutoff_def older_def
        no_retention_cutoff split: option.splits)
  moreover have "\<not> archived_past_ttl now a"
    using assms(4) by (simp add: archived_past_ttl_def split: option.splits)
  ultimately show ?thesis
    using purge_completed_with_ttl_keeps [OF assms(1,3)] by blast
qed


section \<open>The purges take archived rows only\<close>

lemma trims_drain_loop:
  assumes "\<And>d. store_inv d \<Longrightarrow> trims_store d (snd (batch d))"
  shows "store_inv d \<Longrightarrow> trims_store d (snd (drain_loop n batch tot d))"
proof (induction n arbitrary: tot d)
  case 0
  then show ?case by (simp add: trims_refl)
next
  case (Suc n)
  then have step: "trims_store d (snd (batch d))" using assms by blast
  then have "trims_store (snd (batch d)) (snd (drain_loop n batch t (snd (batch d))))" for t
    using Suc.IH trims_inv by blast
  with step show ?case
    by (auto split: prod.splits sum.splits intro: trims_trans)
qed

lemma trims_drain:
  assumes "\<And>d. store_inv d \<Longrightarrow> trims_store d (snd (batch d))" "store_inv d"
  shows "trims_store d (snd (drain_batches batch d))"
  unfolding drain_batches_def by (rule trims_drain_loop [OF assms])

lemma trims_two_sweeps:
  assumes "\<And>d. store_inv d \<Longrightarrow> trims_store d (snd (f d))" "\<And>d. store_inv d \<Longrightarrow> trims_store d (snd (g d))"
    "store_inv d"
  shows "trims_store d (snd (two_sweeps f g d))"
proof -
  have "trims_store d (snd (f d))" "trims_store (snd (f d)) (snd (g (snd (f d))))"
    using assms trims_inv by blast+
  then show ?thesis
    by (auto simp: two_sweeps_def split: prod.splits sum.splits intro: trims_trans)
qed

lemma trims_optional_sweep:
  "(\<And>c d. store_inv d \<Longrightarrow> trims_store d (snd (f c d))) \<Longrightarrow> store_inv d \<Longrightarrow>
     trims_store d (snd (optional_sweep w f d))"
  by (cases w) (auto simp: optional_sweep_def trims_refl)

lemma trims_archived_batch: "store_inv d \<Longrightarrow> trims_store d (snd (archived_batch P c d))"
proof -
  assume inv: "store_inv d"
  have "snd (archived_batch P c d) \<in> {d, purge_effect c (batch_ids a_id P (archived_jobs d)) d}"
    by (simp add: archived_batch_def purge_archived_id_batch_def purge_effect_def Let_def
        delete_job_relations_eq delete_job_diagnostics_eq delete_relations_of_def
        delete_diagnostics_of_def write_transaction_def)
  with inv show ?thesis by (auto intro: trims_refl trims_purge_effect)
qed

lemma trims_side_batches:
  assumes "store_inv d"
  shows "trims_store d (snd (dead_batch P d))" "trims_store d (snd (errors_batch c d))"
    "trims_store d (snd (metrics_batch c d))" "trims_store d (snd (logs_batch c d))"
  using assms
  by (simp_all add: dead_batch_def errors_batch_def metrics_batch_def logs_batch_def Let_def trims_store_def)

lemma trims_purges:
  assumes "store_inv d"
  shows "trims_store d (snd (purge_completed t d))"
    "trims_store d (snd (purge_completed_with_ttl now w d))"
    "trims_store d (snd (purge_dead t d))" "trims_store d (snd (purge_dead_with_ttl now w d))"
    "trims_store d (snd (purge_job_errors t d))" "trims_store d (snd (purge_metrics t d))"
    "trims_store d (snd (purge_task_logs t d))"
  unfolding purge_completed_def purge_completed_with_ttl_def purge_dead_def purge_dead_with_ttl_def
    purge_job_errors_def purge_metrics_def purge_task_logs_def
  by (rule trims_drain trims_two_sweeps trims_optional_sweep trims_archived_batch trims_side_batches assms
      | assumption)+

section \<open>Concrete runs\<close>

definition sample_parent :: archived_row where
  "sample_parent = archived_of_row (cancelled_row 1 ''expired'' (sample_row ''p'' 0))"

text \<open>A child that waits for a parent cancelled at time 1.\<close>

definition stranded_child :: db where
  "stranded_child = (sample_db [(sample_row ''c'' 0)\<lparr>r_has_deps := True\<rparr>])\<lparr>
     archived_jobs := [sample_parent],
     job_dependencies := [\<lparr>e_id = ''e'', e_job_id = ''c'', e_depends_on_job_id = ''p''\<rparr>]\<rparr>"

lemma sample_parent_sel [simp]:
  "a_id sample_parent = ''p''" "a_status sample_parent = 5" "a_completed_at sample_parent = Some 1"
  "a_result_ttl_ms sample_parent = None"
  by (simp_all add: sample_parent_def archived_of_row_def cancelled_row_def sample_row_def
      new_job_row_def Let_def into_job_def plain_job_def)

lemma stranded_child_sel [simp]:
  "archived_jobs stranded_child = [sample_parent]" "dead_letter stranded_child = []"
  "job_errors stranded_child = []" "task_metrics stranded_child = []" "task_logs stranded_child = []"
  "jobs stranded_child = [(sample_row ''c'' 0)\<lparr>r_has_deps := True\<rparr>]"
  "job_dependencies stranded_child = [\<lparr>e_id = ''e'', e_job_id = ''c'', e_depends_on_job_id = ''p''\<rparr>]"
  "execution_claims stranded_child = []" "job_steps stranded_child = []"
  by (simp_all add: stranded_child_def sample_db_def sample_parent_def)

lemma history_stranded_child: "history_ok stranded_child"
proof -
  have "store_inv stranded_child" unfolding store_inv_defs by simp
  then show ?thesis by (simp add: history_ok_def)
qed

definition sample_cutoffs :: retention_cutoffs where
  "sample_cutoffs = \<lparr>rc_archived_jobs = Some 100, rc_dead_letter = None, rc_task_logs = Some 100,
     rc_task_metrics = None, rc_job_errors = None\<rparr>"

lemma sample_parent_past:
  "archived_past_cutoff 100 sample_parent" "\<not> archived_past_ttl now sample_parent"
  by (simp_all add: archived_past_cutoff_def archived_past_ttl_def older_def)


end
