(* ===== verification/Dead_Letter.thy ===== *)
theory Dead_Letter
  imports Listing Retention
begin

text \<open>
  The dead-letter queue (\<open>storage/diesel_common/dead_letter.rs\<close>): moving a job there with the
  cascade over its dependents, listing it, resurrecting an entry, and the selection of the
  auto-retry sweep. A resurrection reads the entry before its transaction opens, so what other
  connections commit in between is the parameter \<open>env\<close>.
\<close>

section \<open>Moving a job to the dead-letter queue\<close>

definition dlq_count :: "json_lib \<Rightarrow> string option \<Rightarrow> int" where
  "dlq_count js metadata =
     (case Option.bind (Option.bind metadata (from_str js))
             (\<lambda>v. Option.bind (get_key v ''__dlq_retry_count'') as_i64) of
        Some n \<Rightarrow> wrapping_i32 n
      | None \<Rightarrow> 0)"

definition insert_dead :: "dead_row \<Rightarrow> db \<Rightarrow> db result" where
  "insert_dead row d =
     (case insert_row d_id row (dead_letter d) of
        None \<Rightarrow> Inl (Storage UniqueViolation)
      | Some rows \<Rightarrow> Inr (d\<lparr>dead_letter := rows\<rparr>))"

definition or_else :: "'a option \<Rightarrow> 'a option \<Rightarrow> 'a option" where
  "or_else a b = (case a of Some x \<Rightarrow> Some x | None \<Rightarrow> b)"

definition new_dead_row ::
    "json_lib \<Rightarrow> string \<Rightarrow> int \<Rightarrow> job \<Rightarrow> string \<Rightarrow> string option \<Rightarrow> bool \<Rightarrow> dead_row" where
  "new_dead_row js dlq_id now job error metadata shed =
     (let attribution = extract_topic_subscription js (j_notes job)
      in \<lparr>d_id = dlq_id,
          d_original_job_id = j_id job,
          d_queue = j_queue job,
          d_task_name = j_task_name job,
          d_error = Some error,
          d_retry_count = j_retry_count job,
          d_failed_at = now,
          d_metadata = or_else metadata (j_metadata job),
          d_notes = j_notes job,
          d_priority = j_priority job,
          d_max_retries = j_max_retries job,
          d_timeout_ms = j_timeout_ms job,
          d_result_ttl_ms = j_result_ttl_ms job,
          d_namespace = j_namespace job,
          d_dlq_retry_count = dlq_count js (j_metadata job),
          d_payload = j_payload job,
          d_topic = map_option fst attribution,
          d_subscription_name = map_option snd attribution,
          d_shed = shed\<rparr>)"

definition dead_job_row :: "int \<Rightarrow> string \<Rightarrow> job_row \<Rightarrow> job_row" where
  "dead_job_row now error row = row\<lparr>r_status := status_code Dead, r_error := Some error,
     r_completed_at := Some now\<rparr>"

definition dead_letter_body :: "int \<Rightarrow> dead_row \<Rightarrow> string \<Rightarrow> string \<Rightarrow> db \<Rightarrow> (unit \<times> db) result" where
  "dead_letter_body now dlq_row job_id error d =
     and_then (insert_dead dlq_row d) (\<lambda>d1.
       case find_row r_id job_id (jobs d1) of
         Some row \<Rightarrow> and_then (archive_job_row (dead_job_row now error row) d1) (\<lambda>d2. Inr ((), d2))
       | None \<Rightarrow> Inr ((), d1))"

definition dead_letter_job ::
    "json_lib \<Rightarrow> string \<Rightarrow> int \<Rightarrow> int \<Rightarrow> job \<Rightarrow> string \<Rightarrow> string option \<Rightarrow> bool \<Rightarrow> db \<Rightarrow> unit result \<times> db" where
  "dead_letter_job js dlq_id now now' job error metadata shed d =
     (case write_transaction
             (dead_letter_body now (new_dead_row js dlq_id now job error metadata shed) (j_id job) error) d of
        (Inl e, d1) \<Rightarrow> (Inl e, d1)
      | (Inr _, d1) \<Rightarrow> cascade_cancel now' (j_id job) ''dependency failed'' (j_namespace job) d1)"

definition move_to_dlq ::
    "json_lib \<Rightarrow> string \<Rightarrow> int \<Rightarrow> int \<Rightarrow> job \<Rightarrow> string \<Rightarrow> string option \<Rightarrow> db \<Rightarrow> unit result \<times> db" where
  "move_to_dlq js dlq_id now now' job error metadata d =
     dead_letter_job js dlq_id now now' job error metadata False d"

definition shed_to_dlq ::
    "json_lib \<Rightarrow> string \<Rightarrow> int \<Rightarrow> int \<Rightarrow> job \<Rightarrow> string \<Rightarrow> string option \<Rightarrow> db \<Rightarrow> unit result \<times> db" where
  "shed_to_dlq js dlq_id now now' job error metadata d =
     dead_letter_job js dlq_id now now' job error metadata True d"

section \<open>Listings\<close>

text \<open>\<open>DeadJob\<close> as the listings return it: every column of the narrow projection, an empty payload.\<close>

record dead_job = narrow_dead_row +
  dj_payload :: bytes

definition dead_from_narrow :: "'a narrow_dead_row_scheme \<Rightarrow> dead_job" where
  "dead_from_narrow row = \<lparr>
     d_id = d_id row,
     d_original_job_id = d_original_job_id row,
     d_queue = d_queue row,
     d_task_name = d_task_name row,
     d_error = d_error row,
     d_retry_count = d_retry_count row,
     d_failed_at = d_failed_at row,
     d_metadata = d_metadata row,
     d_notes = d_notes row,
     d_priority = d_priority row,
     d_max_retries = d_max_retries row,
     d_timeout_ms = d_timeout_ms row,
     d_result_ttl_ms = d_result_ttl_ms row,
     d_namespace = d_namespace row,
     d_dlq_retry_count = d_dlq_retry_count row,
     dj_payload = []\<rparr>"

definition list_dead :: "int \<Rightarrow> int \<Rightarrow> string option \<Rightarrow> db \<Rightarrow> dead_job list" where
  "list_dead limit offset namespace d =
     map dead_from_narrow (sql_limit limit (sql_offset offset
       (order_by (\<lambda>r r'. d_failed_at r' \<le> d_failed_at r)
          (filter (\<lambda>r. in_ns namespace (d_namespace r)) (dead_letter d)))))"

definition dead_key :: "'a narrow_dead_row_scheme \<Rightarrow> cursor_key" where
  "dead_key r = (d_failed_at r, d_id r)"

definition list_dead_after :: "int \<Rightarrow> cursor_key option \<Rightarrow> string option \<Rightarrow> db \<Rightarrow> dead_job list" where
  "list_dead_after limit after namespace d =
     (if limit \<le> 0 then []
      else map dead_from_narrow (sql_limit limit
        (order_by (key_desc dead_key)
          (filter (\<lambda>r. before_cursor after (dead_key r) \<and> in_ns namespace (d_namespace r))
             (dead_letter d)))))"

definition list_dead_by_task :: "string \<Rightarrow> int \<Rightarrow> int \<Rightarrow> string option \<Rightarrow> db \<Rightarrow> dead_job list" where
  "list_dead_by_task task_name limit offset namespace d =
     (if limit \<le> 0 then []
      else map dead_from_narrow (sql_limit limit (sql_offset (max offset 0)
        (order_by (\<lambda>r r'. d_failed_at r' \<le> d_failed_at r)
          (filter (\<lambda>r. d_task_name r = task_name \<and> in_ns namespace (d_namespace r))
             (dead_letter d))))))"

definition purge_dead_by_task :: "string \<Rightarrow> db \<Rightarrow> nat result \<times> db" where
  "purge_dead_by_task task_name d =
     (Inr (count_where (\<lambda>r. d_task_name r = task_name) (dead_letter d)),
      d\<lparr>dead_letter := delete_where (\<lambda>r. d_task_name r = task_name) (dead_letter d)\<rparr>)"

definition delete_dead :: "string \<Rightarrow> string option \<Rightarrow> db \<Rightarrow> bool result \<times> db" where
  "delete_dead dead_id namespace d =
     (let hit = (\<lambda>r. d_id r = dead_id \<and> in_ns namespace (d_namespace r))
      in (Inr (0 < count_where hit (dead_letter d)),
          d\<lparr>dead_letter := delete_where hit (dead_letter d)\<rparr>))"

definition in_namespace :: "string option \<Rightarrow> string option \<Rightarrow> bool" where
  "in_namespace row caller = (case caller of None \<Rightarrow> True | Some scope \<Rightarrow> row = Some scope)"

section \<open>Resurrection\<close>

definition retry_object :: "json_lib \<Rightarrow> dead_row \<Rightarrow> (string \<times> json) list" where
  "retry_object js dead_row =
     (let next_count = wrapping_i32 (d_dlq_retry_count dead_row + 1);
          obj = (case Option.bind (d_metadata dead_row) (parse_map js) of Some m \<Rightarrow> m | None \<Rightarrow> [])
      in map_insert ''__dlq_retry_count'' (JInt next_count) obj)"

definition retry_metadata :: "json_lib \<Rightarrow> dead_row \<Rightarrow> string" where
  "retry_metadata js dead_row = to_string js (JObject (retry_object js dead_row))"

definition resurrected :: "json_lib \<Rightarrow> int \<Rightarrow> dead_row \<Rightarrow> new_job" where
  "resurrected js now dead_row = \<lparr>
     n_queue = d_queue dead_row,
     n_task_name = d_task_name dead_row,
     n_payload = d_payload dead_row,
     n_priority = d_priority dead_row,
     n_scheduled_at = now,
     n_max_retries = d_max_retries dead_row,
     n_timeout_ms = d_timeout_ms dead_row,
     n_unique_key = None,
     n_metadata = Some (retry_metadata js dead_row),
     n_notes = d_notes dead_row,
     n_depends_on = [],
     n_expires_at = None,
     n_result_ttl_ms = d_result_ttl_ms dead_row,
     n_namespace = d_namespace dead_row,
     n_debounce_key = None\<rparr>"

definition retry_dead_body :: "json_lib \<Rightarrow> job \<Rightarrow> string \<Rightarrow> db \<Rightarrow> (unit \<times> db) result" where
  "retry_dead_body js job dead_id d =
     and_then (insert_job (new_job_row js job) d) (\<lambda>d1.
       if count_where (\<lambda>r. d_id r = dead_id) (dead_letter d1) = 0
       then Inl (Storage NotFound)
       else Inr ((), d1\<lparr>dead_letter := delete_where (\<lambda>r. d_id r = dead_id) (dead_letter d1)\<rparr>))"

definition retry_dead ::
    "json_lib \<Rightarrow> string \<Rightarrow> int \<Rightarrow> int \<Rightarrow> (db \<Rightarrow> db) \<Rightarrow> string \<Rightarrow> string option \<Rightarrow> db \<Rightarrow> string result \<times> db"
where
  "retry_dead js uid now now' env dead_id namespace d =
     (case find_row d_id dead_id (dead_letter d) of
        None \<Rightarrow> (Inl (JobNotFound dead_id), d)
      | Some dead_row \<Rightarrow>
          if \<not> in_namespace (d_namespace dead_row) namespace then (Inl (JobNotFound dead_id), d)
          else
            let job = into_job uid now' (resurrected js now dead_row)
            in (case write_transaction (retry_dead_body js job dead_id) (env d) of
                  (Inr _, d') \<Rightarrow> (Inr (j_id job), d')
                | (Inl (Storage NotFound), d') \<Rightarrow> (Inl (JobNotFound dead_id), d')
                | (Inl e, d') \<Rightarrow> (Inl e, d')))"

definition ns_exact :: "string option \<Rightarrow> string option \<Rightarrow> bool" where
  "ns_exact namespace column = (case namespace of Some ns \<Rightarrow> column = Some ns | None \<Rightarrow> column = None)"

definition retry_eligible :: "int \<Rightarrow> int \<Rightarrow> string option \<Rightarrow> string list \<Rightarrow> dead_row \<Rightarrow> bool" where
  "retry_eligible cutoff_ms max_retries namespace queues r \<longleftrightarrow>
     d_failed_at r \<le> cutoff_ms \<and> d_dlq_retry_count r < max_retries \<and> d_queue r \<in> set queues \<and>
     \<not> d_shed r \<and> ns_exact namespace (d_namespace r)"

definition list_dead_for_retry ::
    "int \<Rightarrow> int \<Rightarrow> string option \<Rightarrow> string list \<Rightarrow> int \<Rightarrow> db \<Rightarrow> dead_job list" where
  "list_dead_for_retry cutoff_ms max_retries namespace queues limit d =
     map dead_from_narrow (sql_limit limit (order_by (\<lambda>r r'. d_failed_at r \<le> d_failed_at r')
       (filter (retry_eligible cutoff_ms max_retries namespace queues) (dead_letter d))))"

section \<open>Dead-lettering\<close>

lemma dead_job_row_sel [simp]:
  "r_id (dead_job_row now e r) = r_id r" "r_status (dead_job_row now e r) = 4"
  by (simp_all add: dead_job_row_def)

lemma insert_dead_ok:
  "d_id row \<notin> d_id ` set (dead_letter d) \<Longrightarrow> insert_dead row d = Inr (d\<lparr>dead_letter := dead_letter d @ [row]\<rparr>)"
  by (simp add: insert_dead_def insert_row_def)

lemma insert_deadD: "insert_dead row d = Inr d' \<Longrightarrow> d' = d\<lparr>dead_letter := dead_letter d @ [row]\<rparr>"
  by (auto simp: insert_dead_def split: option.splits dest!: insert_row_SomeD)

lemma new_dead_row_id [simp]: "d_id (new_dead_row js u now j e m s) = u"
  by (simp add: new_dead_row_def Let_def)

text \<open>The state the transaction of a dead-lettering commits.\<close>

definition dead_letter_effect :: "int \<Rightarrow> dead_row \<Rightarrow> string \<Rightarrow> string \<Rightarrow> db \<Rightarrow> db" where
  "dead_letter_effect now row jid e d =
     (let d1 = d\<lparr>dead_letter := dead_letter d @ [row]\<rparr>
      in case find_row r_id jid (jobs d) of
           Some r \<Rightarrow> archive_effect (dead_job_row now e r) d1
         | None \<Rightarrow> d1)"

lemma dead_letter_body_ok:
  assumes inv: "store_inv d" and fresh: "d_id row \<notin> d_id ` set (dead_letter d)"
  shows "dead_letter_body now row jid e d = Inr ((), dead_letter_effect now row jid e d)"
    and "keeps_store {} d (dead_letter_effect now row jid e d)"
proof -
  let ?d1 = "d\<lparr>dead_letter := dead_letter d @ [row]\<rparr>"
  have ok: "archive_job_row (dead_job_row now e r) ?d1 = Inr (archive_effect (dead_job_row now e r) ?d1)"
    if "find_row r_id jid (jobs d) = Some r" for r
    using find_live [OF that] inv by (intro archive_job_row_ok) (simp_all add: live_ids_def)
  then show "dead_letter_body now row jid e d = Inr ((), dead_letter_effect now row jid e d)"
    using insert_dead_ok [OF fresh]
    by (auto simp: dead_letter_body_def dead_letter_effect_def Let_def split: option.split)
  have "keeps_store {} ?d1 (archive_effect (dead_job_row now e r) ?d1)"
    if "find_row r_id jid (jobs d) = Some r" for r
    using find_live [OF that] inv by (intro keeps_archive) (simp_all add: live_ids_def)
  moreover have "keeps_store {} d ?d1" using inv by (simp add: keeps_refl)
  ultimately show "keeps_store {} d (dead_letter_effect now row jid e d)"
    unfolding dead_letter_effect_def Let_def
    by (cases "find_row r_id jid (jobs d)") (simp_all only: option.case, blast intro: keeps_trans)
qed

lemma dead_letter_job_eq:
  assumes inv: "store_inv d" and fresh: "u \<notin> d_id ` set (dead_letter d)"
    and d1_def: "d1 = dead_letter_effect now (new_dead_row js u now job e m shed) (j_id job) e d"
  shows "dead_letter_job js u now now' job e m shed d =
      (Inr (), cascade_effect now' (j_id job) ''dependency failed'' (j_namespace job) d1)"
    and "keeps_store {} d (cascade_effect now' (j_id job) ''dependency failed'' (j_namespace job) d1)"
proof -
  note body = dead_letter_body_ok [OF inv, of "new_dead_row js u now job e m shed" now "j_id job" e]
  have keep: "keeps_store {} d d1" unfolding d1_def using body(2) fresh by simp
  note cascade = cascade_cancel_eq [OF keeps_inv [OF keep]]
  show "dead_letter_job js u now now' job e m shed d =
      (Inr (), cascade_effect now' (j_id job) ''dependency failed'' (j_namespace job) d1)"
    using body(1) fresh cascade(1) by (simp add: dead_letter_job_def write_transaction_def d1_def)
  show "keeps_store {} d (cascade_effect now' (j_id job) ''dependency failed'' (j_namespace job) d1)"
    by (rule keeps_trans [OF keep cascade(2)])
qed

lemma doomed_after_dead_letter:
  "doomed jid ns (dead_letter_effect now row jid e d) = doomed jid ns d"
  by (auto simp: fun_eq_iff doomed_def dead_letter_effect_def Let_def split: option.splits)

lemma dead_letter_effect_jobs:
  "jobs (dead_letter_effect now row jid e d) = filter (\<lambda>r. r_id r \<noteq> jid) (jobs d)"
proof (cases "find_row r_id jid (jobs d)")
  case None
  then have "\<forall>r \<in> set (jobs d). r_id r \<noteq> jid" by (auto simp: find_row_None_iff)
  then show ?thesis using None by (simp add: dead_letter_effect_def Let_def)
next
  case (Some r)
  then show ?thesis
    using find_row_SomeD [OF Some] by (simp add: dead_letter_effect_def Let_def delete_where_def)
qed

lemma only_row:
  assumes "store_inv d"
  shows "filter (\<lambda>r. r_id r = jid) (jobs d) =
    (case find_row r_id jid (jobs d) of Some r \<Rightarrow> [r] | None \<Rightarrow> [])"
proof -
  have "distinct (map r_id rows) \<Longrightarrow> filter (\<lambda>r. r_id r = jid) rows =
      (case find_row r_id jid rows of Some r \<Rightarrow> [r] | None \<Rightarrow> [])" for rows :: "job_row list"
    by (induction rows) (auto simp: filter_empty_conv image_iff split: option.splits dest!: find_row_SomeD)
  then show ?thesis using assms by (simp add: store_inv_def live_ok_def)
qed

lemma filter_doomed_rest: "filter (doomed jid ns d) (filter (\<lambda>r. r_id r \<noteq> jid) rows) = filter (doomed jid ns d) rows"
  by (auto simp: doomed_def intro: filter_cong)

lemma cascade_effect_dead [simp]: "dead_letter (cascade_effect now jid reason ns d) = dead_letter d"
proof -
  have "dead_letter (fold archive_effect rows d) = dead_letter d" for rows
    by (induction rows arbitrary: d) simp_all
  then show ?thesis by (simp add: cascade_effect_def)
qed

text \<open>
  C29: Dead-lettering a job cannot fail on a well-formed store. It adds exactly one entry with
  the job's payload, metadata and attribution, archives the job as dead if it is still live,
  and archives as cancelled exactly the pending jobs of its namespace that depend on it, directly
  or not; every other job is untouched. A second dead-lettering of a job already archived adds
  an entry and archives nothing twice.
\<close>

theorem dead_letter_correct:
  assumes "store_inv d" "u \<notin> d_id ` set (dead_letter d)"
  shows "\<exists>d'. dead_letter_job js u now now' job e m shed d = (Inr (), d') \<and> store_inv d' \<and>
    dead_letter d' = dead_letter d @ [new_dead_row js u now job e m shed] \<and>
    jobs d' = filter (\<lambda>r. r_id r \<noteq> j_id job \<and> \<not> doomed (j_id job) (j_namespace job) d r) (jobs d) \<and>
    archived_jobs d' = archived_jobs d @
      map (archived_of_row \<circ> dead_job_row now e) (filter (\<lambda>r. r_id r = j_id job) (jobs d)) @
      map (archived_of_row \<circ> cancelled_row now' (''dependency failed: '' @ j_id job))
        (filter (doomed (j_id job) (j_namespace job) d) (jobs d))"
proof -
  define d1 where "d1 = dead_letter_effect now (new_dead_row js u now job e m shed) (j_id job) e d"
  let ?d = "cascade_effect now' (j_id job) ''dependency failed'' (j_namespace job) d1"
  note eq = dead_letter_job_eq [OF assms d1_def]
  have inv1: "store_inv d1"
    unfolding d1_def by (rule keeps_inv [OF dead_letter_body_ok(2)]) (use assms in simp_all)
  have same: "doomed (j_id job) (j_namespace job) d1 = doomed (j_id job) (j_namespace job) d"
    unfolding d1_def by (rule doomed_after_dead_letter)
  have j1: "jobs d1 = filter (\<lambda>r. r_id r \<noteq> j_id job) (jobs d)"
    unfolding d1_def by (rule dead_letter_effect_jobs)
  have rest: "filter (doomed (j_id job) (j_namespace job) d) (jobs d1) =
      filter (doomed (j_id job) (j_namespace job) d) (jobs d)"
    unfolding j1 by (rule filter_doomed_rest)
  have "archived_jobs d1 = archived_jobs d @
      map (archived_of_row \<circ> dead_job_row now e) (filter (\<lambda>r. r_id r = j_id job) (jobs d))"
    using only_row [OF assms(1), of "j_id job"]
    by (auto simp: d1_def dead_letter_effect_def Let_def split: option.splits)
  moreover have "dead_letter d1 = dead_letter d @ [new_dead_row js u now job e m shed]"
    by (simp add: d1_def dead_letter_effect_def Let_def split: option.split)
  ultimately show ?thesis
    using eq(1) keeps_inv [OF eq(2)] cascade_effect_jobs [OF inv1] j1 rest
    by (intro exI [of _ ?d]) (simp add: cascade_effect_archived same conj_commute)
qed

section \<open>Resurrecting an entry\<close>

lemma keeps_retry_dead_body:
  assumes "store_inv d" "j_id job \<notin> archived_ids d" "j_status job = Pending"
    "retry_dead_body js job dead_id d = Inr (u, d')"
  shows "keeps_store {j_id job} d d'"
proof -
  from assms(4) obtain d1 where ins: "insert_job (new_job_row js job) d = Inr d1"
    and d': "d' = d1\<lparr>dead_letter := delete_where (\<lambda>r. d_id r = dead_id) (dead_letter d1)\<rparr>"
    by (auto simp: retry_dead_body_def and_then_Inr_iff split: if_splits)
  have "r_id (new_job_row js job) = j_id job" "r_status (new_job_row js job) = 0"
    using assms(3) by (simp_all add: new_job_row_def Let_def)
  then have "keeps_store {j_id job} d d1"
    using insert_job_inv [OF assms(1) ins] insert_jobD [OF ins] assms(2)
    by (auto simp: keeps_store_def known_ids_def archived_ids_def live_ids_def)
  then show ?thesis by (simp add: d')
qed

lemma retry_dead_body_eq:
  assumes "j_id job \<notin> live_ids d" "j_unique_key job = None"
  shows "retry_dead_body js job dead_id d =
    (if dead_id \<in> d_id ` set (dead_letter d)
     then Inr ((), d\<lparr>jobs := jobs d @ [new_job_row js job],
       dead_letter := delete_where (\<lambda>r. d_id r = dead_id) (dead_letter d)\<rparr>)
     else Inl (Storage NotFound))"
proof -
  have "insert_job (new_job_row js job) d = Inr (d\<lparr>jobs := jobs d @ [new_job_row js job]\<rparr>)"
    using assms by (simp add: insert_job_def insert_row_def unique_key_taken_def in_unique_index_def
        live_ids_def new_job_row_def Let_def)
  then show ?thesis by (auto simp: retry_dead_body_def count_where_0_iff)
qed

lemma resurrected_sel [simp]:
  "n_unique_key (resurrected js now r) = None" "n_payload (resurrected js now r) = d_payload r"
  "n_metadata (resurrected js now r) = Some (retry_metadata js r)"
  "n_depends_on (resurrected js now r) = []" "n_namespace (resurrected js now r) = d_namespace r"
  by (simp_all add: resurrected_def)

text \<open>
  C30: Resurrecting a dead-letter entry is atomic and namespace-safe. An unknown id and an
  entry of another namespace give the same \<open>JobNotFound\<close>; if another connection removed the
  entry between the read and the transaction, the call gives \<open>JobNotFound\<close> and leaves no job
  behind; otherwise the entry is removed and exactly one job is added, which reads back as a
  fresh pending job with the entry's payload.
\<close>

theorem retry_dead_correct:
  assumes "store_inv (env d)" "u \<notin> live_ids (env d)" "u \<notin> archived_ids (env d)"
  shows "case find_row d_id dead_id (dead_letter d) of
      None \<Rightarrow> retry_dead js u now now' env dead_id ns d = (Inl (JobNotFound dead_id), d)
    | Some r \<Rightarrow>
        if \<not> in_namespace (d_namespace r) ns
        then retry_dead js u now now' env dead_id ns d = (Inl (JobNotFound dead_id), d)
        else if dead_id \<notin> d_id ` set (dead_letter (env d))
        then retry_dead js u now now' env dead_id ns d = (Inl (JobNotFound dead_id), env d)
        else \<exists>d'. retry_dead js u now now' env dead_id ns d = (Inr u, d') \<and> store_inv d' \<and>
          dead_letter d' = delete_where (\<lambda>r. d_id r = dead_id) (dead_letter (env d)) \<and>
          map r_id (jobs d') = map r_id (jobs (env d)) @ [u] \<and>
          archived_jobs d' = archived_jobs (env d) \<and>
          get_job u None d' = Some (into_job u now' (resurrected js now r))"
proof (cases "find_row d_id dead_id (dead_letter d)")
  case None
  then show ?thesis by (simp add: retry_dead_def)
next
  case (Some r)
  let ?job = "into_job u now' (resurrected js now r)"
  let ?d = "(env d)\<lparr>jobs := jobs (env d) @ [new_job_row js ?job],
    dead_letter := delete_where (\<lambda>r. d_id r = dead_id) (dead_letter (env d))\<rparr>"
  have body: "retry_dead_body js ?job dead_id (env d) =
      (if dead_id \<in> d_id ` set (dead_letter (env d)) then Inr ((), ?d) else Inl (Storage NotFound))"
    by (rule retry_dead_body_eq) (use assms in simp_all)
  have "store_inv ?d" if "dead_id \<in> d_id ` set (dead_letter (env d))"
    by (rule keeps_inv [OF keeps_retry_dead_body [OF assms(1), of ?job js dead_id "()"]])
      (use assms that body in simp_all)
  moreover have "get_job u None ?d = Some ?job"
  proof -
    have "find_row r_id u (jobs (env d)) = None"
      using assms(2) by (simp add: find_row_None_iff live_ids_def)
    then have "find_row r_id u (jobs ?d) = Some (new_job_row js ?job)"
      by (simp add: find_row_append new_job_row_def Let_def)
    then show ?thesis
      by (simp add: get_job_def job_in_namespace_def new_job_row_def job_of_row_def from_narrow_def
          Let_def into_job_def from_i32_def)
  qed
  moreover have "r_id (new_job_row js ?job) = u" by (simp add: new_job_row_def Let_def)
  ultimately show ?thesis
    using Some body by (auto simp: retry_dead_def write_transaction_def Let_def)
qed

text \<open>
  Two resurrections of one entry cannot both succeed. If a call reads the entry and another
  call commits first, the late one gets \<open>JobNotFound\<close> and changes nothing, so one dead-letter
  entry becomes at most one job.
\<close>

lemma retry_dead_once:
  assumes "u \<noteq> u'" "u \<notin> live_ids d" "u' \<notin> live_ids d"
    "retry_dead js u t t' (\<lambda>d. d) dead_id ns d = (Inr u, d1)"
  shows "retry_dead js u' s s' (\<lambda>_. d1) dead_id ns' d =
    (Inl (JobNotFound dead_id), if \<exists>r. find_row d_id dead_id (dead_letter d) = Some r \<and>
      in_namespace (d_namespace r) ns' then d1 else d)"
proof -
  obtain r where r: "find_row d_id dead_id (dead_letter d) = Some r" and
    ns: "in_namespace (d_namespace r) ns"
    using assms(4) by (auto simp: retry_dead_def split: option.splits if_splits)
  have body: "retry_dead_body js (into_job u t' (resurrected js t r)) dead_id d = Inr ((), d1)"
    using assms(4) r ns
    by (auto simp: retry_dead_def Let_def write_transaction_def split: sum.splits prod.splits queue_error.splits diesel_error.splits)
  note u = assms(2,3)
  then have d1: "d1 = d\<lparr>jobs := jobs d @ [new_job_row js (into_job u t' (resurrected js t r))],
      dead_letter := delete_where (\<lambda>r. d_id r = dead_id) (dead_letter d)\<rparr>"
    using body retry_dead_body_eq [of "into_job u t' (resurrected js t r)" d js dead_id]
    by (auto split: if_splits)
  have "u' \<notin> live_ids d1" "dead_id \<notin> d_id ` set (dead_letter d1)"
    using u(2) assms(1) by (auto simp: d1 live_ids_def set_delete_where new_job_row_def Let_def into_job_def)
  then have "retry_dead_body js (into_job u' s' (resurrected js s r)) dead_id d1 = Inl (Storage NotFound)"
    by (subst retry_dead_body_eq) simp_all
  then show ?thesis
    using r by (simp add: retry_dead_def Let_def write_transaction_def)
qed

section \<open>The retry count of an entry\<close>

text \<open>
  What the count relies on in \<open>serde_json\<close>: an object that was printed parses back to an object
  with the same value under the key.
\<close>

definition reads_back :: "json_lib \<Rightarrow> (string \<times> json) list \<Rightarrow> string \<Rightarrow> bool" where
  "reads_back js m k \<longleftrightarrow> (case from_str js (to_string js (JObject m)) of
     Some (JObject m') \<Rightarrow> map_of m' k = map_of m k | _ \<Rightarrow> False)"

lemma dlq_count_retry_metadata:
  assumes "0 \<le> d_dlq_retry_count r" "d_dlq_retry_count r < i32_max"
    "reads_back js (retry_object js r) ''__dlq_retry_count''"
  shows "dlq_count js (Some (retry_metadata js r)) = d_dlq_retry_count r + 1"
proof -
  let ?n = "d_dlq_retry_count r + 1"
  have n: "wrapping_i32 ?n = ?n" "is_i64 ?n"
    using assms(1,2) by (auto intro!: wrapping_i32_id simp: i32_min_def i32_max_def i64_defs)
  then have "map_of (retry_object js r) ''__dlq_retry_count'' = Some (JInt ?n)"
    by (simp add: retry_object_def Let_def map_insert_def)
  with assms(3) obtain m' where "from_str js (to_string js (JObject (retry_object js r))) = Some (JObject m')"
    "map_of m' ''__dlq_retry_count'' = Some (JInt ?n)"
    by (auto simp: reads_back_def split: option.splits json.splits)
  then show ?thesis
    using n by (simp add: dlq_count_def retry_metadata_def get_key_def as_i64_def)
qed

lemma retry_dead_read:
  assumes "store_inv d" "u \<notin> live_ids d" "u \<notin> archived_ids d"
    "find_row d_id dead_id (dead_letter d) = Some r"
    "retry_dead js u t t' (\<lambda>d. d) dead_id ns d = (Inr u, d1)"
  shows "get_job u None d1 = Some (into_job u t' (resurrected js t r))"
proof -
  let ?job = "into_job u t' (resurrected js t r)"
  have "retry_dead_body js ?job dead_id d = Inr ((), d1)"
    using assms(4,5) by (auto simp: retry_dead_def Let_def write_transaction_def
        split: if_splits sum.splits prod.splits queue_error.splits diesel_error.splits)
  then have "jobs d1 = jobs d @ [new_job_row js ?job]"
    using retry_dead_body_eq [of ?job d js dead_id] assms(2) by (auto split: if_splits)
  moreover have "find_row r_id u (jobs d) = None"
    using assms(2) by (simp add: find_row_None_iff live_ids_def)
  ultimately show ?thesis
    by (simp add: get_job_def find_row_append job_in_namespace_def job_of_into_job)
qed

text \<open>
  Every trip through the dead-letter queue is counted, so auto-retry ends. If an entry is
  resurrected and the resurrected job dead-letters again, at any later time and in any later
  state, the new entry carries a retry count one higher and the same payload, and once the count
  has reached the configured maximum no auto-retry sweep selects the entry.
\<close>

lemma dlq_retry_count_grows:
  assumes "store_inv d" "u \<notin> live_ids d" "u \<notin> archived_ids d"
    "find_row d_id dead_id (dead_letter d) = Some r" "0 \<le> d_dlq_retry_count r" "d_dlq_retry_count r < i32_max"
    "reads_back js (retry_object js r) ''__dlq_retry_count''"
    "retry_dead js u t t' (\<lambda>d. d) dead_id ns d = (Inr u, d1)" "get_job u None d1 = Some j"
    "j_metadata j' = j_metadata j" "j_payload j' = j_payload j"
    "store_inv d2" "v \<notin> d_id ` set (dead_letter d2)"
    "move_to_dlq js v s s' j' e None d2 = (Inr (), d3)"
  shows "\<exists>row \<in> set (dead_letter d3). d_id row = v \<and> d_payload row = d_payload r \<and>
    d_dlq_retry_count row = d_dlq_retry_count r + 1 \<and>
    (\<forall>cutoff ns' queues maximum. maximum \<le> d_dlq_retry_count r + 1 \<longrightarrow>
       \<not> retry_eligible cutoff maximum ns' queues row)"
proof -
  let ?row = "new_dead_row js v s j' e None False"
  have "j = into_job u t' (resurrected js t r)"
    using retry_dead_read [OF assms(1-4,8)] assms(9) by simp
  then have "j_metadata j' = Some (retry_metadata js r)" "j_payload j' = d_payload r"
    using assms(10,11) by (simp_all add: into_job_def)
  then have "d_dlq_retry_count ?row = d_dlq_retry_count r + 1" "d_payload ?row = d_payload r"
    using dlq_count_retry_metadata [OF assms(5-7)] by (simp_all add: new_dead_row_def Let_def)
  moreover have "?row \<in> set (dead_letter d3)"
    using dead_letter_job_eq(1) [OF assms(12,13) refl, where js = js and job = j' and now = s and now' = s' and e = e
        and m = None and shed = False] assms(14)
    by (auto simp: move_to_dlq_def dead_letter_effect_def Let_def split: option.splits)
  ultimately show ?thesis by (intro bexI [of _ ?row]) (auto simp: retry_eligible_def)
qed

section \<open>Paging the dead-letter queue\<close>

definition all_dead :: "string option \<Rightarrow> db \<Rightarrow> dead_job list" where
  "all_dead ns d = map dead_from_narrow
     (order_by (key_desc dead_key) (filter (\<lambda>r. in_ns ns (d_namespace r)) (dead_letter d)))"

definition dead_keys_ok :: "db \<Rightarrow> bool" where
  "dead_keys_ok d \<longleftrightarrow> distinct (map d_id (dead_letter d))"

lemma dead_key_from_narrow [simp]: "dead_key (dead_from_narrow r) = dead_key r"
  by (simp add: dead_key_def dead_from_narrow_def)

lemma distinct_dead_keys:
  assumes "dead_keys_ok d"
  shows "distinct (map dead_key (filter P (dead_letter d)))"
proof -
  have "map d_id (filter P (dead_letter d)) = map snd (map dead_key (filter P (dead_letter d)))"
    by (simp add: dead_key_def)
  moreover have "distinct (map d_id (filter P (dead_letter d)))"
    using assms by (simp add: dead_keys_ok_def distinct_map_filter)
  ultimately show ?thesis by (metis distinct_map)
qed

lemma list_dead_after_eq:
  assumes "dead_keys_ok d" "0 < limit"
  shows "list_dead_after limit after ns d =
    take (nat limit) (filter (\<lambda>r. before_cursor after (dead_key r)) (all_dead ns d))"
proof -
  let ?F = "filter (\<lambda>r. in_ns ns (d_namespace r)) (dead_letter d)"
  let ?G = "filter (\<lambda>r. before_cursor after (dead_key r) \<and> in_ns ns (d_namespace r)) (dead_letter d)"
  have "order_by (key_desc dead_key) ?G = filter (\<lambda>r. r \<in> set ?G) (order_by (key_desc dead_key) ?F)"
    by (rule order_by_eq_filter)
      (use distinct_dead_keys [OF assms(1)] order_by_newest_first in auto)
  also have "\<dots> = filter (\<lambda>r. before_cursor after (dead_key r)) (order_by (key_desc dead_key) ?F)"
    by (rule filter_cong) auto
  finally show ?thesis
    using assms(2) by (simp add: list_dead_after_def all_dead_def sql_limit_def filter_map comp_def take_map)
qed

interpretation dead_pages: keyset_listing dead_keys_ok "\<lambda>d limit after. list_dead_after limit after ns d"
    dead_key "all_dead ns" for ns
proof
  fix d assume ok: "dead_keys_ok d"
  show "newest_first dead_key (all_dead ns d)"
    using order_by_newest_first [OF distinct_dead_keys [OF ok]]
    by (simp add: newest_first_def all_dead_def sorted_wrt_map)
  show "0 < limit \<Longrightarrow> list_dead_after limit after ns d =
    take (nat limit) (filter (\<lambda>r. before_cursor after (dead_key r)) (all_dead ns d))" for limit after
    by (rule list_dead_after_eq [OF ok])
qed

text \<open>
  Paging the dead-letter queue is complete: following the cursors until a page comes back
  short lists every entry of the namespace exactly once, newest first, for any page size.
\<close>

lemma dead_paging_complete:
  assumes "dead_keys_ok d" "0 < limit" "\<And>r. r \<in> set (all_dead ns d) \<Longrightarrow> cursor_safe (dead_key r)"
  shows "walk_pages (Suc (length (all_dead ns d))) (\<lambda>after. list_dead_after limit after ns d)
      limit dead_key None = all_dead ns d \<and>
    newest_first dead_key (all_dead ns d) \<and>
    mset (map d_id (all_dead ns d)) =
      mset (map d_id (filter (\<lambda>r. in_ns ns (d_namespace r)) (dead_letter d)))"
proof -
  have "walk_pages (Suc (length (all_dead ns d))) (\<lambda>after. list_dead_after limit after ns d)
      limit dead_key None = all_dead ns d"
    using dead_pages.walk_all [OF assms(1,2), of ns None "Suc (length (all_dead ns d))"] assms(3)
    by (simp add: before_cursor_def)
  moreover have "mset (map d_id (all_dead ns d)) =
      mset (map d_id (filter (\<lambda>r. in_ns ns (d_namespace r)) (dead_letter d)))"
    by (simp add: all_dead_def dead_from_narrow_def flip: mset_filter)
      (simp add: image_mset.compositionality comp_def dead_from_narrow_def flip: mset_filter)
  ultimately show ?thesis using dead_pages.every_sorted [OF assms(1)] by blast
qed

section \<open>The operations keep the store contract\<close>

lemma keeps_dead_letter_body:
  assumes "store_inv d" "dead_letter_body now row jid e d = Inr (u, d')"
  shows "keeps_store {} d d'"
proof -
  from assms(2) obtain d1 where "insert_dead row d = Inr d1" by (auto simp: dead_letter_body_def and_then_Inr_iff)
  then have "d_id row \<notin> d_id ` set (dead_letter d)"
    by (auto simp: insert_dead_def insert_row_def split: if_splits)
  with dead_letter_body_ok [OF assms(1) this, of now jid e] assms(2) show ?thesis by auto
qed

lemma keeps_dead_letter_job:
  assumes "store_inv d"
  shows "keeps_store {} d (snd (dead_letter_job js u now now' job e m shed d))"
proof -
  let ?f = "dead_letter_body now (new_dead_row js u now job e m shed) (j_id job) e"
  have "keeps_store {} d (snd (write_transaction ?f d))"
    by (rule keeps_transaction [OF assms]) (rule keeps_dead_letter_body [OF assms])
  then show ?thesis
    using keeps_cascade_cancel keeps_inv keeps_trans
    by (auto simp: dead_letter_job_def split: prod.splits sum.splits)
qed

lemma keeps_dead_ops:
  assumes "store_inv d"
  shows "keeps_store {} d (snd (move_to_dlq js u now now' job e m d))"
    "keeps_store {} d (snd (shed_to_dlq js u now now' job e m d))"
    "keeps_store {} d (snd (purge_dead_by_task t d))" "keeps_store {} d (snd (delete_dead jid ns d))"
  using assms
  by (simp_all add: move_to_dlq_def shed_to_dlq_def keeps_dead_letter_job purge_dead_by_task_def
      delete_dead_def Let_def keeps_refl)

lemma keeps_retry_dead:
  assumes "store_inv d" "u \<notin> archived_ids d"
  shows "keeps_store {u} d (snd (retry_dead js u t t' (\<lambda>d. d) dead_id ns d))"
proof (cases "find_row d_id dead_id (dead_letter d)")
  case None
  then show ?thesis using assms by (simp add: retry_dead_def keeps_refl)
next
  case (Some r)
  let ?f = "retry_dead_body js (into_job u t' (resurrected js t r)) dead_id"
  have "keeps_store {u} d (snd (write_transaction ?f d))"
    by (rule keeps_transaction [OF assms(1)])
      (use keeps_retry_dead_body [OF assms(1), of "into_job u t' (resurrected js t r)"] assms in auto)
  then show ?thesis
    using Some assms(1)
    by (auto simp: retry_dead_def Let_def keeps_refl
        split: prod.splits sum.splits queue_error.splits diesel_error.splits)
qed

section \<open>Concrete runs\<close>

definition lost_job :: job where
  "lost_job = job_of_row (sample_row ''p'' 0)"

lemma lost_job_sel [simp]:
  "j_id lost_job = ''p''" "j_namespace lost_job = None" "j_metadata lost_job = None" "j_payload lost_job = []"
  by (simp_all add: lost_job_def job_of_row_def from_narrow_def sample_row_def new_job_row_def Let_def
      into_job_def plain_job_def)

definition dead_entry :: dead_row where
  "dead_entry = new_dead_row no_json ''x'' 7 lost_job ''boom'' None False"

lemma dead_entry_sel [simp]:
  "d_id dead_entry = ''x''" "d_namespace dead_entry = None" "d_dlq_retry_count dead_entry = 0"
  "d_failed_at dead_entry = 7" "d_metadata dead_entry = None" "d_payload dead_entry = []"
  by (simp_all add: dead_entry_def new_dead_row_def Let_def dlq_count_def or_else_def)

definition dead_db :: db where
  "dead_db = empty_db\<lparr>dead_letter := [dead_entry]\<rparr>"

lemma dead_db_sel [simp]:
  "store_inv dead_db" "jobs dead_db = []" "archived_jobs dead_db = []" "dead_letter dead_db = [dead_entry]"
  "live_ids dead_db = {}" "archived_ids dead_db = {}"
  by (simp_all add: dead_db_def live_ids_def archived_ids_def)

text \<open>A document library that prints every object alike and reads one count back.\<close>

definition counting_json :: json_lib where
  "counting_json = \<lparr>from_str = (\<lambda>_. Some (JObject [(''__dlq_retry_count'', JInt 1)])),
     to_string = (\<lambda>_. ''{}'')\<rparr>"

theorem dead_letter_correct_witness:
  "\<exists>d'. dead_letter_job no_json ''x'' 7 8 lost_job ''boom'' None False hidden_parent = (Inr (), d') \<and>
     store_inv d' \<and> jobs d' = [] \<and> map a_id (archived_jobs d') = [''p'', ''a'', ''b'', ''c'', ''d''] \<and>
     map a_status (archived_jobs d') = [4, 5, 5, 5, 5] \<and> map d_id (dead_letter d') = [''x'']"
proof -
  have "''x'' \<notin> d_id ` set (dead_letter hidden_parent)" by (simp add: hidden_parent_rows)
  from dead_letter_correct [OF store_inv_hidden_parent this, of no_json 7 8 lost_job "''boom''" None False]
  show ?thesis by (auto simp: hidden_parent_rows hidden_parent_doomed cancelled_row_def)
qed

theorem retry_dead_correct_witness:
  "(\<exists>d'. retry_dead no_json ''n'' 9 9 (\<lambda>d. d) ''x'' None dead_db = (Inr ''n'', d') \<and>
     dead_letter d' = [] \<and> map r_id (jobs d') = [''n'']) \<and>
   retry_dead no_json ''n'' 9 9 (\<lambda>d. d) ''x'' (Some ''ns'') dead_db = (Inl (JobNotFound ''x''), dead_db)"
  using retry_dead_correct [where env = "\<lambda>d. d" and d = dead_db and u = "''n''" and dead_id = "''x''"
      and ns = None and js = no_json and now = 9 and now' = 9]
    retry_dead_correct [where env = "\<lambda>d. d" and d = dead_db and u = "''n''" and dead_id = "''x''"
      and ns = "Some ''ns''" and js = no_json and now = 9 and now' = 9]
  by (auto simp: in_namespace_def delete_where_def)

lemma retry_dead_db:
  "retry_dead js ''n'' t t' (\<lambda>d. d) ''x'' None dead_db = (Inr ''n'',
     dead_db\<lparr>jobs := [new_job_row js (into_job ''n'' t' (resurrected js t dead_entry))], dead_letter := []\<rparr>)"
  using retry_dead_body_eq [of "into_job ''n'' t' (resurrected js t dead_entry)" dead_db js "''x''"]
  by (simp add: retry_dead_def in_namespace_def write_transaction_def Let_def delete_where_def)

end
