(* ===== verification/Claims.thy ===== *)
theory Claims
  imports Lifecycle
begin

text \<open>
  Exclusion between workers: execution claims and distributed locks
  (\<open>storage/sqlite/locks.rs\<close>, \<open>storage/diesel_common/locks.rs\<close>), the renew-then-acquire
  leader election of \<open>storage/mod.rs\<close>, and the worker registry
  (\<open>storage/diesel_common/workers.rs\<close>). The locale \<open>exclusive\<close> is the contract both kinds
  of exclusion satisfy: taking what nobody holds succeeds, taking what is held fails and changes
  nothing.
\<close>

section \<open>Distributed locks\<close>

definition acquire_lock :: "int \<Rightarrow> string \<Rightarrow> string \<Rightarrow> int \<Rightarrow> db \<Rightarrow> bool result \<times> db" where
  "acquire_lock now lock_name owner_id ttl_ms d =
     (case find_row l_lock_name lock_name (distributed_locks d) of
        Some lock \<Rightarrow>
          if now < l_expires_at lock then (Inr False, d)
          else (Inr True, d\<lparr>distributed_locks :=
            delete_where (\<lambda>l. l_lock_name l = lock_name) (distributed_locks d) @
            [\<lparr>l_lock_name = lock_name, l_owner_id = owner_id, l_acquired_at = now,
              l_expires_at = wrapping_add now ttl_ms\<rparr>]\<rparr>)
      | None \<Rightarrow> (Inr True, d\<lparr>distributed_locks := distributed_locks d @
            [\<lparr>l_lock_name = lock_name, l_owner_id = owner_id, l_acquired_at = now,
              l_expires_at = wrapping_add now ttl_ms\<rparr>]\<rparr>))"

definition held_by :: "string \<Rightarrow> string \<Rightarrow> lock_row \<Rightarrow> bool" where
  "held_by lock_name owner_id l \<longleftrightarrow> l_lock_name l = lock_name \<and> l_owner_id l = owner_id"

definition release_lock :: "string \<Rightarrow> string \<Rightarrow> db \<Rightarrow> bool result \<times> db" where
  "release_lock lock_name owner_id d =
     (Inr (0 < count_where (held_by lock_name owner_id) (distributed_locks d)),
      d\<lparr>distributed_locks := delete_where (held_by lock_name owner_id) (distributed_locks d)\<rparr>)"

definition extend_lock :: "int \<Rightarrow> string \<Rightarrow> string \<Rightarrow> int \<Rightarrow> db \<Rightarrow> bool result \<times> db" where
  "extend_lock now lock_name owner_id ttl_ms d =
     (Inr (0 < count_where (held_by lock_name owner_id) (distributed_locks d)),
      d\<lparr>distributed_locks := update_where (held_by lock_name owner_id)
          (\<lambda>l. l\<lparr>l_expires_at := wrapping_add now ttl_ms\<rparr>) (distributed_locks d)\<rparr>)"

definition get_lock_info :: "string \<Rightarrow> db \<Rightarrow> lock_row option" where
  "get_lock_info lock_name d = find_row l_lock_name lock_name (distributed_locks d)"

definition reap_expired_locks :: "int \<Rightarrow> db \<Rightarrow> nat result \<times> db" where
  "reap_expired_locks now d =
     (Inr (count_where (\<lambda>l. l_expires_at l \<le> now) (distributed_locks d)),
      d\<lparr>distributed_locks := delete_where (\<lambda>l. l_expires_at l \<le> now) (distributed_locks d)\<rparr>)"

text \<open>Renew first, acquire only when the renewal finds nothing. The two statements read the clock
  separately, and other connections may commit between them.\<close>

definition try_lead ::
    "int \<Rightarrow> int \<Rightarrow> (db \<Rightarrow> db) \<Rightarrow> string \<Rightarrow> string \<Rightarrow> int \<Rightarrow> db \<Rightarrow> bool result \<times> db" where
  "try_lead now now' env lock_name owner_id ttl_ms d =
     (case extend_lock now lock_name owner_id ttl_ms d of
        (Inl e, d1) \<Rightarrow> (Inl e, d1)
      | (Inr True, d1) \<Rightarrow> (Inr True, d1)
      | (Inr False, d1) \<Rightarrow> acquire_lock now' lock_name owner_id ttl_ms (env d1))"

section \<open>Execution claims\<close>

definition claim_execution :: "int \<Rightarrow> string \<Rightarrow> string \<Rightarrow> db \<Rightarrow> bool result \<times> db" where
  "claim_execution now job_id worker_id d =
     (case insert_claim \<lparr>c_job_id = job_id, c_worker_id = worker_id, c_claimed_at = now\<rparr> d of
        Inr d' \<Rightarrow> (Inr True, d')
      | Inl (Storage UniqueViolation) \<Rightarrow> (Inr False, d)
      | Inl e \<Rightarrow> (Inl e, d))"

fun claim_batch_body :: "int \<Rightarrow> string list \<Rightarrow> string \<Rightarrow> db \<Rightarrow> (bool list \<times> db) result" where
  "claim_batch_body now [] worker_id d = Inr ([], d)"
| "claim_batch_body now (job_id # job_ids) worker_id d =
     (case insert_claim \<lparr>c_job_id = job_id, c_worker_id = worker_id, c_claimed_at = now\<rparr> d of
        Inr d' \<Rightarrow> and_then (claim_batch_body now job_ids worker_id d') (\<lambda>(claimed, d''). Inr (True # claimed, d''))
      | Inl (Storage UniqueViolation) \<Rightarrow>
          and_then (claim_batch_body now job_ids worker_id d) (\<lambda>(claimed, d''). Inr (False # claimed, d''))
      | Inl e \<Rightarrow> Inl e)"

definition claim_execution_batch :: "int \<Rightarrow> string list \<Rightarrow> string \<Rightarrow> db \<Rightarrow> bool list result \<times> db" where
  "claim_execution_batch now job_ids worker_id d =
     (if job_ids = [] then (Inr [], d)
      else write_transaction (claim_batch_body now job_ids worker_id) d)"

definition complete_execution :: "string \<Rightarrow> string option \<Rightarrow> db \<Rightarrow> unit result \<times> db" where
  "complete_execution job_id namespace d =
     (if namespace \<noteq> None \<and> get_job job_id namespace d = None then (Inr (), d)
      else (Inr (), d\<lparr>execution_claims := delete_where (\<lambda>c. c_job_id c = job_id) (execution_claims d)\<rparr>))"

definition claimed_by :: "string \<Rightarrow> string \<Rightarrow> claim_row \<Rightarrow> bool" where
  "claimed_by job_id owner c \<longleftrightarrow> c_job_id c = job_id \<and> c_worker_id c = owner"

definition reclaim_execution :: "int \<Rightarrow> string \<Rightarrow> string \<Rightarrow> string \<Rightarrow> db \<Rightarrow> bool result \<times> db" where
  "reclaim_execution now job_id expected_owner new_owner d =
     (Inr (0 < count_where (claimed_by job_id expected_owner) (execution_claims d)),
      d\<lparr>execution_claims := update_where (claimed_by job_id expected_owner)
          (\<lambda>c. c\<lparr>c_worker_id := new_owner, c_claimed_at := now\<rparr>) (execution_claims d)\<rparr>)"

definition purge_execution_claims :: "int \<Rightarrow> db \<Rightarrow> nat result \<times> db" where
  "purge_execution_claims older_than_ms d =
     (Inr (count_where (\<lambda>c. c_claimed_at c < older_than_ms) (execution_claims d)),
      d\<lparr>execution_claims := delete_where (\<lambda>c. c_claimed_at c < older_than_ms) (execution_claims d)\<rparr>)"

definition list_claims_by_worker :: "string \<Rightarrow> db \<Rightarrow> string list" where
  "list_claims_by_worker worker_id d =
     map c_job_id (filter (\<lambda>c. c_worker_id c = worker_id) (execution_claims d))"

section \<open>The worker registry\<close>

record worker_row =
  w_worker_id :: string
  w_last_heartbeat :: int
  w_queues :: string
  w_status :: string
  w_tags :: "string option"
  w_resources :: "string option"
  w_resource_health :: "string option"
  w_threads :: int
  w_started_at :: "int option"
  w_hostname :: "string option"
  w_pid :: "int option"
  w_pool_type :: "string option"
  w_sdk :: "string option"
  w_sdk_version :: "string option"
  w_registry_fingerprint :: "string option"

datatype worker_status = Active | Draining

fun worker_status_str :: "worker_status \<Rightarrow> string" where
  "worker_status_str Active = ''active''"
| "worker_status_str Draining = ''draining''"

definition worker_status_from_wire :: "string \<Rightarrow> worker_status" where
  "worker_status_from_wire wire = (if wire = ''draining'' then Draining else Active)"

definition worker_status_parse :: "string \<Rightarrow> worker_status option" where
  "worker_status_parse wire =
     (if wire = ''active'' then Some Active else if wire = ''draining'' then Some Draining else None)"

record worker_registration =
  wr_worker_id :: string
  wr_queues :: string
  wr_tags :: "string option"
  wr_resources :: "string option"
  wr_resource_health :: "string option"
  wr_threads :: int
  wr_hostname :: "string option"
  wr_pid :: "int option"
  wr_pool_type :: "string option"
  wr_sdk :: "string option"
  wr_sdk_version :: "string option"
  wr_registry_fingerprint :: "string option"

definition joining :: "worker_registration \<Rightarrow> int \<Rightarrow> worker_row" where
  "joining registration now = \<lparr>
     w_worker_id = wr_worker_id registration,
     w_last_heartbeat = now,
     w_queues = wr_queues registration,
     w_status = ''active'',
     w_tags = wr_tags registration,
     w_resources = wr_resources registration,
     w_resource_health = wr_resource_health registration,
     w_threads = wr_threads registration,
     w_started_at = Some now,
     w_hostname = wr_hostname registration,
     w_pid = wr_pid registration,
     w_pool_type = wr_pool_type registration,
     w_sdk = wr_sdk registration,
     w_sdk_version = wr_sdk_version registration,
     w_registry_fingerprint = wr_registry_fingerprint registration\<rparr>"

definition register_worker :: "int \<Rightarrow> worker_registration \<Rightarrow> worker_row list \<Rightarrow> worker_row list" where
  "register_worker now registration ws =
     delete_where (\<lambda>w. w_worker_id w = wr_worker_id registration) ws @ [joining registration now]"

definition heartbeat :: "int \<Rightarrow> string \<Rightarrow> string option \<Rightarrow> worker_row list \<Rightarrow> worker_row list" where
  "heartbeat now worker_id resource_health ws =
     update_where (\<lambda>w. w_worker_id w = worker_id)
       (\<lambda>w. w\<lparr>w_last_heartbeat := now, w_resource_health := resource_health\<rparr>) ws"

definition update_worker_status :: "string \<Rightarrow> worker_status \<Rightarrow> worker_row list \<Rightarrow> worker_row list" where
  "update_worker_status worker_id status ws =
     update_where (\<lambda>w. w_worker_id w = worker_id) (\<lambda>w. w\<lparr>w_status := worker_status_str status\<rparr>) ws"

definition unregister_worker :: "string \<Rightarrow> worker_row list \<Rightarrow> worker_row list" where
  "unregister_worker worker_id ws = delete_where (\<lambda>w. w_worker_id w = worker_id) ws"

definition list_live_worker_ids :: "int \<Rightarrow> worker_row list \<Rightarrow> string list" where
  "list_live_worker_ids cutoff_ms ws = map w_worker_id (filter (\<lambda>w. cutoff_ms \<le> w_last_heartbeat w) ws)"

definition DEAD_WORKER_THRESHOLD_MS :: int where
  "DEAD_WORKER_THRESHOLD_MS = 30000"

definition dead_worker_cutoff :: "int \<Rightarrow> int" where
  "dead_worker_cutoff now = saturating_sub now DEAD_WORKER_THRESHOLD_MS"

text \<open>The scan and the delete are two statements; \<open>env\<close> is what other workers commit between them.\<close>

definition reap_dead_workers ::
    "int \<Rightarrow> (worker_row list \<Rightarrow> worker_row list) \<Rightarrow> worker_row list \<Rightarrow> string list \<times> worker_row list" where
  "reap_dead_workers now env ws =
     (let cutoff = dead_worker_cutoff now;
          dead_ids = map w_worker_id (filter (\<lambda>w. w_last_heartbeat w < cutoff) ws)
      in if dead_ids = [] then (dead_ids, ws)
         else (dead_ids,
               delete_where (\<lambda>w. w_worker_id w \<in> set dead_ids \<and> w_last_heartbeat w < cutoff) (env ws)))"

definition REAPER_LOCK :: string where
  "REAPER_LOCK = ''flexiq:reaper''"

definition REAPER_LOCK_TTL_MS :: int where
  "REAPER_LOCK_TTL_MS = 15000"

definition reap_dead_workers_if_leader ::
    "int \<Rightarrow> int \<Rightarrow> int \<Rightarrow> (db \<Rightarrow> db) \<Rightarrow> (worker_row list \<Rightarrow> worker_row list) \<Rightarrow> string \<Rightarrow>
     db \<times> worker_row list \<Rightarrow> string list \<times> db \<times> worker_row list" where
  "reap_dead_workers_if_leader now now' now'' env wenv owner_id s =
     (case s of (d, ws) \<Rightarrow>
       case try_lead now now' env REAPER_LOCK owner_id REAPER_LOCK_TTL_MS d of
         (Inr True, d') \<Rightarrow> (case reap_dead_workers now'' wenv ws of (dead, ws') \<Rightarrow> (dead, d', ws'))
       | (_, d') \<Rightarrow> ([], d', ws))"

section \<open>The contract of exclusion\<close>

text \<open>Contenders try one after the other, in whatever order the database serializes them.\<close>

fun contend :: "('o \<Rightarrow> 's \<Rightarrow> bool result \<times> 's) \<Rightarrow> 'o list \<Rightarrow> 's \<Rightarrow> bool result list \<times> 's" where
  "contend try_it [] s = ([], s)"
| "contend try_it (p # ps) s =
     (case try_it p s of (r, s') \<Rightarrow> case contend try_it ps s' of (rs, s'') \<Rightarrow> (r # rs, s''))"

locale exclusive =
  fixes inv :: "'s \<Rightarrow> bool" and may_take :: "'o \<Rightarrow> bool" and holder :: "'s \<Rightarrow> 'k \<Rightarrow> 'o option"
    and try_take :: "'k \<Rightarrow> 'o \<Rightarrow> 's \<Rightarrow> bool result \<times> 's"
  assumes take_free: "inv s \<Longrightarrow> may_take p \<Longrightarrow> holder s k = None \<Longrightarrow>
      \<exists>s'. try_take k p s = (Inr True, s') \<and> inv s' \<and> holder s' = (holder s)(k \<mapsto> p)"
    and take_held: "inv s \<Longrightarrow> holder s k = Some q \<Longrightarrow> try_take k p s = (Inr False, s)"
begin

lemma nobody_wins:
  "inv s \<Longrightarrow> holder s k = Some q \<Longrightarrow> contend (try_take k) ps s = (replicate (length ps) (Inr False), s)"
  by (induction ps) (simp_all add: take_held)

lemma first_wins:
  assumes "inv s" "may_take p" "holder s k = None"
  shows "\<exists>s'. contend (try_take k) (p # ps) s = (Inr True # replicate (length ps) (Inr False), s') \<and>
    inv s' \<and> holder s' = (holder s)(k \<mapsto> p)"
proof -
  obtain s' where s': "try_take k p s = (Inr True, s')" "inv s'" "holder s' = (holder s)(k \<mapsto> p)"
    using take_free [OF assms] by blast
  then have "contend (try_take k) ps s' = (replicate (length ps) (Inr False), s')"
    by (intro nobody_wins) simp_all
  with s' show ?thesis by simp
qed

end

section \<open>Claims are exclusive\<close>

definition claim_keys :: "db \<Rightarrow> bool" where
  "claim_keys d \<longleftrightarrow> distinct (map c_job_id (execution_claims d))"

definition claim_holder :: "db \<Rightarrow> string \<Rightarrow> string option" where
  "claim_holder d jid = map_option c_worker_id (find_row c_job_id jid (execution_claims d))"

lemma insert_claim_eq:
  "insert_claim c d =
     (if find_row c_job_id (c_job_id c) (execution_claims d) = None
      then Inr (d\<lparr>execution_claims := execution_claims d @ [c]\<rparr>) else Inl (Storage UniqueViolation))"
  by (auto simp: insert_claim_def insert_row_def find_row_None_iff)

lemma claim_execution_eq:
  "claim_execution now jid w d =
     (if claim_holder d jid = None
      then (Inr True, d\<lparr>execution_claims := execution_claims d @
        [\<lparr>c_job_id = jid, c_worker_id = w, c_claimed_at = now\<rparr>]\<rparr>)
      else (Inr False, d))"
  by (simp add: claim_execution_def insert_claim_eq claim_holder_def)

interpretation claims: exclusive claim_keys "\<lambda>_. True" claim_holder "claim_execution now" for now
proof
  fix s k and p :: string
  assume "claim_keys s" "claim_holder s k = None"
  then show "\<exists>s'. claim_execution now k p s = (Inr True, s') \<and> claim_keys s' \<and>
      claim_holder s' = (claim_holder s)(k \<mapsto> p)"
    by (auto simp: claim_execution_eq claim_keys_def fun_eq_iff claim_holder_def find_row_append
        find_row_None_iff split: option.splits dest: find_row_SomeD)
next
  fix s k q and p :: string
  assume "claim_holder s k = Some q"
  then show "claim_execution now k p s = (Inr False, s)" by (simp add: claim_execution_eq)
qed


text \<open>
  The claim of a dead worker as a rescuer sees it: free while it still names the dead owner,
  and out of reach when it is gone or names somebody else.
\<close>

definition orphan_holder :: "string \<Rightarrow> db \<Rightarrow> string \<Rightarrow> string option" where
  "orphan_holder dead d jid =
     (case claim_holder d jid of
        None \<Rightarrow> Some dead
      | Some w \<Rightarrow> if w = dead then None else Some w)"

lemma reclaim_count:
  assumes "claim_keys d"
  shows "0 < count_where (claimed_by jid w) (execution_claims d) \<longleftrightarrow> claim_holder d jid = Some w"
proof -
  have "0 < count_where (claimed_by jid w) (execution_claims d) \<longleftrightarrow>
      (\<exists>c \<in> set (execution_claims d). c_job_id c = jid \<and> c_worker_id c = w)"
    by (simp add: count_where_def claimed_by_def filter_empty_conv)
  also have "\<dots> \<longleftrightarrow> claim_holder d jid = Some w"
    using assms by (simp add: claim_keys_def claim_holder_def bex_find_row)
  finally show ?thesis .
qed

lemma reclaim_holder:
  "claim_holder (snd (reclaim_execution now jid dead w d)) k =
     (if k = jid \<and> claim_holder d k = Some dead then Some w else claim_holder d k)"
  by (cases "find_row c_job_id k (execution_claims d)")
    (auto simp: reclaim_execution_def claim_holder_def find_row_update_where claimed_by_def
      dest: find_row_SomeD)

lemma reclaim_keys: "claim_keys d \<Longrightarrow> claim_keys (snd (reclaim_execution now jid dead w d))"
  by (simp add: reclaim_execution_def claim_keys_def map_key_update_where)

lemma reclaim_missed:
  assumes "claim_keys d" "claim_holder d jid \<noteq> Some dead"
  shows "reclaim_execution now jid dead w d = (Inr False, d)"
proof -
  have zero: "count_where (claimed_by jid dead) (execution_claims d) = 0"
    using reclaim_count [OF assms(1), of jid dead] assms(2) by simp
  then have "update_where (claimed_by jid dead) f (execution_claims d) = execution_claims d" for f
    by (intro update_where_id) (auto simp: count_where_0_iff)
  with zero show ?thesis by (simp add: reclaim_execution_def)
qed

interpretation rescue: exclusive claim_keys "\<lambda>w. w \<noteq> dead" "orphan_holder dead"
    "\<lambda>jid w. reclaim_execution now jid dead w" for dead now
proof
  fix s k and p :: string
  assume *: "claim_keys s" "p \<noteq> dead" "orphan_holder dead s k = None"
  then have held: "claim_holder s k = Some dead"
    by (auto simp: orphan_holder_def split: option.splits if_splits)
  let ?s = "snd (reclaim_execution now k dead p s)"
  have "reclaim_execution now k dead p s = (Inr True, ?s)"
    using reclaim_count [OF *(1), of k dead] held by (simp add: reclaim_execution_def)
  moreover have "orphan_holder dead ?s = (orphan_holder dead s)(k \<mapsto> p)"
    using *(2) held by (auto simp: fun_eq_iff orphan_holder_def reclaim_holder)
  ultimately show "\<exists>s'. reclaim_execution now k dead p s = (Inr True, s') \<and> claim_keys s' \<and>
      orphan_holder dead s' = (orphan_holder dead s)(k \<mapsto> p)"
    using reclaim_keys [OF *(1)] by blast
next
  fix s k q and p :: string
  assume "claim_keys s" "orphan_holder dead s k = Some q"
  then show "reclaim_execution now k dead p s = (Inr False, s)"
    by (intro reclaim_missed) (auto simp: orphan_holder_def split: option.splits if_splits)
qed

text \<open>
  An orphaned job is rescued by exactly one survivor. When a worker died holding a claim and
  any number of surviving schedulers race to take the claim over, the first transfer wins and
  every later one finds the expected owner gone and changes nothing.
\<close>

lemma orphan_rescued_once:
  assumes "claim_keys d" "claim_holder d jid = Some dead" "w \<noteq> dead"
  shows "\<exists>d'. contend (\<lambda>w. reclaim_execution now jid dead w) (w # ws) d =
      (Inr True # replicate (length ws) (Inr False), d') \<and> claim_keys d' \<and> claim_holder d' jid = Some w"
proof -
  have "orphan_holder dead d jid = None" using assms(2) by (simp add: orphan_holder_def)
  from rescue.first_wins [OF assms(1,3) this, where now = now and ps = ws] obtain d' where
    "contend (\<lambda>w. reclaim_execution now jid dead w) (w # ws) d =
      (Inr True # replicate (length ws) (Inr False), d')"
    "claim_keys d'" "orphan_holder dead d' jid = Some w" by auto
  moreover from this(3) assms(3) have "claim_holder d' jid = Some w"
    by (auto simp: orphan_holder_def split: option.splits if_splits)
  ultimately show ?thesis by blast
qed

section \<open>A batch of claims\<close>

fun claim_each :: "int \<Rightarrow> string list \<Rightarrow> string \<Rightarrow> db \<Rightarrow> bool list \<times> db" where
  "claim_each now [] w d = ([], d)"
| "claim_each now (jid # jids) w d =
     (case claim_execution now jid w d of
        (Inr b, d') \<Rightarrow> (case claim_each now jids w d' of (bs, d'') \<Rightarrow> (b # bs, d''))
      | (Inl _, d') \<Rightarrow> ([], d'))"

lemma claim_batch_body_eq:
  "claim_batch_body now jids w d = Inr (claim_each now jids w d)"
  by (induction jids arbitrary: d)
    (simp_all add: claim_execution_def insert_claim_eq split: prod.split)

lemma claim_each_results:
  assumes "claim_keys d" "distinct jids"
  shows "fst (claim_each now jids w d) = map (\<lambda>jid. claim_holder d jid = None) jids \<and>
    claim_keys (snd (claim_each now jids w d)) \<and>
    (\<forall>k. claim_holder (snd (claim_each now jids w d)) k =
       (if k \<in> set jids \<and> claim_holder d k = None then Some w else claim_holder d k))"
  using assms
proof (induction jids arbitrary: d)
  case (Cons jid jids)
  obtain d' where step: "claim_execution now jid w d = (Inr (claim_holder d jid = None), d')" "claim_keys d'"
    "claim_holder d' = (if claim_holder d jid = None then (claim_holder d)(jid \<mapsto> w) else claim_holder d)"
    using claims.take_free [OF Cons.prems(1) TrueI, where k = jid and p = w and now = now] claims.take_held [OF Cons.prems(1)] Cons.prems(1)
    by (cases "claim_holder d jid") auto
  note IH = Cons.IH [OF step(2)]
  have "claim_holder d' k = claim_holder d k" if "k \<in> set jids" for k
    using step(3) that Cons.prems(2) by auto
  with IH step Cons.prems(2) show ?case
    by (auto split: prod.splits)
qed simp

text \<open>
  Claiming a batch of distinct jobs in one transaction is the same as claiming them one by
  one: it never fails, answers \<open>true\<close> exactly for the jobs nobody held, and those claims
  name the caller afterwards while no other claim changes.
\<close>

lemma claim_batch_equiv:
  assumes "claim_keys d" "distinct jids"
  shows "\<exists>d'. claim_execution_batch now jids w d = (Inr (map (\<lambda>jid. claim_holder d jid = None) jids), d') \<and>
    claim_each now jids w d = (map (\<lambda>jid. claim_holder d jid = None) jids, d') \<and>
    claim_keys d' \<and>
    (\<forall>k. claim_holder d' k =
       (if k \<in> set jids \<and> claim_holder d k = None then Some w else claim_holder d k))"
proof -
  have "claim_execution_batch now jids w d = (Inr (fst (claim_each now jids w d)), snd (claim_each now jids w d))"
    by (simp add: claim_execution_batch_def write_transaction_def claim_batch_body_eq split: prod.split)
  with claim_each_results [OF assms, of now w] show ?thesis by (metis prod.collapse)
qed

section \<open>Leases are exclusive\<close>

definition lock_keys :: "db \<Rightarrow> bool" where
  "lock_keys d \<longleftrightarrow> distinct (map l_lock_name (distributed_locks d))"

definition lease_ok :: "int \<Rightarrow> int \<Rightarrow> bool" where
  "lease_ok now ttl_ms \<longleftrightarrow> 0 < ttl_ms \<and> is_i64 now \<and> is_i64 (now + ttl_ms)"

definition lock_holder :: "int \<Rightarrow> db \<Rightarrow> string \<Rightarrow> string option" where
  "lock_holder now d name =
     (case find_row l_lock_name name (distributed_locks d) of
        Some l \<Rightarrow> if now < l_expires_at l then Some (l_owner_id l) else None
      | None \<Rightarrow> None)"

text \<open>An acquisition either changes nothing or replaces the row of its lock.\<close>

lemma acquire_lock_cases [consumes 1]:
  assumes "lock_keys d"
  obtains (held) l where "find_row l_lock_name n (distributed_locks d) = Some l" "now < l_expires_at l"
      "acquire_lock now n owner ttl d = (Inr False, d)"
  | (taken) d' where "acquire_lock now n owner ttl d = (Inr True, d')" "lock_keys d'"
      "find_row l_lock_name n (distributed_locks d') = Some \<lparr>l_lock_name = n, l_owner_id = owner,
         l_acquired_at = now, l_expires_at = wrapping_add now ttl\<rparr>"
      "\<And>k. k \<noteq> n \<Longrightarrow> find_row l_lock_name k (distributed_locks d') = find_row l_lock_name k (distributed_locks d)"
proof (cases "\<exists>l. find_row l_lock_name n (distributed_locks d) = Some l \<and> now < l_expires_at l")
  case True
  then show ?thesis using held by (auto simp: acquire_lock_def)
next
  case False
  let ?l = "\<lparr>l_lock_name = n, l_owner_id = owner, l_acquired_at = now, l_expires_at = wrapping_add now ttl\<rparr>"
  let ?rows = "delete_where (\<lambda>l. l_lock_name l = n) (distributed_locks d)"
  have "delete_where (\<lambda>l. l_lock_name l = n) (distributed_locks d) = distributed_locks d"
    if "find_row l_lock_name n (distributed_locks d) = None"
    using that by (intro delete_where_id) (auto simp: find_row_None_iff)
  with False have "acquire_lock now n owner ttl d = (Inr True, d\<lparr>distributed_locks := ?rows @ [?l]\<rparr>)"
    by (auto simp: acquire_lock_def split: option.splits)
  moreover have "lock_keys (d\<lparr>distributed_locks := ?rows @ [?l]\<rparr>)"
    using assms by (auto simp: lock_keys_def distinct_delete_where set_delete_where)
  ultimately show ?thesis
    by (rule taken) (auto simp: find_row_append find_row_delete_key split: option.split)
qed

interpretation locks: exclusive lock_keys "\<lambda>_. lease_ok now ttl" "lock_holder now"
    "\<lambda>name owner. acquire_lock now name owner ttl" for now ttl
proof
  fix s k and p :: string
  assume *: "lock_keys s" "lease_ok now ttl" "lock_holder now s k = None"
  from *(1) show "\<exists>s'. acquire_lock now k p ttl s = (Inr True, s') \<and> lock_keys s' \<and>
      lock_holder now s' = (lock_holder now s)(k \<mapsto> p)"
  proof (cases rule: acquire_lock_cases [where n = k and now = now and owner = p and ttl = ttl])
    case (held l)
    then show ?thesis using *(3) by (simp add: lock_holder_def)
  next
    case (taken s')
    have "wrapping_add now ttl = now + ttl"
      using *(2) by (simp add: lease_ok_def wrapping_add_exact)
    with *(2) taken(3,4) have "lock_holder now s' = (lock_holder now s)(k \<mapsto> p)"
      by (auto simp: fun_eq_iff lock_holder_def lease_ok_def)
    with taken(1,2) show ?thesis by blast
  qed
next
  fix s k q and p :: string
  assume "lock_holder now s k = Some q"
  then show "acquire_lock now k p ttl s = (Inr False, s)"
    by (auto simp: acquire_lock_def lock_holder_def split: option.splits if_splits)
qed

text \<open>The operations other processes may interleave with a lease, each with the time it reads.\<close>

datatype lock_op =
    Acquire int string string int
  | Release string string
  | Extend int string string int
  | Reap int

fun run_lock_op :: "lock_op \<Rightarrow> db \<Rightarrow> bool result \<times> db" where
  "run_lock_op (Acquire now name owner ttl) d = acquire_lock now name owner ttl d"
| "run_lock_op (Release name owner) d = release_lock name owner d"
| "run_lock_op (Extend now name owner ttl) d = extend_lock now name owner ttl d"
| "run_lock_op (Reap now) d = (Inr False, snd (reap_expired_locks now d))"

fun run_lock_ops :: "lock_op list \<Rightarrow> db \<Rightarrow> bool result list \<times> db" where
  "run_lock_ops [] d = ([], d)"
| "run_lock_ops (p # ps) d =
     (case run_lock_op p d of (r, d') \<Rightarrow> case run_lock_ops ps d' of (rs, d'') \<Rightarrow> (r # rs, d''))"

text \<open>Somebody else's operation, reading a clock before the deadline.\<close>

fun foreign :: "string \<Rightarrow> int \<Rightarrow> lock_op \<Rightarrow> bool" where
  "foreign me deadline (Acquire now name owner ttl) \<longleftrightarrow> owner \<noteq> me \<and> now < deadline"
| "foreign me deadline (Release name owner) \<longleftrightarrow> owner \<noteq> me"
| "foreign me deadline (Extend now name owner ttl) \<longleftrightarrow> owner \<noteq> me"
| "foreign me deadline (Reap now) \<longleftrightarrow> now < deadline"

fun lock_of :: "lock_op \<Rightarrow> string option" where
  "lock_of (Acquire now name owner ttl) = Some name"
| "lock_of (Release name owner) = Some name"
| "lock_of (Extend now name owner ttl) = Some name"
| "lock_of (Reap now) = None"

definition leased :: "string \<Rightarrow> string \<Rightarrow> int \<Rightarrow> db \<Rightarrow> bool" where
  "leased name me deadline d \<longleftrightarrow> lock_keys d \<and>
     (\<exists>l. find_row l_lock_name name (distributed_locks d) = Some l \<and> l_owner_id l = me \<and>
        deadline \<le> l_expires_at l)"

lemma held_by_others:
  assumes "lock_keys d" "find_row l_lock_name name (distributed_locks d) = Some l" "l_owner_id l \<noteq> owner"
  shows "count_where (held_by name owner) (distributed_locks d) = 0"
  using assms by (auto simp: count_where_0_iff held_by_def lock_keys_def find_row_Some_iff distinct_map
      dest: inj_onD)

lemma leased_acquire:
  assumes "leased name me T d" "owner \<noteq> me" "now < T"
  shows "leased name me T (snd (acquire_lock now n owner ttl d)) \<and>
    (n = name \<longrightarrow> fst (acquire_lock now n owner ttl d) = Inr False)"
proof -
  have keys: "lock_keys d" using assms(1) by (simp add: leased_def)
  then show ?thesis
  proof (cases rule: acquire_lock_cases [where n = n and now = now and owner = owner and ttl = ttl])
    case (held l)
    then show ?thesis using assms by auto
  next
    case (taken d')
    have "n \<noteq> name"
      using assms taken(1) by (auto simp: leased_def acquire_lock_def)
    then show ?thesis using assms(1) taken by (auto simp: leased_def)
  qed
qed

lemma leased_release:
  assumes "leased name me T d" "owner \<noteq> me"
  shows "leased name me T (snd (release_lock n owner d)) \<and>
    (n = name \<longrightarrow> fst (release_lock n owner d) = Inr False)"
  using assms held_by_others [of d name _ owner]
  by (auto simp: leased_def release_lock_def lock_keys_def find_row_delete_where distinct_delete_where
      held_by_def)

lemma leased_extend:
  assumes "leased name me T d" "owner \<noteq> me"
  shows "leased name me T (snd (extend_lock now n owner ttl d)) \<and>
    (n = name \<longrightarrow> fst (extend_lock now n owner ttl d) = Inr False)"
  using assms held_by_others [of d name _ owner]
  by (auto simp: leased_def extend_lock_def lock_keys_def find_row_update_where map_key_update_where
      held_by_def)

lemma leased_reap: "leased name me T d \<Longrightarrow> now < T \<Longrightarrow> leased name me T (snd (reap_expired_locks now d))"
  by (auto simp: leased_def reap_expired_locks_def lock_keys_def find_row_delete_where distinct_delete_where)

lemma leased_op:
  assumes "leased name me T d" "foreign me T p"
  shows "leased name me T (snd (run_lock_op p d)) \<and>
    (lock_of p = Some name \<longrightarrow> fst (run_lock_op p d) = Inr False)"
  using assms by (cases p) (simp_all add: leased_acquire leased_release leased_extend leased_reap)

lemma leased_ops:
  assumes "leased name me T d" "list_all (foreign me T) ps"
  shows "leased name me T (snd (run_lock_ops ps d)) \<and>
    list_all2 (\<lambda>p r. lock_of p = Some name \<longrightarrow> r = Inr False) ps (fst (run_lock_ops ps d))"
  using assms
proof (induction ps arbitrary: d)
  case (Cons p ps)
  have op: "leased name me T (snd (run_lock_op p d))" "lock_of p = Some name \<longrightarrow> fst (run_lock_op p d) = Inr False"
    using leased_op [OF Cons.prems(1), of p] Cons.prems(2) by simp_all
  have "list_all (foreign me T) ps" using Cons.prems(2) by simp
  from Cons.IH [OF op(1) this] op(2) show ?case by (simp add: case_prod_unfold)
qed simp

lemma acquired_lease:
  assumes "lock_keys d" "lease_ok now ttl" "acquire_lock now name me ttl d = (Inr True, d')"
  shows "leased name me (now + ttl) d'"
proof -
  have exact: "wrapping_add now ttl = now + ttl" using assms(2) by (simp add: lease_ok_def wrapping_add_exact)
  from assms(1) show ?thesis
    by (cases rule: acquire_lock_cases [where n = name and now = now and owner = me and ttl = ttl])
      (use assms(3) exact in \<open>auto simp: leased_def\<close>)
qed

lemma extended_lease:
  assumes "lock_keys d" "lease_ok now ttl" "extend_lock now name me ttl d = (Inr True, d')"
  shows "leased name me (now + ttl) d'"
proof -
  have exact: "wrapping_add now ttl = now + ttl" using assms(2) by (simp add: lease_ok_def wrapping_add_exact)
  from assms(3) have "\<exists>l \<in> set (distributed_locks d). l_lock_name l = name \<and> l_owner_id l = me"
    by (auto simp: extend_lock_def count_where_def filter_empty_conv held_by_def)
  then obtain l where "find_row l_lock_name name (distributed_locks d) = Some l" "l_owner_id l = me"
    using assms(1) by (auto simp: lock_keys_def find_row_Some_iff)
  then show ?thesis
    using assms(1,3) exact
    by (auto simp: leased_def extend_lock_def lock_keys_def find_row_update_where map_key_update_where
        held_by_def dest: find_row_SomeD)
qed

text \<open>
  C26: A lease excludes everybody else until it runs out, and its owner can renew it in time. After
  a successful election, no sequence of lock operations by other processes that read the clock
  before the lease ends (acquisitions, releases, extensions and reaps, on any lock) takes the lock,
  releases it or extends it, and the owner's next election, before the end of the lease, succeeds.
\<close>

theorem lease_exclusive:
  assumes "lock_keys d" "lease_ok now ttl" "lease_ok now' ttl"
    "try_lead now now' (\<lambda>d. d) name me ttl d = (Inr True, d1)" "now \<le> now'"
    "list_all (foreign me (now + ttl)) ps" "run_lock_ops ps d1 = (rs, d2)"
  shows "list_all2 (\<lambda>p r. lock_of p = Some name \<longrightarrow> r = Inr False) ps rs \<and>
    leased name me (now + ttl) d2 \<and> fst (try_lead t t' env name me ttl d2) = Inr True"
proof -
  have lease: "leased name me (now + ttl) d1"
  proof (cases "fst (extend_lock now name me ttl d) = Inr True")
    case True
    then show ?thesis
      using assms(4) extended_lease [OF assms(1,2)] by (auto simp: try_lead_def split: prod.splits)
  next
    case False
    then have "extend_lock now name me ttl d = (Inr False, d)"
      by (auto simp: extend_lock_def count_where_0_iff update_where_id)
    then have "leased name me (now' + ttl) d1"
      using assms(4) acquired_lease [OF assms(1,3)] by (simp add: try_lead_def)
    with assms(5) show ?thesis by (force simp: leased_def)
  qed
  from leased_ops [OF this assms(6)] assms(7)
  have rest: "list_all2 (\<lambda>p r. lock_of p = Some name \<longrightarrow> r = Inr False) ps rs"
      "leased name me (now + ttl) d2" by simp_all
  then obtain l where "l \<in> set (distributed_locks d2)" "held_by name me l"
    by (auto simp: leased_def held_by_def dest: find_row_SomeD)
  then have "count_where (held_by name me) (distributed_locks d2) \<noteq> 0"
    by (metis count_where_0_iff)
  then have "fst (try_lead t t' env name me ttl d2) = Inr True"
    by (simp add: try_lead_def extend_lock_def)
  with rest show ?thesis by blast
qed

section \<open>Reaping workers\<close>

text \<open>
  Reaping never removes a worker that is alive. Every registered worker is either live or dead
  at the scan and never both; whatever other processes commit between the scan and the delete, a
  worker whose heartbeat is fresh at the delete stays registered, and only a worker that was dead at
  the scan and still is at the delete is removed.
\<close>

lemma reap_spares_the_living:
  assumes "distinct (map w_worker_id ws)" "reap_dead_workers now env ws = (dead, ws')"
  defines "live \<equiv> list_live_worker_ids (dead_worker_cutoff now) ws"
  shows "set live \<inter> set dead = {} \<and> set live \<union> set dead = w_worker_id ` set ws \<and>
    (if dead = [] then ws' = ws
     else (\<forall>w \<in> set (env ws). dead_worker_cutoff now \<le> w_last_heartbeat w \<longrightarrow> w \<in> set ws') \<and>
       (\<forall>w \<in> set (env ws) - set ws'. w_worker_id w \<in> set dead) \<and> set ws' \<subseteq> set (env ws))"
proof -
  define c where "c = dead_worker_cutoff now"
  have dead: "dead = map w_worker_id (filter (\<lambda>w. w_last_heartbeat w < c) ws)"
    using assms(2) by (auto simp: reap_dead_workers_def Let_def c_def split: if_splits)
  have live: "live = map w_worker_id (filter (\<lambda>w. c \<le> w_last_heartbeat w) ws)"
    by (simp add: live_def list_live_worker_ids_def c_def)
  have inj: "inj_on w_worker_id (set ws)" using assms(1) by (simp add: distinct_map)
  have "set live \<inter> set dead = w_worker_id ` ({w \<in> set ws. c \<le> w_last_heartbeat w} \<inter> {w \<in> set ws. w_last_heartbeat w < c})"
    unfolding live dead set_map set_filter by (rule inj_on_image_Int [OF inj, symmetric]) auto
  also have "\<dots> = {}" by auto
  finally have "set live \<inter> set dead = {}" .
  moreover have "set live \<union> set dead = w_worker_id ` set ws"
    unfolding live dead set_map set_filter image_Un [symmetric]
    by (rule arg_cong [where f = "image w_worker_id"]) auto
  moreover have "if dead = [] then ws' = ws
     else (\<forall>w \<in> set (env ws). c \<le> w_last_heartbeat w \<longrightarrow> w \<in> set ws') \<and>
       (\<forall>w \<in> set (env ws) - set ws'. w_worker_id w \<in> set dead) \<and> set ws' \<subseteq> set (env ws)"
  proof (cases "dead = []")
    case True
    then have "ws' = ws" using assms(2) by (auto simp: reap_dead_workers_def Let_def split: if_splits)
    with True show ?thesis by simp
  next
    case False
    define P where "P = (\<lambda>w :: worker_row. w_worker_id w \<in> set dead \<and> w_last_heartbeat w < c)"
    have "ws' = delete_where P (env ws)"
      using assms(2) False by (auto simp: reap_dead_workers_def Let_def c_def P_def split: if_splits)
    then have "set ws' = {w \<in> set (env ws). \<not> P w}" by (simp only: set_delete_where)
    with False show ?thesis by (auto simp: P_def)
  qed
  ultimately show ?thesis unfolding c_def by blast
qed

section \<open>The operations keep the store contract\<close>

lemma keeps_claims:
  "store_inv d \<Longrightarrow> distinct (map c_job_id cs) \<Longrightarrow> keeps_store new d (d\<lparr>execution_claims := cs\<rparr>)"
  by (simp add: keeps_store_def known_ids_def store_inv_claims)

lemma store_claim_keys: "store_inv d \<Longrightarrow> claim_keys d"
  by (simp add: store_inv_def claim_keys_def)

lemma keeps_insert_claim:
  "store_inv d \<Longrightarrow> insert_claim c d = Inr d' \<Longrightarrow> keeps_store {} d d'"
  using insert_claimD [of c d d'] store_claim_keys [of d] by (auto simp: claim_keys_def intro: keeps_claims)

lemma keeps_claim_execution: "store_inv d \<Longrightarrow> keeps_store {} d (snd (claim_execution now jid w d))"
  using keeps_insert_claim
  by (auto simp: claim_execution_def keeps_refl split: sum.splits queue_error.splits diesel_error.splits)

lemma keeps_claim_each: "store_inv d \<Longrightarrow> keeps_store {} d (snd (claim_each now jids w d))"
proof (induction jids arbitrary: d)
  case (Cons jid jids)
  have step: "keeps_store {} d (snd (claim_execution now jid w d))" by (rule keeps_claim_execution [OF Cons.prems])
  have "keeps_store {} (snd (claim_execution now jid w d)) (snd (claim_each now jids w (snd (claim_execution now jid w d))))"
    by (rule Cons.IH [OF keeps_inv [OF step]])
  with step show ?case by (auto split: prod.splits sum.splits intro: keeps_trans)
qed (simp add: keeps_refl)

lemma keeps_claim_ops:
  assumes "store_inv d"
  shows "keeps_store {} d (snd (claim_execution_batch now jids w d))"
    "keeps_store {} d (snd (complete_execution jid ns d))"
    "keeps_store {} d (snd (reclaim_execution now jid dead w d))"
    "keeps_store {} d (snd (purge_execution_claims t d))"
proof -
  show "keeps_store {} d (snd (claim_execution_batch now jids w d))"
    using keeps_claim_each [OF assms, of now jids w]
    by (auto simp: claim_execution_batch_def write_transaction_def claim_batch_body_eq keeps_refl assms
        split: prod.split)
  show "keeps_store {} d (snd (complete_execution jid ns d))"
    using assms by (simp add: complete_execution_def keeps_refl keeps_delete_claims)
  show "keeps_store {} d (snd (reclaim_execution now jid dead w d))"
    using assms store_claim_keys [OF assms]
    by (simp add: reclaim_execution_def keeps_claims claim_keys_def map_key_update_where)
  show "keeps_store {} d (snd (purge_execution_claims t d))"
    using assms by (simp add: purge_execution_claims_def keeps_refl keeps_delete_claims)
qed

lemma keeps_lock_op: "store_inv d \<Longrightarrow> keeps_store {} d (snd (run_lock_op p d))"
  by (cases p) (auto simp: acquire_lock_def release_lock_def extend_lock_def reap_expired_locks_def
      keeps_refl split: option.split)

section \<open>Concrete runs\<close>


definition one_claim :: db where
  "one_claim = empty_db\<lparr>execution_claims := [\<lparr>c_job_id = ''a'', c_worker_id = ''w1'', c_claimed_at = 0\<rparr>]\<rparr>"

lemma one_claim_holder [simp]:
  "claim_keys one_claim" "claim_holder one_claim ''a'' = Some ''w1''" "claim_holder one_claim ''b'' = None"
  by (simp_all add: one_claim_def claim_keys_def claim_holder_def)

theorem lease_exclusive_witness:
  "\<exists>d1. try_lead 0 0 (\<lambda>d. d) REAPER_LOCK ''w1'' REAPER_LOCK_TTL_MS empty_db = (Inr True, d1) \<and>
     fst (run_lock_ops [Acquire 100 REAPER_LOCK ''w2'' 15000, Reap 14999] d1) = [Inr False, Inr False] \<and>
     fst (try_lead 14999 14999 (\<lambda>d. d) REAPER_LOCK ''w1'' REAPER_LOCK_TTL_MS
       (snd (run_lock_ops [Acquire 100 REAPER_LOCK ''w2'' 15000, Reap 14999] d1))) = Inr True"
proof -
  let ?d1 = "empty_db\<lparr>distributed_locks := [\<lparr>l_lock_name = REAPER_LOCK, l_owner_id = ''w1'', l_acquired_at = 0,
      l_expires_at = 15000\<rparr>]\<rparr>"
  have keys: "lock_keys empty_db" and ok: "lease_ok 0 REAPER_LOCK_TTL_MS"
    by (simp_all add: lock_keys_def lease_ok_def REAPER_LOCK_TTL_MS_def i64_defs)
  have lead: "try_lead 0 0 (\<lambda>d. d) REAPER_LOCK ''w1'' REAPER_LOCK_TTL_MS empty_db = (Inr True, ?d1)"
    by (simp add: try_lead_def extend_lock_def acquire_lock_def count_where_def update_where_def
        wrapping_add_def wrapping_i64_def REAPER_LOCK_TTL_MS_def)
  let ?ops = "[Acquire 100 REAPER_LOCK ''w2'' 15000, Reap 14999]"
  have "list_all (foreign ''w1'' (0 + REAPER_LOCK_TTL_MS)) ?ops" by (simp add: REAPER_LOCK_TTL_MS_def)
  from lease_exclusive [OF keys ok ok lead _ this prod.collapse [symmetric], of 14999 14999 "\<lambda>d. d"]
  have "fst (try_lead 14999 14999 (\<lambda>d. d) REAPER_LOCK ''w1'' REAPER_LOCK_TTL_MS
       (snd (run_lock_ops ?ops ?d1))) = Inr True" by simp
  moreover have "fst (run_lock_ops ?ops ?d1) = [Inr False, Inr False]"
    by (simp add: acquire_lock_def reap_expired_locks_def)
  ultimately show ?thesis using lead by blast
qed

definition sample_worker :: "string \<Rightarrow> int \<Rightarrow> worker_row" where
  "sample_worker wid t = joining \<lparr>wr_worker_id = wid, wr_queues = ''default'', wr_tags = None,
     wr_resources = None, wr_resource_health = None, wr_threads = 1, wr_hostname = None, wr_pid = None,
     wr_pool_type = None, wr_sdk = None, wr_sdk_version = None, wr_registry_fingerprint = None\<rparr> t"

lemma sample_worker_sel [simp]:
  "w_worker_id (sample_worker wid t) = wid" "w_last_heartbeat (sample_worker wid t) = t"
  by (simp_all add: sample_worker_def joining_def)

end
