(* ===== verification/Steps.thy ===== *)
theory Steps
  imports Claims
begin

text \<open>
  Durable steps (\<open>storage/diesel_common/steps.rs\<close>, \<open>step.rs\<close>): the memo a job keeps of
  the work it has done inside one execution, fenced by the execution claim and the attempt
  number, with its limits, its sleep, and the check that decides whether a result still speaks for
  its job.
\<close>

section \<open>Limits and kinds\<close>

record step_limits =
  max_step_bytes :: nat
  max_total_bytes :: nat
  max_steps :: nat

definition MAX_STEP_BYTES_CEILING :: nat where
  "MAX_STEP_BYTES_CEILING = 1024 * 1024"

definition MAX_TOTAL_BYTES_CEILING :: nat where
  "MAX_TOTAL_BYTES_CEILING = 64 * 1024 * 1024"

definition MAX_STEPS_CEILING :: nat where
  "MAX_STEPS_CEILING = 100000"

definition default_limits :: step_limits where
  "default_limits = \<lparr>max_step_bytes = 256 * 1024, max_total_bytes = 4 * 1024 * 1024, max_steps = 1000\<rparr>"

definition clamped :: "step_limits \<Rightarrow> step_limits" where
  "clamped l = \<lparr>max_step_bytes = min (max_step_bytes l) MAX_STEP_BYTES_CEILING,
     max_total_bytes = min (max_total_bytes l) MAX_TOTAL_BYTES_CEILING,
     max_steps = min (max_steps l) MAX_STEPS_CEILING\<rparr>"

datatype step_kind = RunStep | SleepStep

fun step_kind_str :: "step_kind \<Rightarrow> string" where
  "step_kind_str RunStep = ''run''"
| "step_kind_str SleepStep = ''sleep''"

definition step_kind_from_wire :: "string \<Rightarrow> step_kind" where
  "step_kind_from_wire v = (if v = ''sleep'' then SleepStep else RunStep)"

record job_step =
  js_job_id :: string
  js_seq :: int
  js_step_key :: string
  js_kind :: step_kind
  js_result :: "bytes option"
  js_wake_at :: "int option"
  js_created_at :: int

definition job_step_of_row :: "step_row \<Rightarrow> job_step" where
  "job_step_of_row r = \<lparr>js_job_id = s_job_id r, js_seq = s_seq r, js_step_key = s_step_key r,
     js_kind = step_kind_from_wire (s_kind r), js_result = s_result r, js_wake_at = s_wake_at r,
     js_created_at = s_created_at r\<rparr>"

record new_job_step =
  ns_job_id :: string
  ns_seq :: int
  ns_step_key :: string
  ns_kind :: step_kind
  ns_result :: "bytes option"

datatype step_commit = Committed | AlreadyCommitted

datatype sleep_outcome = Slept int | AlreadySleeping int

fun outcome_wake_at :: "sleep_outcome \<Rightarrow> int" where
  "outcome_wake_at (Slept t) = t"
| "outcome_wake_at (AlreadySleeping t) = t"

datatype attempt_fence = Authorized | Superseded

datatype step_failure = Retryable | Permanent | SupersededFailure

fun classify_step_failure :: "queue_error \<Rightarrow> step_failure" where
  "classify_step_failure (ClaimLost _) = SupersededFailure"
| "classify_step_failure (StepDiverged _ _ _ _) = Permanent"
| "classify_step_failure (StepLimitExceeded _ _ _ _) = Permanent"
| "classify_step_failure (Serialization _) = Permanent"
| "classify_step_failure (Config _) = Permanent"
| "classify_step_failure (ContractTooOld _ _) = Permanent"
| "classify_step_failure (Storage UniqueViolation) = Permanent"
| "classify_step_failure _ = Retryable"

section \<open>The fence\<close>

definition resolve_step_fence ::
    "int \<Rightarrow> string \<Rightarrow> string \<Rightarrow> int \<Rightarrow> string option \<Rightarrow> bool \<Rightarrow> db \<Rightarrow> (string option \<times> db) result" where
  "resolve_step_fence now job_id owner attempt namespace reassert d =
     (case find_row r_id job_id (jobs d) of
        None \<Rightarrow> Inl (ClaimLost job_id)
      | Some r \<Rightarrow>
          if \<not> job_in_namespace (r_namespace r) namespace \<or> r_status r \<noteq> status_code Running
             \<or> r_retry_count r \<noteq> attempt
          then Inl (ClaimLost job_id)
          else
            (case find_row c_job_id job_id (execution_claims d) of
               Some c \<Rightarrow> if c_worker_id c = owner then Inr (r_namespace r, d) else Inl (ClaimLost job_id)
             | None \<Rightarrow>
                 if reassert
                 then and_then (insert_claim \<lparr>c_job_id = job_id, c_worker_id = owner, c_claimed_at = now\<rparr> d)
                        (\<lambda>d'. Inr (r_namespace r, d'))
                 else Inr (r_namespace r, d)))"

section \<open>Committing a step\<close>

definition steps_of :: "string \<Rightarrow> db \<Rightarrow> step_row list" where
  "steps_of job_id d = filter (\<lambda>s. s_job_id s = job_id) (job_steps d)"

definition step_totals :: "string \<Rightarrow> db \<Rightarrow> int \<times> int" where
  "step_totals job_id d =
     (int (length (steps_of job_id d)), sum_list (map s_result_len (steps_of job_id d)))"

definition quoted :: "string \<Rightarrow> string" where
  "quoted s = [CHR 0x27] @ s @ [CHR 0x27]"

definition check_step_position :: "string \<Rightarrow> int \<Rightarrow> string \<Rightarrow> int \<Rightarrow> db \<Rightarrow> unit result" where
  "check_step_position job_id seq step_key committed d =
     (case find (\<lambda>s. s_step_key s = step_key) (steps_of job_id d) of
        Some s \<Rightarrow> Inl (StepDiverged job_id seq ''an unused step key''
          (quoted step_key @ '', already committed at position '' @ string_of_int (s_seq s)))
      | None \<Rightarrow>
          if seq \<noteq> committed
          then Inl (StepDiverged job_id seq (''position '' @ string_of_int committed)
                 (''position '' @ string_of_int seq))
          else Inr ())"

definition check_step_count :: "int \<Rightarrow> string \<Rightarrow> step_limits \<Rightarrow> unit result" where
  "check_step_count committed step_key limits =
     (if committed + 1 > int (max_steps limits)
      then Inl (StepLimitExceeded step_key ''step count'' (committed + 1) (int (max_steps limits)))
      else Inr ())"

text \<open>
  The insert runs under the primary key and the two unique indexes on the job's step keys and
  positions.
\<close>

definition payload_of :: "new_job_step \<Rightarrow> bytes" where
  "payload_of step = (case ns_result step of Some b \<Rightarrow> b | None \<Rightarrow> [])"

definition wrapping_len :: "bytes \<Rightarrow> int" where
  "wrapping_len b = (int (length b) + 2 ^ 31) mod 2 ^ 32 - 2 ^ 31"

definition new_step_row ::
    "string \<Rightarrow> int \<Rightarrow> new_job_step \<Rightarrow> string option \<Rightarrow> int option \<Rightarrow> step_row" where
  "new_step_row uid now step job_namespace wake_at = \<lparr>
     s_id = uid,
     s_job_id = ns_job_id step,
     s_namespace = job_namespace,
     s_step_key = ns_step_key step,
     s_seq = ns_seq step,
     s_kind = step_kind_str (ns_kind step),
     s_result = ns_result step,
     s_result_len = wrapping_len (payload_of step),
     s_wake_at = wake_at,
     s_created_at = now\<rparr>"

definition insert_step_row :: "step_row \<Rightarrow> db \<Rightarrow> db result" where
  "insert_step_row row d =
     (if s_id row \<in> s_id ` set (job_steps d) \<or>
         (s_job_id row, s_step_key row) \<in> (\<lambda>s. (s_job_id s, s_step_key s)) ` set (job_steps d) \<or>
         (s_job_id row, s_seq row) \<in> (\<lambda>s. (s_job_id s, s_seq s)) ` set (job_steps d)
      then Inl (Storage UniqueViolation)
      else Inr (d\<lparr>job_steps := job_steps d @ [row]\<rparr>))"

definition supports_steps :: bool where
  "supports_steps = True"

definition get_job_steps :: "string \<Rightarrow> string option \<Rightarrow> db \<Rightarrow> job_step list" where
  "get_job_steps job_id namespace d =
     map job_step_of_row (order_by (\<lambda>s s'. s_seq s \<le> s_seq s')
       (filter (\<lambda>s. job_in_namespace (s_namespace s) namespace) (steps_of job_id d)))"

definition stored_step :: "string \<Rightarrow> int \<Rightarrow> db \<Rightarrow> step_row option" where
  "stored_step job_id seq d = find (\<lambda>s. s_seq s = seq) (steps_of job_id d)"

definition step_name :: "string \<Rightarrow> string \<Rightarrow> string" where
  "step_name kind key = ''a '' @ kind @ '' step '' @ quoted key"

definition replay_commit :: "new_job_step \<Rightarrow> step_row \<Rightarrow> step_commit result" where
  "replay_commit step s =
     (if s_step_key s \<noteq> ns_step_key step \<or> s_kind s \<noteq> step_kind_str (ns_kind step)
      then Inl (StepDiverged (ns_job_id step) (ns_seq step) (step_name (s_kind s) (s_step_key s))
             (step_name (step_kind_str (ns_kind step)) (ns_step_key step)))
      else if (case s_result s of Some b \<Rightarrow> b | None \<Rightarrow> []) = payload_of step
      then Inr AlreadyCommitted
      else Inl (StepDiverged (ns_job_id step) (ns_seq step)
             (''the stored result of '' @ quoted (s_step_key s)) ''a different result for the same step''))"

definition first_commit ::
    "string \<Rightarrow> int \<Rightarrow> new_job_step \<Rightarrow> step_limits \<Rightarrow> string option \<Rightarrow> db \<Rightarrow> (step_commit \<times> db) result" where
  "first_commit uid now step limits job_namespace d =
     (case step_totals (ns_job_id step) d of (committed, stored_bytes) \<Rightarrow>
       and_then (check_step_position (ns_job_id step) (ns_seq step) (ns_step_key step) committed d) (\<lambda>_.
       and_then (check_step_count committed (ns_step_key step) limits) (\<lambda>_.
         let tot = stored_bytes + int (length (payload_of step))
         in if tot > int (max_total_bytes limits)
            then Inl (StepLimitExceeded (ns_step_key step) ''total bytes'' tot (int (max_total_bytes limits)))
            else and_then (insert_step_row (new_step_row uid now step job_namespace None) d)
                   (\<lambda>d'. Inr (Committed, d')))))"

definition commit_body ::
    "string \<Rightarrow> int \<Rightarrow> new_job_step \<Rightarrow> string \<Rightarrow> int \<Rightarrow> step_limits \<Rightarrow> string option \<Rightarrow> db \<Rightarrow>
     (step_commit \<times> db) result" where
  "commit_body uid now step owner attempt limits namespace d =
     and_then (resolve_step_fence now (ns_job_id step) owner attempt namespace True d) (\<lambda>(job_namespace, d1).
       case stored_step (ns_job_id step) (ns_seq step) d1 of
         Some s \<Rightarrow> and_then (replay_commit step s) (\<lambda>c. Inr (c, d1))
       | None \<Rightarrow> first_commit uid now step limits job_namespace d1)"

definition record_step_result ::
    "string \<Rightarrow> int \<Rightarrow> new_job_step \<Rightarrow> string \<Rightarrow> int \<Rightarrow> step_limits \<Rightarrow> string option \<Rightarrow> db \<Rightarrow>
     step_commit result \<times> db" where
  "record_step_result uid now step owner attempt limits namespace d =
     (let limits = clamped limits
      in if length (payload_of step) > max_step_bytes limits
         then (Inl (StepLimitExceeded (ns_step_key step) ''step bytes'' (int (length (payload_of step)))
                 (int (max_step_bytes limits))), d)
         else write_transaction (commit_body uid now step owner attempt limits namespace) d)"

section \<open>Sleeping\<close>

definition sleep_stored :: "new_job_step \<Rightarrow> step_row \<Rightarrow> sleep_outcome result" where
  "sleep_stored step s =
     (if s_step_key s \<noteq> ns_step_key step \<or> s_kind s \<noteq> step_kind_str SleepStep
      then Inl (StepDiverged (ns_job_id step) (ns_seq step) (step_name (s_kind s) (s_step_key s))
             (''a sleep step '' @ quoted (ns_step_key step)))
      else case s_wake_at s of
          Some deadline \<Rightarrow> Inr (AlreadySleeping deadline)
        | None \<Rightarrow> Inl (StepDiverged (ns_job_id step) (ns_seq step) ''a sleep step with a deadline''
                    (quoted (s_step_key s) @ '' with none'')))"

definition sleep_first ::
    "string \<Rightarrow> int \<Rightarrow> new_job_step \<Rightarrow> int \<Rightarrow> step_limits \<Rightarrow> string option \<Rightarrow> db \<Rightarrow> (sleep_outcome \<times> db) result" where
  "sleep_first uid now step wake_at limits job_namespace d =
     (case step_totals (ns_job_id step) d of (committed, _) \<Rightarrow>
       and_then (check_step_position (ns_job_id step) (ns_seq step) (ns_step_key step) committed d) (\<lambda>_.
       and_then (check_step_count committed (ns_step_key step) limits) (\<lambda>_.
       and_then (insert_step_row (new_step_row uid now step job_namespace (Some wake_at)) d) (\<lambda>d'.
         Inr (Slept wake_at, d')))))"

definition asleep_row :: "int \<Rightarrow> job_row \<Rightarrow> job_row" where
  "asleep_row wake_at r = r\<lparr>r_status := status_code Pending, r_scheduled_at := wake_at,
     r_started_at := None, r_completed_at := None, r_error := None\<rparr>"

definition release_until :: "string \<Rightarrow> sleep_outcome \<Rightarrow> db \<Rightarrow> (sleep_outcome \<times> db) result" where
  "release_until job_id outcome d =
     (let d1 = d\<lparr>execution_claims := delete_where (\<lambda>c. c_job_id c = job_id) (execution_claims d)\<rparr>;
          hit = (\<lambda>r. r_id r = job_id \<and> r_status r = status_code Running)
      in if count_where hit (jobs d1) = 0 then Inl (ClaimLost job_id)
         else Inr (outcome, d1\<lparr>jobs := update_where hit (asleep_row (outcome_wake_at outcome)) (jobs d1)\<rparr>))"

definition sleep_body ::
    "string \<Rightarrow> int \<Rightarrow> new_job_step \<Rightarrow> string \<Rightarrow> int \<Rightarrow> int \<Rightarrow> step_limits \<Rightarrow> string option \<Rightarrow> db \<Rightarrow>
     (sleep_outcome \<times> db) result" where
  "sleep_body uid now step owner attempt wake_at limits namespace d =
     and_then (resolve_step_fence now (ns_job_id step) owner attempt namespace True d) (\<lambda>(job_namespace, d1).
     and_then (case stored_step (ns_job_id step) (ns_seq step) d1 of
                 Some s \<Rightarrow> and_then (sleep_stored step s) (\<lambda>oc. Inr (oc, d1))
               | None \<Rightarrow> sleep_first uid now step wake_at limits job_namespace d1) (\<lambda>(oc, d2).
       release_until (ns_job_id step) oc d2))"

definition sleep_job ::
    "string \<Rightarrow> int \<Rightarrow> new_job_step \<Rightarrow> string \<Rightarrow> int \<Rightarrow> int \<Rightarrow> step_limits \<Rightarrow> string option \<Rightarrow> db \<Rightarrow>
     sleep_outcome result \<times> db" where
  "sleep_job uid now step owner attempt wake_at limits namespace d =
     write_transaction (sleep_body uid now step owner attempt wake_at (clamped limits) namespace) d"

definition authorize_attempt :: "string \<Rightarrow> string \<Rightarrow> int \<Rightarrow> string option \<Rightarrow> db \<Rightarrow> attempt_fence result" where
  "authorize_attempt job_id owner attempt namespace d =
     (case resolve_step_fence 0 job_id owner attempt namespace False d of
        Inr _ \<Rightarrow> Inr Authorized
      | Inl (ClaimLost _) \<Rightarrow> Inr Superseded
      | Inl other \<Rightarrow> Inl other)"

definition delete_job_steps :: "string \<Rightarrow> string option \<Rightarrow> db \<Rightarrow> nat result \<times> db" where
  "delete_job_steps job_id namespace d =
     (let hit = (\<lambda>s. s_job_id s = job_id \<and> job_in_namespace (s_namespace s) namespace)
      in (Inr (count_where hit (job_steps d)),
          d\<lparr>job_steps := delete_where hit (job_steps d)\<rparr>))"

section \<open>The fence, characterised\<close>

text \<open>The four rows of the fence table: the claim may be absent, never somebody else's.\<close>

definition fence_ok :: "string \<Rightarrow> string \<Rightarrow> int \<Rightarrow> string option \<Rightarrow> db \<Rightarrow> bool" where
  "fence_ok job_id owner attempt namespace d \<longleftrightarrow>
     (\<exists>r. find_row r_id job_id (jobs d) = Some r \<and> job_in_namespace (r_namespace r) namespace \<and>
        r_status r = status_code Running \<and> r_retry_count r = attempt) \<and>
     claim_holder d job_id \<in> {None, Some owner}"

definition reassert_claim :: "int \<Rightarrow> string \<Rightarrow> string \<Rightarrow> db \<Rightarrow> db" where
  "reassert_claim now job_id owner d =
     (if claim_holder d job_id = None
      then d\<lparr>execution_claims := execution_claims d @
        [\<lparr>c_job_id = job_id, c_worker_id = owner, c_claimed_at = now\<rparr>]\<rparr>
      else d)"

definition job_ns :: "string \<Rightarrow> db \<Rightarrow> string option" where
  "job_ns job_id d = (case find_row r_id job_id (jobs d) of Some r \<Rightarrow> r_namespace r | None \<Rightarrow> None)"

lemma resolve_step_fence_eq:
  "resolve_step_fence now jid owner attempt ns reassert d =
     (if fence_ok jid owner attempt ns d
      then Inr (job_ns jid d, if reassert then reassert_claim now jid owner d else d)
      else Inl (ClaimLost jid))"
  by (auto simp: resolve_step_fence_def fence_ok_def job_ns_def claim_holder_def reassert_claim_def
      insert_claim_eq split: option.splits)

lemma reassert_sel [simp]:
  "jobs (reassert_claim now jid owner d) = jobs d"
  "job_steps (reassert_claim now jid owner d) = job_steps d"
  "archived_jobs (reassert_claim now jid owner d) = archived_jobs d"
  "steps_of jid' (reassert_claim now jid owner d) = steps_of jid' d"
  by (simp_all add: reassert_claim_def steps_of_def)

lemma stored_reassert [simp]: "stored_step jid s (reassert_claim now k owner d) = stored_step jid s d"
  by (simp add: stored_step_def)

lemma claim_after_reassert:
  "claim_holder (reassert_claim now jid owner d) k =
     (if k = jid \<and> claim_holder d jid = None then Some owner else claim_holder d k)"
  by (auto simp: reassert_claim_def claim_holder_def find_row_append split: option.splits)

lemma fence_after_reassert [simp]:
  "fence_ok jid owner attempt ns (reassert_claim now jid owner d) = fence_ok jid owner attempt ns d"
  by (auto simp: fence_ok_def claim_after_reassert)

lemma reassert_twice [simp]:
  "fence_ok jid owner attempt ns d \<Longrightarrow>
     reassert_claim now' jid owner (reassert_claim now jid owner d) = reassert_claim now jid owner d"
  using claim_after_reassert [of now jid owner d jid] by (auto simp: reassert_claim_def split: if_splits)

section \<open>The memo is a gapless sequence\<close>

definition memo_of :: "string \<Rightarrow> db \<Rightarrow> bool" where
  "memo_of jid d \<longleftrightarrow>
     map s_seq (steps_of jid d) = map int [0..<length (steps_of jid d)] \<and>
     distinct (map s_step_key (steps_of jid d)) \<and>
     (\<forall>s \<in> set (steps_of jid d). s_namespace s = job_ns jid d \<and>
        s_result_len s = int (length (case s_result s of Some b \<Rightarrow> b | None \<Rightarrow> [])))"

definition memo_ok :: "db \<Rightarrow> bool" where
  "memo_ok d \<longleftrightarrow> distinct (map s_id (job_steps d)) \<and> (\<forall>jid. memo_of jid d)"

lemma steps_of_append [simp]:
  "steps_of jid (d\<lparr>job_steps := job_steps d @ [row]\<rparr>) = steps_of jid d @ (if s_job_id row = jid then [row] else [])"
  by (simp add: steps_of_def)

lemma steps_of_claims [simp]: "steps_of jid (d\<lparr>execution_claims := cs\<rparr>) = steps_of jid d"
  by (simp add: steps_of_def)

lemma find_seq:
  assumes "map s_seq ss = map int [0..<length ss]"
  shows "find (\<lambda>s. s_seq s = q) ss = (if 0 \<le> q \<and> q < int (length ss) then Some (ss ! nat q) else None)"
proof -
  have nth: "s_seq (ss ! i) = int i" if "i < length ss" for i
    using arg_cong [OF assms, of "\<lambda>xs. xs ! i"] that by simp
  show ?thesis
  proof (cases "0 \<le> q \<and> q < int (length ss)")
    case True
    then have "nat q < length ss" "s_seq (ss ! nat q) = q" using nth [of "nat q"] by auto
    moreover have "s_seq (ss ! j) \<noteq> q" if "j < nat q" for j
    proof -
      have "j < length ss" using that True by linarith
      then show ?thesis using nth [of j] that by simp
    qed
    ultimately have "find (\<lambda>s. s_seq s = q) ss = Some (ss ! nat q)"
      unfolding find_Some_iff by (intro exI [of _ "nat q"]) simp
    with True show ?thesis by simp
  next
    case False
    then have "\<not> (\<exists>s \<in> set ss. s_seq s = q)" using nth by (auto simp: in_set_conv_nth)
    with False show ?thesis by (auto simp: find_None_iff)
  qed
qed

lemma stored_step_eq:
  "memo_of jid d \<Longrightarrow> stored_step jid q d =
     (if 0 \<le> q \<and> q < int (length (steps_of jid d)) then Some (steps_of jid d ! nat q) else None)"
  unfolding stored_step_def by (rule find_seq) (simp add: memo_of_def)

lemma position_free:
  assumes "memo_of jid d"
    "check_step_position jid q key (int (length (steps_of jid d))) d = Inr ()"
  shows "q = int (length (steps_of jid d)) \<and> key \<notin> s_step_key ` set (steps_of jid d)"
  using assms(2)
  by (auto simp: check_step_position_def find_None_iff split: option.splits if_splits)

text \<open>A row for the next free position with a fresh key passes the unique indexes.\<close>

lemma insert_step_row_ok:
  assumes "memo_of (s_job_id row) d" "s_id row \<notin> s_id ` set (job_steps d)"
    "s_seq row = int (length (steps_of (s_job_id row) d))" "s_step_key row \<notin> s_step_key ` set (steps_of (s_job_id row) d)"
  shows "insert_step_row row d = Inr (d\<lparr>job_steps := job_steps d @ [row]\<rparr>)"
proof -
  let ?ss = "steps_of (s_job_id row) d"
  have "s_seq ` set ?ss = int ` {0..<length ?ss}"
    using assms(1) unfolding memo_of_def by (metis image_set set_upt)
  then have "s_seq row \<notin> s_seq ` set ?ss" using assms(3) by auto
  with assms(2,4) show ?thesis unfolding insert_step_row_def steps_of_def by (auto simp: image_iff)
qed

lemma memo_append:
  assumes "memo_of jid d" "s_job_id row = jid" "s_seq row = int (length (steps_of jid d))"
    "s_step_key row \<notin> s_step_key ` set (steps_of jid d)" "s_namespace row = job_ns jid d"
    "s_result_len row = int (length (case s_result row of Some b \<Rightarrow> b | None \<Rightarrow> []))"
  shows "memo_of jid (d\<lparr>job_steps := job_steps d @ [row]\<rparr>)"
proof -
  have "job_ns jid (d\<lparr>job_steps := x\<rparr>) = job_ns jid d" for x by (simp add: job_ns_def)
  with assms show ?thesis by (auto simp: memo_of_def)
qed

lemma memo_other:
  "s_job_id row \<noteq> jid \<Longrightarrow> memo_of jid (d\<lparr>job_steps := job_steps d @ [row]\<rparr>) = memo_of jid d"
  by (simp add: memo_of_def job_ns_def)

lemma memo_ok_append:
  assumes "memo_ok d" "s_id row \<notin> s_id ` set (job_steps d)" "s_seq row = int (length (steps_of (s_job_id row) d))"
    "s_step_key row \<notin> s_step_key ` set (steps_of (s_job_id row) d)" "s_namespace row = job_ns (s_job_id row) d"
    "s_result_len row = int (length (case s_result row of Some b \<Rightarrow> b | None \<Rightarrow> []))"
  shows "memo_ok (d\<lparr>job_steps := job_steps d @ [row]\<rparr>)"
proof -
  have "memo_of jid (d\<lparr>job_steps := job_steps d @ [row]\<rparr>)" for jid
    using assms memo_append [of jid d row] memo_other [of row jid d]
    by (cases "s_job_id row = jid") (auto simp: memo_ok_def)
  with assms(1,2) show ?thesis by (auto simp: memo_ok_def)
qed

lemma memo_ok_cong:
  assumes "memo_ok d" "job_steps d' = job_steps d" "\<And>jid. job_ns jid d' = job_ns jid d"
  shows "memo_ok d'"
  using assms by (simp add: memo_ok_def memo_of_def steps_of_def)

lemma job_ns_reassert [simp]: "job_ns jid (reassert_claim now k owner d) = job_ns jid d"
  by (simp add: job_ns_def)

lemma memo_ok_reassert [simp]: "memo_ok (reassert_claim now k owner d) = memo_ok d"
  by (auto simp: memo_ok_def memo_of_def)

section \<open>What a commit does\<close>

definition step_fits :: "new_job_step \<Rightarrow> step_limits \<Rightarrow> db \<Rightarrow> bool" where
  "step_fits step limits d \<longleftrightarrow>
     int (length (steps_of (ns_job_id step) d)) + 1 \<le> int (max_steps limits) \<and>
     sum_list (map s_result_len (steps_of (ns_job_id step) d)) + int (length (payload_of step))
       \<le> int (max_total_bytes limits)"

definition next_step :: "new_job_step \<Rightarrow> db \<Rightarrow> bool" where
  "next_step step d \<longleftrightarrow> ns_seq step = int (length (steps_of (ns_job_id step) d)) \<and>
     ns_step_key step \<notin> s_step_key ` set (steps_of (ns_job_id step) d)"

lemma new_step_row_sel [simp]:
  "s_id (new_step_row u now step ns w) = u" "s_job_id (new_step_row u now step ns w) = ns_job_id step"
  "s_seq (new_step_row u now step ns w) = ns_seq step" "s_step_key (new_step_row u now step ns w) = ns_step_key step"
  "s_namespace (new_step_row u now step ns w) = ns" "s_result (new_step_row u now step ns w) = ns_result step"
  "s_kind (new_step_row u now step ns w) = step_kind_str (ns_kind step)" "s_wake_at (new_step_row u now step ns w) = w"
  "s_result_len (new_step_row u now step ns w) = wrapping_len (payload_of step)"
  by (simp_all add: new_step_row_def)

lemma wrapping_len_id: "length b < 2 ^ 31 \<Longrightarrow> wrapping_len b = int (length b)"
  by (simp add: wrapping_len_def)

lemma first_commit_cases:
  assumes memo: "memo_of (ns_job_id step) d" and fresh: "u \<notin> s_id ` set (job_steps d)"
  shows "next_step step d \<and> step_fits step limits d \<Longrightarrow>
      first_commit u now step limits ns d =
        Inr (Committed, d\<lparr>job_steps := job_steps d @ [new_step_row u now step ns None]\<rparr>)"
    and "\<not> (next_step step d \<and> step_fits step limits d) \<Longrightarrow> \<exists>e. first_commit u now step limits ns d = Inl e"
proof -
  let ?n = "int (length (steps_of (ns_job_id step) d))"
  have pos: "check_step_position (ns_job_id step) (ns_seq step) (ns_step_key step) ?n d = Inr () \<longleftrightarrow> next_step step d"
    by (auto simp: check_step_position_def next_step_def find_None_iff split: option.splits
        dest!: find_SomeD intro: rev_image_eqI)
  {
    assume ok: "next_step step d \<and> step_fits step limits d"
    then have "insert_step_row (new_step_row u now step ns None) d =
        Inr (d\<lparr>job_steps := job_steps d @ [new_step_row u now step ns None]\<rparr>)"
      by (intro insert_step_row_ok) (use memo fresh in \<open>simp_all add: next_step_def\<close>)
    with ok pos show "first_commit u now step limits ns d =
        Inr (Committed, d\<lparr>job_steps := job_steps d @ [new_step_row u now step ns None]\<rparr>)"
      by (simp add: first_commit_def step_totals_def check_step_count_def step_fits_def Let_def)
  }
  assume bad: "\<not> (next_step step d \<and> step_fits step limits d)"
  show "\<exists>e. first_commit u now step limits ns d = Inl e"
  proof (cases "next_step step d")
    case True
    with bad pos show ?thesis
      by (auto simp: first_commit_def step_totals_def check_step_count_def step_fits_def Let_def)
  next
    case False
    with pos have "check_step_position (ns_job_id step) (ns_seq step) (ns_step_key step) ?n d \<noteq> Inr ()" by simp
    then obtain e where "check_step_position (ns_job_id step) (ns_seq step) (ns_step_key step) ?n d = Inl e"
      by (cases "check_step_position (ns_job_id step) (ns_seq step) (ns_step_key step) ?n d") auto
    then show ?thesis by (simp add: first_commit_def step_totals_def)
  qed
qed

lemma commit_body_eq:
  assumes "fence_ok (ns_job_id step) owner attempt ns d"
  shows "commit_body u now step owner attempt limits ns d =
    (let d1 = reassert_claim now (ns_job_id step) owner d
     in case stored_step (ns_job_id step) (ns_seq step) d of
          Some s \<Rightarrow> and_then (replay_commit step s) (\<lambda>c. Inr (c, d1))
        | None \<Rightarrow> first_commit u now step limits (job_ns (ns_job_id step) d) d1)"
  using assms by (simp add: commit_body_def resolve_step_fence_eq Let_def)

lemma stored_append:
  assumes "memo_of (ns_job_id step) d" "next_step step d" "s_job_id row = ns_job_id step" "s_seq row = ns_seq step"
  shows "stored_step (ns_job_id step) (ns_seq step) (d\<lparr>job_steps := job_steps d @ [row]\<rparr>) = Some row"
proof -
  have "find (\<lambda>s. s_seq s = ns_seq step) (steps_of (ns_job_id step) d) = None"
    using find_seq [of "steps_of (ns_job_id step) d" "ns_seq step"] assms(1,2)
    by (simp add: memo_of_def next_step_def)
  moreover have "find P (xs @ ys) = (case find P xs of None \<Rightarrow> find P ys | Some x \<Rightarrow> Some x)"
    for P and xs ys :: "step_row list" by (induction xs) auto
  ultimately show ?thesis using assms(3,4) by (simp add: stored_step_def)
qed

definition matches_step :: "new_job_step \<Rightarrow> step_row \<Rightarrow> bool" where
  "matches_step step s \<longleftrightarrow> s_step_key s = ns_step_key step \<and> s_kind s = step_kind_str (ns_kind step) \<and>
     (case s_result s of Some b \<Rightarrow> b | None \<Rightarrow> []) = payload_of step"

lemma replay_commit_eq:
  "matches_step step s \<Longrightarrow> replay_commit step s = Inr AlreadyCommitted"
  "\<not> matches_step step s \<Longrightarrow> \<exists>e. replay_commit step s = Inl e"
  by (auto simp: replay_commit_def matches_step_def)

text \<open>A successful commit, whichever of the two kinds it was.\<close>

lemma commit_done:
  assumes memo: "memo_ok d" and fresh: "u \<notin> s_id ` set (job_steps d)"
    and small: "length (payload_of step) < 2 ^ 31"
    and ok: "commit_body u now step owner attempt limits ns d = Inr (c, d1)"
  shows "fence_ok (ns_job_id step) owner attempt ns d \<and> fence_ok (ns_job_id step) owner attempt ns d1 \<and>
    claim_holder d1 (ns_job_id step) = Some owner \<and> memo_ok d1 \<and>
    (\<exists>s. stored_step (ns_job_id step) (ns_seq step) d1 = Some s \<and> matches_step step s) \<and>
    (c = AlreadyCommitted \<longrightarrow> job_steps d1 = job_steps d) \<and>
    (c = Committed \<longrightarrow> next_step step d \<and> step_fits step limits d \<and>
       job_steps d1 = job_steps d @ [new_step_row u now step (job_ns (ns_job_id step) d) None])"
proof -
  let ?jid = "ns_job_id step"
  define dr where "dr = reassert_claim now ?jid owner d"
  have fence: "fence_ok ?jid owner attempt ns d"
    using ok by (auto simp: commit_body_def resolve_step_fence_eq split: if_splits)
  then have claim: "claim_holder dr ?jid = Some owner"
    by (auto simp: dr_def claim_after_reassert fence_ok_def)
  have "memo_ok dr" using memo by (simp add: dr_def)
  then have m: "memo_of ?jid dr" "memo_ok dr" by (simp_all add: memo_ok_def)
  show ?thesis
  proof (cases "stored_step ?jid (ns_seq step) d")
    case (Some s)
    then have "matches_step step s" "c = AlreadyCommitted" "d1 = dr"
      using ok replay_commit_eq [of step s] by (auto simp: commit_body_eq [OF fence] Let_def dr_def and_then_Inr_iff)
    then show ?thesis using Some fence claim m(2) by (simp add: dr_def)
  next
    case None
    let ?row = "new_step_row u now step (job_ns ?jid d) None"
    have first: "first_commit u now step limits (job_ns ?jid d) dr = Inr (c, d1)"
      using ok None by (simp add: commit_body_eq [OF fence] Let_def dr_def)
    have fr: "u \<notin> s_id ` set (job_steps dr)" using fresh by (simp add: dr_def)
    note cs = first_commit_cases [OF m(1) fr, of limits now "job_ns ?jid d"]
    have "next_step step dr \<and> step_fits step limits dr" using first cs(2) by (metis sum.distinct(1))
    then have nx: "next_step step dr" "step_fits step limits dr"
      and d1: "c = Committed" "d1 = dr\<lparr>job_steps := job_steps dr @ [?row]\<rparr>"
      using first cs(1) by simp_all
    have "fence_ok ?jid owner attempt ns d1" "claim_holder d1 ?jid = Some owner"
      using fence claim by (auto simp: d1(2) fence_ok_def claim_holder_def dr_def)
    moreover have "memo_ok d1"
      unfolding d1(2)
      by (rule memo_ok_append [OF m(2)])
        (use fr nx small in \<open>auto simp: next_step_def wrapping_len_id payload_of_def dr_def\<close>)
    moreover have "stored_step ?jid (ns_seq step) d1 = Some ?row"
      unfolding d1(2) by (rule stored_append [OF m(1) nx(1)]) simp_all
    moreover have "matches_step step ?row" by (simp add: matches_step_def payload_of_def)
    ultimately show ?thesis
      using nx d1 fence by (simp add: next_step_def step_fits_def dr_def)
  qed
qed

lemma commit_again:
  assumes "fence_ok (ns_job_id step) owner attempt ns d" "claim_holder d (ns_job_id step) = Some owner"
    "stored_step (ns_job_id step) (ns_seq step) d = Some s"
  shows "matches_step step s \<Longrightarrow> commit_body u now step owner attempt limits ns d = Inr (AlreadyCommitted, d)"
    and "\<not> matches_step step s \<Longrightarrow> \<exists>e. commit_body u now step owner attempt limits ns d = Inl e"
  using replay_commit_eq [of step s] assms(2,3)
  by (auto simp: commit_body_eq [OF assms(1)] Let_def reassert_claim_def)

lemma record_step_result_Inr:
  "record_step_result u now step owner attempt limits ns d = (Inr c, d1) \<Longrightarrow>
     commit_body u now step owner attempt (clamped limits) ns d = Inr (c, d1) \<and>
     length (payload_of step) \<le> max_step_bytes (clamped limits)"
  by (auto simp: record_step_result_def Let_def write_transaction_def split: if_splits sum.splits)

lemma record_step_result_Inl:
  "record_step_result u now step owner attempt limits ns d = (Inl e, d1) \<Longrightarrow> d1 = d"
  by (auto simp: record_step_result_def Let_def write_transaction_def split: if_splits sum.splits)

lemma clamped_bounds:
  "max_step_bytes (clamped l) \<le> MAX_STEP_BYTES_CEILING" "max_total_bytes (clamped l) \<le> MAX_TOTAL_BYTES_CEILING"
  "max_steps (clamped l) \<le> MAX_STEPS_CEILING"
  by (simp_all add: clamped_def)

lemma clamped_small: "length b \<le> max_step_bytes (clamped l) \<Longrightarrow> length b < 2 ^ 31"
  using clamped_bounds(1) [of l] by (simp add: MAX_STEP_BYTES_CEILING_def)

text \<open>
  C17: A step commits exactly once. A successful commit is fenced by the claim and the attempt and
  leaves the memo a gapless sequence that stores the step at its position; sending the same commit
  again, under any limits that admit it, succeeds without writing anything, and a commit of another
  key, kind or result at that position is refused without writing anything.
\<close>

theorem step_commit_exactly_once:
  assumes "memo_ok d" "u \<notin> s_id ` set (job_steps d)"
    "record_step_result u now step owner attempt limits ns d = (Inr c, d1)"
  shows "fence_ok (ns_job_id step) owner attempt ns d \<and> memo_ok d1 \<and>
    (\<exists>s. stored_step (ns_job_id step) (ns_seq step) d1 = Some s \<and> matches_step step s) \<and>
    (\<forall>u' now' limits'. length (payload_of step) \<le> max_step_bytes (clamped limits') \<longrightarrow>
       record_step_result u' now' step owner attempt limits' ns d1 = (Inr AlreadyCommitted, d1)) \<and>
    (\<forall>u' now' limits' step' s. ns_job_id step' = ns_job_id step \<longrightarrow> ns_seq step' = ns_seq step \<longrightarrow>
       stored_step (ns_job_id step) (ns_seq step) d1 = Some s \<longrightarrow> \<not> matches_step step' s \<longrightarrow>
       (\<exists>e. record_step_result u' now' step' owner attempt limits' ns d1 = (Inl e, d1)))"
proof -
  note ok = record_step_result_Inr [OF assms(3)]
  note committed = commit_done [OF assms(1,2) clamped_small [OF conjunct2 [OF ok]] conjunct1 [OF ok]]
  then obtain s where s: "stored_step (ns_job_id step) (ns_seq step) d1 = Some s" "matches_step step s" by blast
  have fence: "fence_ok (ns_job_id step) owner attempt ns d1" "claim_holder d1 (ns_job_id step) = Some owner"
    using committed by auto
  have again: "record_step_result u' now' step owner attempt limits' ns d1 = (Inr AlreadyCommitted, d1)"
    if "length (payload_of step) \<le> max_step_bytes (clamped limits')" for u' now' limits'
    using commit_again(1) [OF fence s] that by (simp add: record_step_result_def Let_def)
  have "\<exists>e. record_step_result u' now' step' owner attempt limits' ns d1 = (Inl e, d1)"
    if "ns_job_id step' = ns_job_id step" "ns_seq step' = ns_seq step" "\<not> matches_step step' s" for u' now' limits' step'
    using commit_again(2) [of step' owner attempt ns d1 s u' now' "clamped limits'"] fence s(1) that
    by (auto simp: record_step_result_def Let_def)
  with again committed s show ?thesis by auto
qed

text \<open>
  The memo of a job is bounded whatever limits a caller passes: after every successful commit
  the job has at most the ceiling of steps, and a new step leaves the stored bytes under the
  ceiling of total bytes.
\<close>

lemma step_memo_bounded:
  assumes "memo_ok d" "u \<notin> s_id ` set (job_steps d)"
    "record_step_result u now step owner attempt limits ns d = (Inr Committed, d1)"
  shows "length (steps_of (ns_job_id step) d1) \<le> MAX_STEPS_CEILING \<and>
    length (payload_of step) \<le> MAX_STEP_BYTES_CEILING \<and>
    sum_list (map s_result_len (steps_of (ns_job_id step) d1)) \<le> int MAX_TOTAL_BYTES_CEILING"
proof -
  let ?l = "clamped limits" and ?jid = "ns_job_id step"
  note ok = record_step_result_Inr [OF assms(3)]
  note small = clamped_small [OF conjunct2 [OF ok]]
  note committed = commit_done [OF assms(1,2) small conjunct1 [OF ok]]
  then have fits: "step_fits step ?l d" and
    "job_steps d1 = job_steps d @ [new_step_row u now step (job_ns ?jid d) None]" by auto
  then have "steps_of ?jid d1 = steps_of ?jid d @ [new_step_row u now step (job_ns ?jid d) None]"
    by (simp add: steps_of_def)
  with fits small ok clamped_bounds [of limits] show ?thesis
    by (auto simp: step_fits_def wrapping_len_id)
qed

section \<open>Stale attempts\<close>

lemma fence_lost_calls:
  assumes "\<not> fence_ok (ns_job_id step) owner attempt ns d"
  shows "authorize_attempt (ns_job_id step) owner attempt ns d = Inr Superseded"
    and "length (payload_of step) \<le> max_step_bytes (clamped limits) \<Longrightarrow>
      record_step_result u now step owner attempt limits ns d = (Inl (ClaimLost (ns_job_id step)), d)"
    and "sleep_job u now step owner attempt wake limits ns d = (Inl (ClaimLost (ns_job_id step)), d)"
  using assms
  by (simp_all add: authorize_attempt_def record_step_result_def sleep_job_def commit_body_def sleep_body_def
      resolve_step_fence_eq Let_def write_transaction_def)

lemma authorized_iff:
  "authorize_attempt jid owner attempt ns d =
     (if fence_ok jid owner attempt ns d then Inr Authorized else Inr Superseded)"
  by (simp add: authorize_attempt_def resolve_step_fence_eq)

lemma fence_lost_retry:
  assumes "fence_ok jid owner attempt ns d" "fst (retry jid t ns d) = Inr ()"
  shows "\<not> fence_ok jid owner attempt ns' (snd (retry jid t ns d))"
proof -
  obtain r where r: "find_row r_id jid (jobs d) = Some r" "job_in_namespace (r_namespace r) ns"
    using assms(1) by (auto simp: fence_ok_def)
  then have "retry_target jid ns r"
    using find_row_SomeD [OF r(1)]
    by (auto simp: retry_target_def in_scope_def job_in_namespace_def split: option.splits)
  moreover have "jobs (snd (retry jid t ns d)) = update_where (retry_target jid ns)
      (\<lambda>r. (pending_again t r)\<lparr>r_retry_count := r_retry_count r + 1\<rparr>) (jobs d)"
    using assms(2) by (simp add: retry_def drop_claim_def write_transaction_def split: if_splits)
  ultimately have "find_row r_id jid (jobs (snd (retry jid t ns d))) =
      Some ((pending_again t r)\<lparr>r_retry_count := r_retry_count r + 1\<rparr>)"
    using r(1) by (simp add: find_row_update_where pending_again_def)
  then show ?thesis by (simp add: fence_ok_def pending_again_def)
qed

lemma fence_lost_gone: "jid \<notin> live_ids d \<Longrightarrow> \<not> fence_ok jid owner attempt ns d"
  by (auto simp: fence_ok_def live_ids_def dest: find_row_SomeD)

lemma complete_removes:
  "store_inv d \<Longrightarrow> fst (complete now jid res ns d) = Inr () \<Longrightarrow> jid \<notin> live_ids (snd (complete now jid res ns d))"
  by (auto simp: complete_eq completed_row_def dest: select_runningD split: option.splits)

lemma fail_removes:
  assumes "store_inv d" "fst (fail now jid e d) = Inr ()"
  shows "jid \<notin> live_ids (snd (fail now jid e d))"
proof (cases "select_running jid None d")
  case (Some r)
  note r = select_runningD [OF Some]
  then have "archive_job_row (failed_row now e r) d = Inr (archive_effect (failed_row now e r) d)"
    by (intro archive_job_row_ok [OF assms(1)]) (auto simp: failed_row_def live_ids_def)
  with Some r show ?thesis by (simp add: fail_def write_transaction_def failed_row_def)
qed (use assms(2) in \<open>simp add: fail_def write_transaction_def\<close>)

text \<open>
  C31: An attempt that lost its job can do no harm. Once a job was retried, completed or failed, or
  its claim was taken over by another worker, every step commit and every sleep of the old owner's
  attempt is refused with \<open>ClaimLost\<close> and leaves the store untouched, and its result is
  classified as superseded.
\<close>

theorem stale_attempt_fenced:
  assumes "store_inv d" "fence_ok jid owner attempt ns d" "ns_job_id step = jid"
    "length (payload_of step) \<le> max_step_bytes (clamped limits)"
    "(\<exists>t. retry jid t ns d = (Inr (), d')) \<or> (\<exists>now res. complete now jid res ns d = (Inr (), d')) \<or>
     (\<exists>now e. fail now jid e d = (Inr (), d')) \<or>
     (\<exists>now w. w \<noteq> owner \<and> reclaim_execution now jid owner w d = (Inr True, d'))"
  shows "authorize_attempt jid owner attempt ns d' = Inr Superseded \<and>
    record_step_result u now step owner attempt limits ns d' = (Inl (ClaimLost jid), d') \<and>
    sleep_job u now step owner attempt wake limits ns d' = (Inl (ClaimLost jid), d')"
proof -
  have "\<not> fence_ok jid owner attempt ns d'"
    using assms(5)
  proof (elim disjE exE conjE)
    fix t assume "retry jid t ns d = (Inr (), d')"
    then show ?thesis using fence_lost_retry [OF assms(2), of t ns] by simp
  next
    fix now res assume "complete now jid res ns d = (Inr (), d')"
    then show ?thesis using fence_lost_gone complete_removes [OF assms(1), of now jid res ns] by simp
  next
    fix now e assume "fail now jid e d = (Inr (), d')"
    then show ?thesis using fence_lost_gone fail_removes [OF assms(1), of now jid e] by simp
  next
    fix now w assume w: "w \<noteq> owner" "reclaim_execution now jid owner w d = (Inr True, d')"
    have "claim_holder d jid = Some owner"
      using w(2) reclaim_missed [OF store_claim_keys [OF assms(1)], of jid owner now w] by fastforce
    then have "claim_holder d' jid = Some w"
      using reclaim_holder [of now jid owner w d jid] w(2) by simp
    with w(1) show ?thesis by (auto simp: fence_ok_def)
  qed
  then show ?thesis
    using fence_lost_calls [of step owner attempt ns d'] assms(3,4) by simp
qed

section \<open>Sleeping fixes the deadline\<close>

definition sleep_row :: "new_job_step \<Rightarrow> int \<Rightarrow> step_row \<Rightarrow> bool" where
  "sleep_row step wake s \<longleftrightarrow> s_step_key s = ns_step_key step \<and> s_kind s = step_kind_str SleepStep \<and>
     s_wake_at s = Some wake"

text \<open>The state after the claim is released and the job is put back to wait.\<close>

definition release_effect :: "string \<Rightarrow> int \<Rightarrow> db \<Rightarrow> db" where
  "release_effect jid wake d =
     (drop_claim jid d)\<lparr>jobs := update_where (\<lambda>r. r_id r = jid \<and> r_status r = status_code Running)
        (asleep_row wake) (jobs d)\<rparr>"

definition asleep_until :: "string \<Rightarrow> int \<Rightarrow> db \<Rightarrow> bool" where
  "asleep_until jid wake d \<longleftrightarrow> claim_holder d jid = None \<and>
     (\<exists>r. find_row r_id jid (jobs d) = Some r \<and> r_status r = status_code Pending \<and> r_scheduled_at r = wake)"

lemma release_until_eq:
  assumes "find_row r_id jid (jobs d) = Some r" "r_status r = status_code Running"
  shows "release_until jid oc d = Inr (oc, release_effect jid (outcome_wake_at oc) d)"
    and "asleep_until jid wake (release_effect jid wake d)"
proof -
  have "count_where (\<lambda>r. r_id r = jid \<and> r_status r = status_code Running) (jobs d) \<noteq> 0"
    using find_row_SomeD [OF assms(1)] assms(2) by (auto simp: count_where_0_iff)
  then show "release_until jid oc d = Inr (oc, release_effect jid (outcome_wake_at oc) d)"
    by (simp add: release_until_def release_effect_def drop_claim_def Let_def)
  have "find_row r_id jid (jobs (release_effect jid wake d)) = Some (asleep_row wake r)"
    using assms find_row_SomeD [OF assms(1)]
    by (simp add: release_effect_def find_row_update_where asleep_row_def)
  then show "asleep_until jid wake (release_effect jid wake d)"
    by (auto simp: asleep_until_def asleep_row_def release_effect_def drop_claim_def claim_holder_def
        find_row_delete_key)
qed

lemma release_effect_steps [simp]: "job_steps (release_effect jid wake d) = job_steps d"
  by (simp add: release_effect_def drop_claim_def)

lemma release_effect_ns [simp]: "job_ns k (release_effect jid wake d) = job_ns k d"
  by (simp add: job_ns_def release_effect_def drop_claim_def find_row_update_where asleep_row_def
      split: option.split)

lemma sleep_first_eq:
  assumes "memo_of (ns_job_id step) d" "u \<notin> s_id ` set (job_steps d)"
    "sleep_first u now step wake limits ns d = Inr (oc, d')"
  shows "oc = Slept wake \<and> next_step step d \<and> d' = d\<lparr>job_steps := job_steps d @ [new_step_row u now step ns (Some wake)]\<rparr>"
proof -
  let ?n = "int (length (steps_of (ns_job_id step) d))"
  have "check_step_position (ns_job_id step) (ns_seq step) (ns_step_key step) ?n d = Inr ()"
    using assms(3) by (auto simp: sleep_first_def step_totals_def and_then_Inr_iff)
  from position_free [OF assms(1) this] have "next_step step d" by (simp add: next_step_def)
  moreover from this have "insert_step_row (new_step_row u now step ns (Some wake)) d =
      Inr (d\<lparr>job_steps := job_steps d @ [new_step_row u now step ns (Some wake)]\<rparr>)"
    by (intro insert_step_row_ok) (use assms in \<open>simp_all add: next_step_def\<close>)
  ultimately show ?thesis
    using assms(3) by (auto simp: sleep_first_def step_totals_def and_then_Inr_iff)
qed

lemma sleep_again:
  assumes "fence_ok (ns_job_id step) owner attempt ns d" "stored_step (ns_job_id step) (ns_seq step) d = Some s"
    "sleep_row step wake s"
  shows "\<exists>d'. sleep_job u now step owner attempt wake' limits ns d = (Inr (AlreadySleeping wake), d') \<and>
    asleep_until (ns_job_id step) wake d' \<and> job_steps d' = job_steps d"
proof -
  let ?d = "reassert_claim now (ns_job_id step) owner d"
  obtain r where r: "find_row r_id (ns_job_id step) (jobs ?d) = Some r" "r_status r = status_code Running"
    using assms(1) by (auto simp: fence_ok_def)
  from release_until_eq [OF this] assms show ?thesis
    by (auto simp: sleep_job_def sleep_body_def resolve_step_fence_eq sleep_stored_def sleep_row_def)
qed

lemma sleep_done:
  assumes memo: "memo_ok d" and fresh: "u \<notin> s_id ` set (job_steps d)" and kind: "ns_kind step = SleepStep"
    and small: "length (payload_of step) < 2 ^ 31"
    and ok: "sleep_job u now step owner attempt wake limits ns d = (Inr oc, d1)"
  shows "asleep_until (ns_job_id step) (outcome_wake_at oc) d1 \<and> memo_ok d1 \<and>
    (\<exists>s. stored_step (ns_job_id step) (ns_seq step) d1 = Some s \<and> sleep_row step (outcome_wake_at oc) s)"
proof -
  let ?jid = "ns_job_id step"
  define dr where "dr = reassert_claim now ?jid owner d"
  have body: "sleep_body u now step owner attempt wake (clamped limits) ns d = Inr (oc, d1)"
    using ok by (auto simp: sleep_job_def write_transaction_def split: sum.splits)
  then have fence: "fence_ok ?jid owner attempt ns d"
    by (auto simp: sleep_body_def resolve_step_fence_eq split: if_splits)
  then obtain r where r: "find_row r_id ?jid (jobs d) = Some r" "r_status r = status_code Running"
    by (auto simp: fence_ok_def)
  have "memo_ok dr" using memo by (simp add: dr_def)
  then have m: "memo_of ?jid dr" "memo_ok dr" by (simp_all add: memo_ok_def)
  obtain oc' d2 where mid: "(case stored_step ?jid (ns_seq step) dr of
      Some s \<Rightarrow> and_then (sleep_stored step s) (\<lambda>oc. Inr (oc, dr))
    | None \<Rightarrow> sleep_first u now step wake (clamped limits) (job_ns ?jid d) dr) = Inr (oc', d2)"
    and rel: "release_until ?jid oc' d2 = Inr (oc, d1)"
    using body fence
    by (auto simp: sleep_body_def resolve_step_fence_eq dr_def [symmetric] and_then_Inr_iff
        simp del: stored_reassert)
  have d2: "jobs d2 = jobs d \<and> memo_ok d2 \<and>
      (\<exists>s. stored_step ?jid (ns_seq step) d2 = Some s \<and> sleep_row step (outcome_wake_at oc') s)"
  proof (cases "stored_step ?jid (ns_seq step) dr")
    case (Some s)
    with mid m(2) show ?thesis
      by (auto simp: and_then_Inr_iff sleep_stored_def sleep_row_def dr_def split: if_splits option.splits)
  next
    case None
    with mid have first: "sleep_first u now step wake (clamped limits) (job_ns ?jid d) dr = Inr (oc', d2)" by simp
    have fr: "u \<notin> s_id ` set (job_steps dr)" using fresh by (simp add: dr_def)
    note eq = sleep_first_eq [OF m(1) fr first]
    have "memo_ok (dr\<lparr>job_steps := job_steps dr @ [new_step_row u now step (job_ns ?jid d) (Some wake)]\<rparr>)"
      by (rule memo_ok_append [OF m(2)])
        (use fr eq small in \<open>auto simp: next_step_def wrapping_len_id payload_of_def dr_def\<close>)
    moreover have "stored_step ?jid (ns_seq step) d2 = Some (new_step_row u now step (job_ns ?jid d) (Some wake))"
      using eq stored_append [OF m(1), of "new_step_row u now step (job_ns ?jid d) (Some wake)"] by simp
    ultimately show ?thesis using eq kind by (simp add: sleep_row_def dr_def)
  qed
  have run: "find_row r_id ?jid (jobs d2) = Some r" using d2 r(1) by simp
  note rr = release_until_eq [OF run r(2)]
  have "oc = oc'" and d1: "d1 = release_effect ?jid (outcome_wake_at oc) d2"
    using rel rr(1) [of oc'] by auto
  moreover have "memo_ok d1" unfolding d1 by (rule memo_ok_cong) (use d2 in simp_all)
  moreover have "stored_step ?jid (ns_seq step) d1 = stored_step ?jid (ns_seq step) d2"
    by (simp add: d1 stored_step_def steps_of_def)
  ultimately show ?thesis using d2 rr(2) by simp
qed

text \<open>
  A sleep ends when its first commit said. A successful sleep releases the claim and leaves the
  job pending until its deadline; whenever the job runs again and replays the same sleep, by any
  worker, in any later attempt and with any newly computed deadline, it sleeps until the first
  deadline.
\<close>

lemma sleep_deadline_fixed:
  assumes "memo_ok d" "u \<notin> s_id ` set (job_steps d)" "ns_kind step = SleepStep"
    "length (payload_of step) < 2 ^ 31"
    "sleep_job u now step owner attempt wake limits ns d = (Inr oc, d1)"
    "job_steps d2 = job_steps d1" "fence_ok (ns_job_id step) owner' attempt' ns' d2"
  shows "asleep_until (ns_job_id step) (outcome_wake_at oc) d1 \<and>
    (\<exists>d3. sleep_job u' now' step owner' attempt' wake' limits' ns' d2 =
       (Inr (AlreadySleeping (outcome_wake_at oc)), d3) \<and>
     asleep_until (ns_job_id step) (outcome_wake_at oc) d3 \<and> job_steps d3 = job_steps d1)"
proof -
  from sleep_done [OF assms(1-5)] obtain s where first: "asleep_until (ns_job_id step) (outcome_wake_at oc) d1"
    "stored_step (ns_job_id step) (ns_seq step) d1 = Some s" "sleep_row step (outcome_wake_at oc) s" by blast
  have "stored_step (ns_job_id step) (ns_seq step) d2 = Some s"
    using first(2) assms(6) by (simp add: stored_step_def steps_of_def)
  from sleep_again [OF assms(7) this first(3), of u' now' wake' limits'] first(1) assms(6) show ?thesis by simp
qed

section \<open>The operations keep the store contract\<close>

lemma steps_frame [simp]:
  "live_ok (d\<lparr>job_steps := x\<rparr>) = live_ok d" "archive_ok (d\<lparr>job_steps := x\<rparr>) = archive_ok d"
  "unique_ok (d\<lparr>job_steps := x\<rparr>) = unique_ok d" "live_ids (d\<lparr>job_steps := x\<rparr>) = live_ids d"
  "archived_ids (d\<lparr>job_steps := x\<rparr>) = archived_ids d"
  unfolding live_ok_def archive_ok_def unique_ok_def live_ids_def archived_ids_def by simp_all

lemma store_inv_add_step:
  "store_inv d \<Longrightarrow> s_job_id row \<in> live_ids d \<Longrightarrow> store_inv (d\<lparr>job_steps := job_steps d @ [row]\<rparr>)"
  by (simp add: store_inv_def steps_owned_def)

lemma store_inv_drop_steps:
  "store_inv d \<Longrightarrow> store_inv (d\<lparr>job_steps := delete_where P (job_steps d)\<rparr>)"
  by (simp add: store_inv_def steps_owned_def set_delete_where)

lemma keeps_steps:
  "store_inv (d\<lparr>job_steps := x\<rparr>) \<Longrightarrow> keeps_store new d (d\<lparr>job_steps := x\<rparr>)"
  by (rule keeps_same_jobs) simp_all

lemma keeps_reassert: "store_inv d \<Longrightarrow> keeps_store {} d (reassert_claim now jid owner d)"
  using store_claim_keys [of d]
  by (auto simp: reassert_claim_def claim_keys_def claim_holder_def find_row_None_iff
      intro!: keeps_claims keeps_refl)

lemma keeps_insert_step:
  assumes "store_inv d" "s_job_id row \<in> live_ids d" "insert_step_row row d = Inr d'"
  shows "keeps_store {} d d'"
  using assms keeps_steps [OF store_inv_add_step [OF assms(1,2)]]
  by (auto simp: insert_step_row_def split: if_splits)

lemma fence_live: "fence_ok jid owner attempt ns d \<Longrightarrow> jid \<in> live_ids d"
  by (auto simp: fence_ok_def dest: find_live)

lemma keeps_commit_body:
  assumes "store_inv d" "commit_body u now step owner attempt limits ns d = Inr (c, d')"
  shows "keeps_store {} d d'"
proof -
  let ?jid = "ns_job_id step" and ?dr = "reassert_claim now (ns_job_id step) owner d"
  have fence: "fence_ok ?jid owner attempt ns d"
    using assms(2) by (auto simp: commit_body_def resolve_step_fence_eq split: if_splits)
  have keep: "keeps_store {} d ?dr" by (rule keeps_reassert [OF assms(1)])
  have live: "?jid \<in> live_ids ?dr" using fence_live [OF fence] by (simp add: live_ids_def)
  have ins: "insert_step_row (new_step_row u now step n w) ?dr = Inr d'' \<Longrightarrow> keeps_store {} ?dr d''" for n w d''
    by (rule keeps_insert_step [OF keeps_inv [OF keep]]) (use live in simp_all)
  have "keeps_store {} ?dr d'"
    using assms(2) keeps_refl [OF keeps_inv [OF keep]]
    by (auto intro: ins simp: commit_body_eq [OF fence] Let_def and_then_Inr_iff first_commit_def step_totals_def
        split: option.splits if_splits)
  then show ?thesis by (rule keeps_trans [OF keep])
qed

lemma keeps_record_step_result:
  assumes "store_inv d"
  shows "keeps_store {} d (snd (record_step_result u now step owner attempt limits ns d))"
proof -
  have "keeps_store {} d (snd (write_transaction (commit_body u now step owner attempt (clamped limits) ns) d))"
    by (rule keeps_transaction [OF assms]) (rule keeps_commit_body [OF assms])
  then show ?thesis by (simp add: record_step_result_def Let_def keeps_refl assms)
qed

lemma keeps_release_until:
  assumes "store_inv d" "release_until jid oc d = Inr (oc', d')"
  shows "keeps_store {} d d'"
proof -
  let ?hit = "\<lambda>r. r_id r = jid \<and> r_status r = status_code Running"
  let ?d1 = "d\<lparr>execution_claims := delete_where (\<lambda>c. c_job_id c = jid) (execution_claims d)\<rparr>"
  have keep: "keeps_store {} d ?d1" by (rule keeps_delete_claims [OF keeps_refl [OF assms(1)]])
  have "keeps_store {} ?d1 (?d1\<lparr>jobs := update_where ?hit (asleep_row (outcome_wake_at oc)) (jobs ?d1)\<rparr>)"
    by (rule keeps_update_jobs [OF keeps_inv [OF keep]]) (simp add: keeps_row_def asleep_row_def)
  with keep have "keeps_store {} d (?d1\<lparr>jobs := update_where ?hit (asleep_row (outcome_wake_at oc)) (jobs ?d1)\<rparr>)"
    by (rule keeps_trans)
  then show ?thesis
    using assms(2) by (auto simp: release_until_def Let_def split: if_splits)
qed

lemma keeps_sleep_job:
  assumes "store_inv d"
  shows "keeps_store {} d (snd (sleep_job u now step owner attempt wake limits ns d))"
  unfolding sleep_job_def
proof (rule keeps_transaction [OF assms])
  fix oc d' assume ok: "sleep_body u now step owner attempt wake (clamped limits) ns d = Inr (oc, d')"
  let ?jid = "ns_job_id step" and ?dr = "reassert_claim now (ns_job_id step) owner d"
  have fence: "fence_ok ?jid owner attempt ns d"
    using ok by (auto simp: sleep_body_def resolve_step_fence_eq split: if_splits)
  have keep: "keeps_store {} d ?dr" by (rule keeps_reassert [OF assms])
  have live: "?jid \<in> live_ids ?dr" using fence_live [OF fence] by (simp add: live_ids_def)
  have ins: "insert_step_row (new_step_row u now step n w) ?dr = Inr d'' \<Longrightarrow> keeps_store {} ?dr d''" for n w d''
    by (rule keeps_insert_step [OF keeps_inv [OF keep]]) (use live in simp_all)
  obtain oc' d2 where mid: "(case stored_step ?jid (ns_seq step) ?dr of
      Some s \<Rightarrow> and_then (sleep_stored step s) (\<lambda>oc. Inr (oc, ?dr))
    | None \<Rightarrow> sleep_first u now step wake (clamped limits) (job_ns ?jid d) ?dr) = Inr (oc', d2)"
    and rel: "release_until ?jid oc' d2 = Inr (oc, d')"
    using ok fence by (auto simp: sleep_body_def resolve_step_fence_eq and_then_Inr_iff)
  from mid have "keeps_store {} ?dr d2"
    using keeps_refl [OF keeps_inv [OF keep]]
    by (auto intro: ins simp: and_then_Inr_iff sleep_first_def step_totals_def split: option.splits)
  moreover from this have "keeps_store {} d2 d'" by (rule keeps_release_until [OF keeps_inv rel])
  ultimately show "keeps_store {} d d'" using keep keeps_trans by blast
qed

lemma keeps_delete_job_steps: "store_inv d \<Longrightarrow> keeps_store {} d (snd (delete_job_steps jid ns d))"
  by (simp add: delete_job_steps_def Let_def keeps_steps store_inv_drop_steps)

section \<open>Concrete runs\<close>

definition sample_step :: "int \<Rightarrow> string \<Rightarrow> step_kind \<Rightarrow> bytes option \<Rightarrow> new_job_step" where
  "sample_step q key kind res = \<lparr>ns_job_id = ''a'', ns_seq = q, ns_step_key = key, ns_kind = kind, ns_result = res\<rparr>"

lemma sample_step_sel [simp]:
  "ns_job_id (sample_step q key kind res) = ''a''" "ns_seq (sample_step q key kind res) = q"
  "ns_step_key (sample_step q key kind res) = key" "ns_kind (sample_step q key kind res) = kind"
  "ns_result (sample_step q key kind res) = res"
  by (simp_all add: sample_step_def)

lemma running_db_sel [simp]:
  "find_row r_id ''a'' (jobs running_db) = Some (claimed_row 6 (sample_row ''a'' 0))"
  "job_steps running_db = []" "execution_claims running_db = []"
  by (simp_all add: running_db_def sample_db_def)

lemma running_memo: "memo_ok running_db"
  by (simp add: memo_ok_def memo_of_def steps_of_def)

lemma running_fence: "fence_ok ''a'' ''w'' 0 None running_db"
  by (simp add: fence_ok_def job_in_namespace_def claimed_row_def claim_holder_def)

lemma payload_sample [simp]: "payload_of (sample_step q key kind (Some b)) = b" "payload_of (sample_step q key kind None) = []"
  by (simp_all add: payload_of_def)

lemma first_sample_commit:
  "\<exists>d1. record_step_result ''u'' 7 (sample_step 0 ''render#0'' RunStep (Some [1])) ''w'' 0 default_limits None running_db
     = (Inr Committed, d1) \<and> steps_of ''a'' d1 = [new_step_row ''u'' 7 (sample_step 0 ''render#0'' RunStep (Some [1])) None None]"
proof -
  let ?step = "sample_step 0 ''render#0'' RunStep (Some [1])"
  let ?dr = "reassert_claim 7 ''a'' ''w'' running_db"
  have ns: "job_ns ''a'' running_db = None" by (simp add: job_ns_def claimed_row_def)
  have lim: "clamped default_limits = default_limits"
    by (simp add: clamped_def default_limits_def MAX_STEP_BYTES_CEILING_def MAX_TOTAL_BYTES_CEILING_def
        MAX_STEPS_CEILING_def)
  have bytes: "max_step_bytes default_limits = 262144" by (simp add: default_limits_def)
  have "stored_step ''a'' 0 running_db = None" by (simp add: stored_step_def steps_of_def)
  moreover have "first_commit ''u'' 7 ?step default_limits None ?dr =
      Inr (Committed, ?dr\<lparr>job_steps := job_steps ?dr @ [new_step_row ''u'' 7 ?step None None]\<rparr>)"
    by (rule first_commit_cases(1))
      (simp_all add: next_step_def step_fits_def steps_of_def default_limits_def memo_of_def)
  ultimately have "commit_body ''u'' 7 ?step ''w'' 0 default_limits None running_db =
      Inr (Committed, ?dr\<lparr>job_steps := job_steps ?dr @ [new_step_row ''u'' 7 ?step None None]\<rparr>)"
    using running_fence by (simp add: commit_body_eq ns Let_def)
  then have "record_step_result ''u'' 7 ?step ''w'' 0 default_limits None running_db =
      (Inr Committed, ?dr\<lparr>job_steps := job_steps ?dr @ [new_step_row ''u'' 7 ?step None None]\<rparr>)"
    by (simp add: record_step_result_def Let_def lim bytes)
  then show ?thesis by (simp add: steps_of_def)
qed

theorem step_commit_exactly_once_witness:
  "\<exists>d1. record_step_result ''u'' 7 (sample_step 0 ''render#0'' RunStep (Some [1])) ''w'' 0 default_limits None running_db
       = (Inr Committed, d1) \<and>
     record_step_result ''v'' 8 (sample_step 0 ''render#0'' RunStep (Some [1])) ''w'' 0 default_limits None d1
       = (Inr AlreadyCommitted, d1) \<and>
     (\<exists>e. record_step_result ''v'' 8 (sample_step 0 ''render#0'' RunStep (Some [2])) ''w'' 0 default_limits None d1
       = (Inl e, d1))"
proof -
  let ?step = "sample_step 0 ''render#0'' RunStep (Some [1])"
  obtain d1 where d1: "record_step_result ''u'' 7 ?step ''w'' 0 default_limits None running_db = (Inr Committed, d1)"
    using first_sample_commit by blast
  have fresh: "''u'' \<notin> s_id ` set (job_steps running_db)" by simp
  from step_commit_exactly_once [OF running_memo fresh d1] obtain s where
    s: "stored_step ''a'' 0 d1 = Some s" "matches_step ?step s"
    and again: "\<And>u' now' limits'. 1 \<le> max_step_bytes (clamped limits') \<Longrightarrow>
      record_step_result u' now' ?step ''w'' 0 limits' None d1 = (Inr AlreadyCommitted, d1)"
    and other: "\<And>u' now' limits' step'. ns_job_id step' = ''a'' \<Longrightarrow> ns_seq step' = 0 \<Longrightarrow> \<not> matches_step step' s \<Longrightarrow>
      \<exists>e. record_step_result u' now' step' ''w'' 0 limits' None d1 = (Inl e, d1)"
    by (auto simp: payload_of_def)
  have "\<not> matches_step (sample_step 0 ''render#0'' RunStep (Some [2])) s"
    using s(2) by (simp add: matches_step_def)
  from other [OF _ _ this] again [of default_limits] d1 show ?thesis
    by (auto simp: clamped_def default_limits_def MAX_STEP_BYTES_CEILING_def)
qed

theorem stale_attempt_fenced_witness:
  "\<exists>d'. retry ''a'' 50 None running_db = (Inr (), d') \<and>
     authorize_attempt ''a'' ''w'' 0 None running_db = Inr Authorized \<and>
     authorize_attempt ''a'' ''w'' 0 None d' = Inr Superseded \<and>
     record_step_result ''u'' 7 (sample_step 0 ''k'' RunStep None) ''w'' 0 default_limits None d' = (Inl (ClaimLost ''a''), d')"
proof -
  obtain d' where d': "retry ''a'' 50 None running_db = (Inr (), d')"
    by (simp add: retry_def write_transaction_def count_where_def retry_target_def running_db_def
        sample_db_def in_scope_def)
  then have "(\<exists>t. retry ''a'' t None running_db = (Inr (), d')) \<or> (\<exists>now res. complete now ''a'' res None running_db = (Inr (), d')) \<or>
     (\<exists>now e. fail now ''a'' e running_db = (Inr (), d')) \<or>
     (\<exists>now w. w \<noteq> ''w'' \<and> reclaim_execution now ''a'' ''w'' w running_db = (Inr True, d'))" by blast
  from stale_attempt_fenced [OF store_inv_running running_fence _ _ this, of "sample_step 0 ''k'' RunStep None"
        default_limits "''u''" 7 8] d' running_fence
  show ?thesis by (simp add: authorized_iff)
qed

lemma running_sleep:
  "\<exists>d1. sleep_job ''u'' 7 (sample_step 0 ''nap'' SleepStep None) ''w'' 0 100 default_limits None running_db = (Inr (Slept 100), d1)"
proof -
  let ?step = "sample_step 0 ''nap'' SleepStep None" and ?dr = "reassert_claim 7 ''a'' ''w'' running_db"
  have "stored_step ''a'' 0 running_db = None" by (simp add: stored_step_def steps_of_def)
  moreover have "insert_step_row (new_step_row ''u'' 7 ?step None (Some 100)) ?dr =
      Inr (?dr\<lparr>job_steps := [new_step_row ''u'' 7 ?step None (Some 100)]\<rparr>)"
    by (simp add: insert_step_row_def)
  moreover have "check_step_position ''a'' 0 ''nap'' 0 ?dr = Inr ()"
    by (simp add: check_step_position_def steps_of_def)
  moreover have "job_ns ''a'' running_db = None" by (simp add: job_ns_def claimed_row_def)
  ultimately show ?thesis
    using running_fence release_until_eq(1) [of "''a''" "?dr\<lparr>job_steps := [new_step_row ''u'' 7 ?step None (Some 100)]\<rparr>"
        "claimed_row 6 (sample_row ''a'' 0)" "Slept 100"]
    by (simp add: sleep_job_def sleep_body_def resolve_step_fence_eq sleep_first_def step_totals_def steps_of_def
        check_step_count_def clamped_def default_limits_def MAX_STEPS_CEILING_def claimed_row_def)
qed

end
