(* ===== verification/Floats.thy ===== *)
theory Floats
  imports Prelude "HOL-Library.Log_Nat"
begin

text \<open>
  Rust's \<open>f64\<close>, as far as the token buckets, the circuit breakers and the load shedder use
  it. A finite \<open>f64\<close> is the rational it denotes; an operation is the exact result rounded
  to the nearest value with a 53-bit significand, ties to even, which is what IEEE 754
  prescribes for \<open>+\<close>, \<open>-\<close>, \<open>*\<close>, \<open>/\<close>, \<open>sqrt\<close> and the conversion from
  an integer. The exponent range is not limited, so overflow to infinity, subnormal numbers and
  \<open>NaN\<close> are outside the model. The lemmas are the ones floating-point reasoning rests
  on: rounding is monotone, exact on integers below \<open>2 ^ 53\<close>, and off by at most one part
  in \<open>2 ^ 53\<close>.
\<close>

type_synonym f64 = rat

section \<open>Rounding\<close>

text \<open>The exponent of the binade a positive number lies in.\<close>

definition expo :: "rat \<Rightarrow> int" where
  "expo q = (if 1 \<le> q then bitlen \<lfloor>q\<rfloor> - 1 else - bitlen (\<lceil>1 / q\<rceil> - 1))"

definition round_even :: "rat \<Rightarrow> int" where
  "round_even x =
     (let f = \<lfloor>x\<rfloor>; r = x - of_int f
      in if r < 1 / 2 \<or> (r = 1 / 2 \<and> even f) then f else f + 1)"

definition ulp :: "rat \<Rightarrow> rat" where
  "ulp q = 2 powi (expo q - 52)"

definition round_pos :: "rat \<Rightarrow> rat" where
  "round_pos q = of_int (round_even (q / ulp q)) * ulp q"

definition fl :: "rat \<Rightarrow> f64" where
  "fl q = (if q = 0 then 0 else if q < 0 then - round_pos (- q) else round_pos q)"

definition f64_of_int :: "int \<Rightarrow> f64" where
  "f64_of_int k = fl (of_int k)"

definition f64_add :: "f64 \<Rightarrow> f64 \<Rightarrow> f64" where
  "f64_add a b = fl (a + b)"

definition f64_sub :: "f64 \<Rightarrow> f64 \<Rightarrow> f64" where
  "f64_sub a b = fl (a - b)"

definition f64_mul :: "f64 \<Rightarrow> f64 \<Rightarrow> f64" where
  "f64_mul a b = fl (a * b)"

definition f64_div :: "f64 \<Rightarrow> f64 \<Rightarrow> f64" where
  "f64_div a b = fl (a / b)"

text \<open>The cast \<open>as i64\<close> truncates towards zero and saturates.\<close>

definition i64_of_f64 :: "f64 \<Rightarrow> int" where
  "i64_of_f64 q = sat_i64 (if 0 \<le> q then \<lfloor>q\<rfloor> else \<lceil>q\<rceil>)"

section \<open>Rounding to an integer\<close>

lemma round_even_ge: "\<lfloor>x\<rfloor> \<le> round_even x"
  by (simp add: round_even_def Let_def)

lemma round_even_le: "round_even x \<le> \<lfloor>x\<rfloor> + 1"
  by (simp add: round_even_def Let_def)

lemma round_even_mono: "x \<le> y \<Longrightarrow> round_even x \<le> round_even y"
proof (cases "\<lfloor>x\<rfloor> = \<lfloor>y\<rfloor>")
  case True
  assume "x \<le> y"
  with True show ?thesis by (auto simp: round_even_def Let_def)
next
  case False
  assume "x \<le> y"
  then have "\<lfloor>x\<rfloor> < \<lfloor>y\<rfloor>" using False floor_mono [of x y] by simp
  then show ?thesis using round_even_le [of x] round_even_ge [of y] by linarith
qed

lemma round_even_of_int [simp]: "round_even (of_int k) = k"
  by (simp add: round_even_def Let_def)

lemma round_even_numeral [simp]: "round_even (numeral n) = numeral n"
  using round_even_of_int [of "numeral n"] by simp

lemma round_even_error: "\<bar>of_int (round_even x) - x\<bar> \<le> 1 / 2"
proof -
  define r where "r = x - of_int \<lfloor>x\<rfloor>"
  have r: "0 \<le> r" "r < 1" "x = of_int \<lfloor>x\<rfloor> + r"
    unfolding r_def by (simp_all add: le_floor_iff) linarith
  show ?thesis
    unfolding round_even_def Let_def r_def [symmetric] using r by (auto simp: abs_if field_simps)
qed

section \<open>The binade of a number\<close>

lemma expo_spec: "0 < q \<Longrightarrow> 2 powi expo q \<le> q \<and> q < 2 powi (expo q + 1)"
proof (cases "1 \<le> q")
  case True
  then have pos: "0 < \<lfloor>q\<rfloor>" by simp
  define n where "n = nat (bitlen \<lfloor>q\<rfloor> - 1)"
  have b1: "1 \<le> bitlen \<lfloor>q\<rfloor>"
    using pos bitlen_nonneg [of "\<lfloor>q\<rfloor>"] bitlen_eq_zero_iff [of "\<lfloor>q\<rfloor>"] by linarith
  then have e: "expo q = int n" and n1: "bitlen \<lfloor>q\<rfloor> = int (Suc n)"
    using True by (simp_all add: expo_def n_def)
  from bitlen_bounds [OF pos] have "2 ^ n \<le> \<lfloor>q\<rfloor>" "\<lfloor>q\<rfloor> < 2 ^ Suc n"
    unfolding n1 nat_int by (simp_all add: of_nat_Suc nat_add_distrib)
  then have "of_int (2 ^ n) \<le> q" "q < of_int (2 ^ Suc n)"
    by (simp_all add: le_floor_iff floor_less_iff)
  then show ?thesis by (simp add: e power_int_add)
next
  case False
  assume q: "0 < q"
  define k where "k = \<lceil>1 / q\<rceil> - 1"
  have "1 < 1 / q" using False q by (simp add: field_simps)
  then have pos: "0 < k" unfolding k_def by linarith
  define n where "n = nat (bitlen k - 1)"
  have b1: "1 \<le> bitlen k"
    using pos bitlen_nonneg [of k] bitlen_eq_zero_iff [of k] by linarith
  then have n1: "bitlen k = int (Suc n)" by (simp add: n_def)
  then have e: "expo q = - int (Suc n)" using False by (simp add: expo_def k_def)
  from bitlen_bounds [OF pos] have "2 ^ n \<le> k" "k < 2 ^ Suc n"
    unfolding n1 nat_int by (simp_all add: of_nat_Suc nat_add_distrib)
  then have "2 ^ n < \<lceil>1 / q\<rceil>" "\<lceil>1 / q\<rceil> \<le> 2 ^ Suc n" by (simp_all add: k_def)
  then have "of_int (2 ^ n) < 1 / q" "1 / q \<le> of_int (2 ^ Suc n)"
    by (simp_all only: less_ceiling_iff ceiling_le_iff)
  then have "2 ^ n * q < 1" "1 \<le> 2 ^ Suc n * q" using q by (simp_all add: field_simps)
  moreover have "expo q + 1 = - int n" by (simp add: e)
  ultimately show ?thesis
    unfolding \<open>expo q + 1 = - int n\<close> e
    by (simp only: power_int_minus power_int_of_nat) (simp add: field_simps)
qed

lemma powi_less_iff: "(2 :: rat) powi a < 2 powi b \<longleftrightarrow> a < b"
  using power_int_strict_increasing [of a b "2 :: rat"] power_int_strict_increasing [of b a "2 :: rat"]
  by (cases a b rule: linorder_cases) auto

lemma expo_unique: "2 powi e \<le> q \<Longrightarrow> q < 2 powi (e + 1) \<Longrightarrow> expo q = e"
proof -
  assume a: "2 powi e \<le> q" "q < 2 powi (e + 1)"
  have "0 < q" using a(1) by (meson less_le_trans zero_less_numeral zero_less_power_int)
  from expo_spec [OF this] have "2 powi expo q < (2::rat) powi (e + 1)" "2 powi e < (2::rat) powi (expo q + 1)"
    using a by auto
  then show ?thesis by (simp add: powi_less_iff)
qed

lemma expo_mono: "0 < p \<Longrightarrow> p \<le> q \<Longrightarrow> expo p \<le> expo q"
proof -
  assume "0 < p" "p \<le> q"
  then have "(2::rat) powi expo p < 2 powi (expo q + 1)"
    using expo_spec [of p] expo_spec [of q] by linarith
  then show ?thesis by (simp add: powi_less_iff)
qed

lemma ulp_pos [simp]: "0 < ulp q"
  by (simp add: ulp_def)

lemma ulp_nonneg [simp]: "0 \<le> ulp q"
  by (simp add: less_imp_le)

lemma scaled_range: "0 < q \<Longrightarrow> 2 ^ 52 \<le> q / ulp q \<and> q / ulp q < 2 ^ 53"
proof -
  assume q: "0 < q"
  have "(2::rat) powi expo q = 2 ^ 52 * ulp q" "(2::rat) powi (expo q + 1) = 2 ^ 53 * ulp q"
    by (simp_all add: ulp_def power_int_diff power_int_add)
  with expo_spec [OF q] show ?thesis by (simp add: field_simps)
qed

section \<open>Properties of rounding\<close>

lemma round_pos_range: "0 < q \<Longrightarrow> 2 powi expo q \<le> round_pos q \<and> round_pos q \<le> 2 powi (expo q + 1)"
proof -
  assume q: "0 < q"
  have e: "(2::rat) powi expo q = 2 ^ 52 * ulp q" "(2::rat) powi (expo q + 1) = 2 ^ 53 * ulp q"
    by (simp_all add: ulp_def power_int_diff power_int_add)
  have "round_even (of_int (2 ^ 52)) \<le> round_even (q / ulp q)"
    using scaled_range [OF q] by (intro round_even_mono) simp
  moreover have "round_even (q / ulp q) \<le> round_even (of_int (2 ^ 53))"
    using scaled_range [OF q] by (intro round_even_mono) simp
  ultimately have "(2::int) ^ 52 \<le> round_even (q / ulp q)" "round_even (q / ulp q) \<le> 2 ^ 53"
    by (simp_all only: round_even_of_int)
  then have "(of_int (2 ^ 52) :: rat) \<le> of_int (round_even (q / ulp q))"
    "of_int (round_even (q / ulp q)) \<le> (of_int (2 ^ 53) :: rat)"
    by (simp_all only: of_int_le_iff)
  then show ?thesis unfolding e round_pos_def by (intro conjI mult_right_mono) simp_all
qed

lemma round_pos_mono: "0 < p \<Longrightarrow> p \<le> q \<Longrightarrow> round_pos p \<le> round_pos q"
proof (cases "expo p = expo q")
  case True
  assume "0 < p" "p \<le> q"
  have u: "ulp p = ulp q" by (simp add: ulp_def True)
  show ?thesis unfolding round_pos_def u
    using \<open>p \<le> q\<close> by (intro mult_right_mono) (simp_all add: round_even_mono divide_right_mono less_imp_le)
next
  case False
  assume pq: "0 < p" "p \<le> q"
  then have "expo p + 1 \<le> expo q" using expo_mono [OF pq] False by simp
  then have "(2::rat) powi (expo p + 1) \<le> 2 powi expo q" by (intro power_int_increasing) simp_all
  then show ?thesis using round_pos_range [of p] round_pos_range [of q] pq by linarith
qed

lemma round_pos_pos: "0 < q \<Longrightarrow> 0 < round_pos q"
  using round_pos_range [of q] by (meson less_le_trans zero_less_numeral zero_less_power_int)

lemma fl_0 [simp]: "fl 0 = 0"
  by (simp add: fl_def)

lemma fl_nonneg [simp]: "0 \<le> q \<Longrightarrow> 0 \<le> fl q"
  using round_pos_pos [of q] by (auto simp: fl_def)

lemma fl_nonpos: "q \<le> 0 \<Longrightarrow> fl q \<le> 0"
  using round_pos_pos [of "- q"] by (auto simp: fl_def)

lemma fl_mono: "p \<le> q \<Longrightarrow> fl p \<le> fl q"
proof -
  assume pq: "p \<le> q"
  consider "0 < p" | "p \<le> 0" "0 \<le> q" | "q < 0" using pq by linarith
  then show ?thesis
  proof cases
    case 1
    then show ?thesis using pq round_pos_mono [of p q] by (simp add: fl_def)
  next
    case 2
    then show ?thesis using fl_nonpos [of p] fl_nonneg [of q] by linarith
  next
    case 3
    then show ?thesis using pq round_pos_mono [of "- q" "- p"] by (simp add: fl_def)
  qed
qed

lemma fl_error: "\<bar>fl q - q\<bar> \<le> \<bar>q\<bar> / 2 ^ 53"
proof -
  have pos: "\<bar>round_pos q - q\<bar> \<le> q / 2 ^ 53" if q: "0 < q" for q
  proof -
    have "\<bar>of_int (round_even (q / ulp q)) - q / ulp q\<bar> * ulp q \<le> 1 / 2 * ulp q"
      by (intro mult_right_mono round_even_error) (simp add: less_imp_le)
    moreover have "\<bar>of_int (round_even (q / ulp q)) - q / ulp q\<bar> * ulp q = \<bar>round_pos q - q\<bar>"
      using abs_mult [of "of_int (round_even (q / ulp q)) - q / ulp q" "ulp q"] ulp_pos [of q]
      by (simp add: round_pos_def left_diff_distrib)
    moreover have "2 ^ 52 * ulp q \<le> q"
      using scaled_range [OF q] by (simp add: field_simps)
    ultimately have "\<bar>round_pos q - q\<bar> \<le> 1 / 2 * ulp q" "ulp q \<le> q / 2 ^ 52" by simp_all
    then show ?thesis by simp
  qed
  show ?thesis
    using pos [of q] pos [of "- q"] by (auto simp: fl_def abs_if field_simps split: if_splits)
qed

lemma fl_le: "0 \<le> q \<Longrightarrow> fl q \<le> q + q / 2 ^ 53"
  using fl_error [of q] by (simp add: abs_if split: if_splits)

lemma round_pos_scaled: "0 < k \<Longrightarrow> k < 2 ^ 53 \<Longrightarrow> round_pos (of_int k) = of_int k"
proof -
  assume k: "0 < k" "k < 2 ^ 53"
  have "(2::rat) powi expo (of_int k) \<le> of_int k" using k expo_spec [of "of_int k"] by simp
  also have "(of_int k :: rat) < of_int (2 ^ 53)" using k by (simp only: of_int_less_iff)
  finally have "(2::rat) powi expo (of_int k) < 2 powi 53" by simp
  then have "expo (of_int k) \<le> 52" by (simp add: powi_less_iff del: power_int_numeral)
  define n where "n = nat (52 - expo (of_int k))"
  then have n: "expo (of_int k) - 52 = - int n" using \<open>expo (of_int k) \<le> 52\<close> by simp
  then have u: "ulp (of_int k) = 1 / 2 ^ n" by (simp only: ulp_def n power_int_minus) (simp add: field_simps)
  have "(of_int k :: rat) / ulp (of_int k) = of_int (k * 2 ^ n)" by (simp add: u)
  then show ?thesis by (simp only: round_pos_def round_even_of_int) (simp add: u)
qed

lemma fl_of_int [simp]: "\<bar>k\<bar> < 2 ^ 53 \<Longrightarrow> fl (of_int k) = of_int k"
  using round_pos_scaled [of k] round_pos_scaled [of "- k"] by (auto simp: fl_def)

lemma fl_of_nat: "k < 2 ^ 53 \<Longrightarrow> fl (of_nat k) = of_nat k"
proof -
  assume "k < 2 ^ 53"
  then have "int k < int (2 ^ 53)" by (simp only: of_nat_less_iff)
  then show ?thesis using fl_of_int [of "int k"] by simp
qed

lemma f64_of_int_exact [simp]: "\<bar>k\<bar> < 2 ^ 53 \<Longrightarrow> f64_of_int k = of_int k"
  by (simp add: f64_of_int_def)

lemma f64_of_int_mono: "j \<le> k \<Longrightarrow> f64_of_int j \<le> f64_of_int k"
  by (simp add: f64_of_int_def fl_mono)

section \<open>Square roots\<close>

text \<open>
  The integer square root, digit by digit, and the correctly rounded square root of a
  non-negative number built from it.
\<close>

fun isqrt :: "nat \<Rightarrow> nat" where
  "isqrt n = (if n = 0 then 0 else
     let r = 2 * isqrt (n div 4) in if (r + 1) * (r + 1) \<le> n then r + 1 else r)"

declare isqrt.simps [simp del]

lemma isqrt_spec: "isqrt n * isqrt n \<le> n \<and> n < (isqrt n + 1) * (isqrt n + 1)"
proof (induction n rule: isqrt.induct)
  case (1 n)
  show ?case
  proof (cases "n = 0")
    case True
    then show ?thesis by (simp add: isqrt.simps)
  next
    case False
    define s where "s = isqrt (n div 4)"
    have ih: "s * s \<le> n div 4" "n div 4 < (s + 1) * (s + 1)"
      using "1.IH" [OF False] by (simp_all add: s_def)
    have n: "n = 4 * (n div 4) + n mod 4" "n mod 4 < 4" by simp_all
    have "(2 * s) * (2 * s) \<le> n" using ih(1) n by linarith
    moreover have "n div 4 + 1 \<le> (s + 1) * (s + 1)" using ih(2) by simp
    then have "n < (2 * s + 2) * (2 * s + 2)" using n by (simp add: algebra_simps)
    ultimately show ?thesis
      using False by (subst (1 2 3 4) isqrt.simps) (auto simp: s_def [symmetric] Let_def)
  qed
qed

definition f64_sqrt :: "f64 \<Rightarrow> f64" where
  "f64_sqrt q =
     (if q = 0 then 0 else
        let e = (expo q) div 2;
            s = q * 4 powi (52 - e);
            f = int (isqrt (nat \<lfloor>s\<rfloor>));
            h = of_int f + 1 / 2
        in of_int (if s < h * h \<or> (s = h * h \<and> even f) then f else f + 1) * 2 powi (e - 52))"

lemma isqrt_ge: "k * k \<le> n \<Longrightarrow> k \<le> isqrt n"
proof (rule ccontr)
  assume a: "k * k \<le> n" "\<not> k \<le> isqrt n"
  then have "(isqrt n + 1) * (isqrt n + 1) \<le> k * k" by (intro mult_le_mono) simp_all
  then show False using isqrt_spec [of n] a(1) by linarith
qed

lemma powi_square: "(4 :: rat) powi n = 2 powi n * 2 powi n"
  by (simp add: power_int_mult_distrib [symmetric])

lemma f64_sqrt_ge: "0 < q \<Longrightarrow> 2 powi (expo q div 2) \<le> f64_sqrt q"
proof -
  assume q: "0 < q"
  define e where "e = expo q div 2"
  define s where "s = q * 4 powi (52 - e)"
  have "(4::rat) powi e = 2 powi (2 * e)" by (simp add: powi_square power_int_add [symmetric])
  also have "\<dots> \<le> 2 powi expo q" by (intro power_int_increasing) (simp_all add: e_def)
  also have "\<dots> \<le> q" using expo_spec [OF q] by simp
  finally have "(4::rat) powi e * 4 powi (52 - e) \<le> s"
    unfolding s_def by (intro mult_right_mono) simp_all
  moreover have "(4::rat) powi e * 4 powi (52 - e) = of_int (4 ^ 52)"
    by (simp add: power_int_add [symmetric])
  ultimately have "4 ^ 52 \<le> \<lfloor>s\<rfloor>" by (simp only: le_floor_iff)
  then have "int (2 ^ 52 * 2 ^ 52) \<le> \<lfloor>s\<rfloor>" by simp
  then have "2 ^ 52 * 2 ^ 52 \<le> nat \<lfloor>s\<rfloor>" by linarith
  then have f: "2 ^ 52 \<le> isqrt (nat \<lfloor>s\<rfloor>)" by (rule isqrt_ge)
  define m where "m = (let f = int (isqrt (nat \<lfloor>s\<rfloor>)); h = of_int f + 1 / 2
     in if s < h * h \<or> (s = h * h \<and> even f) then f else f + 1)"
  have "int (2 ^ 52) \<le> int (isqrt (nat \<lfloor>s\<rfloor>))" using f by (simp only: of_nat_le_iff)
  moreover have "int (isqrt (nat \<lfloor>s\<rfloor>)) \<le> m" by (simp add: m_def Let_def)
  ultimately have "2 ^ 52 \<le> m" by simp
  then have "(of_int (2 ^ 52) :: rat) \<le> of_int m" by (simp only: of_int_le_iff)
  then have "of_int (2 ^ 52) * 2 powi (e - 52) \<le> of_int m * (2 powi (e - 52) :: rat)"
    by (intro mult_right_mono) simp_all
  moreover have "of_int (2 ^ 52) * 2 powi (e - 52) = (2 powi e :: rat)" by (simp add: power_int_diff)
  moreover have "f64_sqrt q = of_int m * 2 powi (e - 52)"
    using q by (simp add: f64_sqrt_def Let_def m_def s_def e_def)
  ultimately show ?thesis unfolding e_def [symmetric] by metis
qed

lemma f64_sqrt_ge_1: "1 \<le> q \<Longrightarrow> 1 \<le> f64_sqrt q"
proof -
  assume q: "1 \<le> q"
  have "(2::rat) powi 0 < 2 powi (expo q + 1)" using q expo_spec [of q] by simp
  then have "0 < expo q + 1" by (simp only: powi_less_iff)
  then have "0 \<le> expo q div 2" by simp
  then have "(2::rat) powi 0 \<le> 2 powi (expo q div 2)" by (intro power_int_increasing) simp_all
  then show ?thesis using f64_sqrt_ge [of q] q by simp
qed

end
