(* ===== verification/Resilience.thy ===== *)
theory Resilience
  imports Floats Job_Data "HOL-Library.Signed_Division"
begin

text \<open>
  Retry backoff with full jitter (\<open>resilience/retry.rs\<close>) and the persisted token bucket
  behind every rate limit and retry budget (\<open>resilience/rate_limiter.rs\<close>,
  \<open>storage/sqlite/rate_limits.rs\<close>). Random numbers and clock readings are arguments; the
  table \<open>rate_limits\<close> is a list of rows, and a token is taken in one write transaction.
  The lemmas bound the delays, and what a bucket admits over any sequence of requests.
\<close>

section \<open>Retry backoff (resilience/retry.rs)\<close>

definition full_jitter :: "64 word \<Rightarrow> int \<Rightarrow> int" where
  "full_jitter rnd cap_ms = (if cap_ms \<le> 0 then 0 else uint rnd mod (cap_ms + 1))"

definition desync_delay :: "64 word \<Rightarrow> int \<Rightarrow> int" where
  "desync_delay rnd base_ms = saturating_add base_ms (full_jitter rnd (base_ms sdiv 2))"

record retry_policy =
  rp_max_retries :: int
  rp_base_delay_ms :: int
  rp_max_delay_ms :: int
  rp_custom_delays_ms :: "int list option"

definition default_retry_policy :: retry_policy where
  "default_retry_policy = \<lparr>rp_max_retries = 3, rp_base_delay_ms = 1000, rp_max_delay_ms = 300000,
     rp_custom_delays_ms = None\<rparr>"

text \<open>\<open>1i64 << k\<close>: a release build takes the shift amount modulo 64.\<close>

definition shl_one :: "int \<Rightarrow> int" where
  "shl_one k = wrapping_i64 (2 ^ nat (k mod 64))"

text \<open>\<open>delays.get(retry_count as usize)\<close>: a negative count indexes past every list.\<close>

definition custom_delay :: "retry_policy \<Rightarrow> int \<Rightarrow> int option" where
  "custom_delay policy retry_count =
     (case rp_custom_delays_ms policy of
        None \<Rightarrow> None
      | Some delays \<Rightarrow>
          if 0 \<le> retry_count \<and> nat retry_count < length delays
          then Some (delays ! nat retry_count) else None)"

definition backoff_cap :: "retry_policy \<Rightarrow> int \<Rightarrow> int" where
  "backoff_cap policy retry_count =
     min (saturating_mul (rp_base_delay_ms policy) (shl_one (min retry_count 30)))
       (rp_max_delay_ms policy)"

definition next_retry_at :: "64 word \<Rightarrow> int \<Rightarrow> retry_policy \<Rightarrow> int \<Rightarrow> int" where
  "next_retry_at rnd now policy retry_count =
     (case custom_delay policy retry_count of
        Some custom \<Rightarrow> wrapping_add now custom
      | None \<Rightarrow> wrapping_add now (full_jitter rnd (backoff_cap policy retry_count)))"

definition should_retry :: "retry_policy \<Rightarrow> int \<Rightarrow> bool" where
  "should_retry policy retry_count \<longleftrightarrow> retry_count < rp_max_retries policy"

section \<open>Token buckets (resilience/rate_limiter.rs, storage/sqlite/rate_limits.rs)\<close>

record rate_limit_config =
  rl_max_tokens :: f64
  rl_refill_rate :: f64

record bucket_row =
  b_key :: string
  b_tokens :: f64
  b_max_tokens :: f64
  b_refill_rate :: f64
  b_last_refill :: int

definition get_rate_limit :: "string \<Rightarrow> bucket_row list \<Rightarrow> bucket_row option" where
  "get_rate_limit k buckets = find_row b_key k buckets"

definition upsert_rate_limit :: "bucket_row \<Rightarrow> bucket_row list \<Rightarrow> bucket_row list" where
  "upsert_rate_limit row buckets = replace_row b_key row buckets"

definition full_bucket :: "int \<Rightarrow> string \<Rightarrow> f64 \<Rightarrow> f64 \<Rightarrow> bucket_row" where
  "full_bucket now k max_tokens refill_rate =
     \<lparr>b_key = k, b_tokens = max_tokens, b_max_tokens = max_tokens, b_refill_rate = refill_rate,
      b_last_refill = now\<rparr>"

definition existing_bucket :: "int \<Rightarrow> string \<Rightarrow> f64 \<Rightarrow> f64 \<Rightarrow> bucket_row list \<Rightarrow> bucket_row" where
  "existing_bucket now k max_tokens refill_rate buckets =
     (case find_row b_key k buckets of
        Some r \<Rightarrow> r
      | None \<Rightarrow> full_bucket now k max_tokens refill_rate)"

definition refilled :: "int \<Rightarrow> f64 \<Rightarrow> f64 \<Rightarrow> bucket_row \<Rightarrow> f64" where
  "refilled now max_tokens refill_rate row =
     (let elapsed_ms = f64_of_int (max (wrapping_i64 (now - b_last_refill row)) 0);
          elapsed_sec = f64_div elapsed_ms 1000
      in min (f64_add (b_tokens row) (f64_mul elapsed_sec refill_rate)) max_tokens)"

definition try_acquire_token ::
    "int \<Rightarrow> string \<Rightarrow> f64 \<Rightarrow> f64 \<Rightarrow> bucket_row list \<Rightarrow> bool \<times> bucket_row list" where
  "try_acquire_token now k max_tokens refill_rate buckets =
     (let row = existing_bucket now k max_tokens refill_rate buckets;
          tokens = refilled now max_tokens refill_rate row;
          acquired = (1 \<le> tokens);
          row' = row\<lparr>b_tokens := (if acquired then f64_sub tokens 1 else tokens), b_last_refill := now\<rparr>
      in (acquired, replace_row b_key row' buckets))"

definition try_acquire :: "int \<Rightarrow> string \<Rightarrow> rate_limit_config \<Rightarrow> bucket_row list \<Rightarrow> bool \<times> bucket_row list" where
  "try_acquire now k config buckets =
     try_acquire_token now k (rl_max_tokens config) (rl_refill_rate config) buckets"

section \<open>Backoff stays within its cap\<close>

lemma full_jitter_range: "0 \<le> full_jitter rnd cap \<and> full_jitter rnd cap \<le> max cap 0"
  using pos_mod_bound [of "cap + 1" "uint rnd"] by (auto simp: full_jitter_def)

lemma shl_one_small: "0 \<le> k \<Longrightarrow> k \<le> 30 \<Longrightarrow> shl_one k = 2 ^ nat k"
proof -
  assume k: "0 \<le> k" "k \<le> 30"
  define x :: int where "x = 2 ^ nat k"
  have "x \<le> 2 ^ 30" unfolding x_def using k by (intro power_increasing) simp_all
  moreover have "0 \<le> x" by (simp add: x_def)
  ultimately have "is_i64 x" by (simp add: is_i64_def i64_min_def i64_max_def)
  then have "is_i64 (2 ^ nat k)" by (simp only: x_def)
  then show ?thesis using k by (simp add: shl_one_def wrapping_i64_id)
qed

lemma backoff_cap_le:
  "0 \<le> rp_base_delay_ms policy \<Longrightarrow> 0 \<le> retry_count \<Longrightarrow>
   backoff_cap policy retry_count \<le> min (rp_base_delay_ms policy * 2 ^ nat (min retry_count 30)) (rp_max_delay_ms policy)"
proof -
  assume a: "0 \<le> rp_base_delay_ms policy" "0 \<le> retry_count"
  let ?p = "rp_base_delay_ms policy * 2 ^ nat (min retry_count 30)"
  have "0 \<le> ?p" using a(1) by simp
  then have "i64_min \<le> ?p" by (rule order_trans [rotated]) (simp add: i64_min_def)
  then have "saturating_mul (rp_base_delay_ms policy) (2 ^ nat (min retry_count 30)) \<le> ?p"
    by (simp add: saturating_mul_def sat_i64_def)
  then show ?thesis using a by (simp add: backoff_cap_def shl_one_small min.coboundedI1)
qed

section \<open>The token bucket\<close>

fun run_bucket :: "string \<Rightarrow> f64 \<Rightarrow> f64 \<Rightarrow> int list \<Rightarrow> bucket_row list \<Rightarrow> nat \<times> bucket_row list" where
  "run_bucket k max_tokens refill_rate [] buckets = (0, buckets)"
| "run_bucket k max_tokens refill_rate (now # ts) buckets =
     (let (ok, buckets') = try_acquire_token now k max_tokens refill_rate buckets;
          (n, buckets'') = run_bucket k max_tokens refill_rate ts buckets'
      in (of_bool ok + n, buckets''))"

lemma run_bucket_Cons:
  "fst (run_bucket k m r (t # ts) buckets) =
     of_bool (fst (try_acquire_token t k m r buckets))
     + fst (run_bucket k m r ts (snd (try_acquire_token t k m r buckets)))"
  by (simp add: case_prod_unfold Let_def)

declare run_bucket.simps(2) [simp del]

definition clock_ok :: "int \<Rightarrow> bool" where
  "clock_ok t \<longleftrightarrow> 0 \<le> t \<and> t \<le> i64_max"

lemma elapsed_exact:
  "clock_ok t0 \<Longrightarrow> clock_ok t \<Longrightarrow> t0 \<le> t \<Longrightarrow> max (wrapping_i64 (t - t0)) 0 = t - t0"
  by (simp add: clock_ok_def wrapping_i64_id is_i64_def i64_min_def i64_max_def)

lemma refilled_le_max: "refilled now m r row \<le> m"
  by (simp add: refilled_def Let_def)

lemma refilled_nonneg: "0 \<le> b_tokens row \<Longrightarrow> 0 \<le> m \<Longrightarrow> 0 \<le> r \<Longrightarrow> 0 \<le> refilled now m r row"
  by (simp add: refilled_def Let_def f64_add_def f64_mul_def f64_div_def f64_of_int_def)

lemma fl_chain:
  assumes "0 \<le> x" "x \<le> y * (1 + c)" "0 \<le> y" "0 \<le> c" "c \<le> 4 / 2 ^ 53"
  shows "fl x \<le> y * (1 + (c + 2 / 2 ^ 53))"
proof -
  have "fl x \<le> x * (1 + 1 / 2 ^ 53)" using fl_le [OF assms(1)] by (simp add: algebra_simps)
  also have "\<dots> \<le> y * (1 + c) * (1 + 1 / 2 ^ 53)" using assms(2) by (intro mult_right_mono) simp_all
  also have "\<dots> = y * ((1 + c) * (1 + 1 / 2 ^ 53))" by simp
  also have "\<dots> \<le> y * (1 + (c + 2 / 2 ^ 53))"
    using assms(3,4,5) by (intro mult_left_mono) (simp_all add: field_simps)
  finally show ?thesis .
qed

lemma refilled_le:
  assumes "0 \<le> b_tokens row" "0 \<le> m" "0 \<le> r"
    "clock_ok (b_last_refill row)" "clock_ok now" "b_last_refill row \<le> now"
  shows "refilled now m r row \<le> b_tokens row + r * of_int (now - b_last_refill row) / 1000 + m / 2 ^ 50"
proof -
  define t where "t = b_tokens row"
  define el where "el = now - b_last_refill row"
  define E where "E = r * of_int el / 1000"
  have el: "0 \<le> el" and E: "0 \<le> E" using assms(3,6) by (simp_all add: el_def E_def)
  define a1 where "a1 = f64_of_int el"
  define a2 where "a2 = f64_div a1 1000"
  define a3 where "a3 = f64_mul a2 r"
  have nn: "0 \<le> a1" "0 \<le> a2" "0 \<le> a3"
    using el assms(3) by (simp_all add: a1_def a2_def a3_def f64_of_int_def f64_div_def f64_mul_def)
  have "a1 \<le> of_int el * (1 + (0 + 2 / 2 ^ 53))"
    unfolding a1_def f64_of_int_def by (rule fl_chain) (use el in simp_all)
  then have "a2 \<le> of_int el / 1000 * (1 + ((0 + 2 / 2 ^ 53) + 2 / 2 ^ 53))"
    unfolding a2_def f64_div_def by (intro fl_chain) (use el nn in simp_all)
  then have "a2 * r \<le> of_int el / 1000 * (1 + ((0 + 2 / 2 ^ 53) + 2 / 2 ^ 53)) * r"
    using assms(3) by (rule mult_right_mono)
  then have "a2 * r \<le> E * (1 + 4 / 2 ^ 53)" by (simp add: E_def algebra_simps)
  then have "a3 \<le> E * (1 + (4 / 2 ^ 53 + 2 / 2 ^ 53))"
    unfolding a3_def f64_mul_def by (intro fl_chain) (use E nn assms(3) in simp_all)
  then have "t + a3 \<le> (t + E) * (1 + 6 / 2 ^ 53)"
    using assms(1) by (simp add: t_def algebra_simps)
  moreover have "f64_add t a3 \<le> (t + a3) * (1 + 1 / 2 ^ 53)"
    using fl_le [of "t + a3"] nn assms(1) unfolding f64_add_def distrib_left mult_1_right t_def
    by simp
  ultimately have "f64_add t a3 \<le> (t + E) * (1 + 6 / 2 ^ 53) * (1 + 1 / 2 ^ 53)"
    by (meson mult_right_mono order_trans zero_le_one add_nonneg_nonneg divide_nonneg_nonneg
        zero_le_power zero_le_numeral)
  also have "\<dots> = (t + E) * ((1 + 6 / 2 ^ 53) * (1 + 1 / 2 ^ 53))" by simp
  also have "\<dots> \<le> (t + E) * (1 + 1 / 2 ^ 50)"
    using E assms(1) by (intro mult_left_mono) (simp_all add: t_def)
  finally have R: "f64_add t a3 \<le> (t + E) * (1 + 1 / 2 ^ 50)" .
  have "refilled now m r row = min (f64_add t a3) m"
    using elapsed_exact [OF assms(4,5,6)]
    by (simp add: refilled_def Let_def t_def a3_def a2_def a1_def el_def)
  then have "refilled now m r row \<le> t + E + m / 2 ^ 50"
  proof (cases "t + E \<le> m")
    case True
    then have "(t + E) / 2 ^ 50 \<le> m / 2 ^ 50" by (intro divide_right_mono) simp_all
    then show ?thesis using R \<open>refilled now m r row = min (f64_add t a3) m\<close> by (simp add: algebra_simps)
  next
    case False
    then show ?thesis using refilled_le_max [of now m r row] assms(1,2) by simp
  qed
  then show ?thesis by (simp add: t_def E_def el_def)
qed

lemma acquire_step:
  assumes "find_row b_key k buckets = Some row" "0 \<le> b_tokens row" "0 \<le> m" "0 \<le> r"
    "clock_ok (b_last_refill row)" "clock_ok now" "b_last_refill row \<le> now"
    and acq: "try_acquire_token now k m r buckets = (ok, buckets')"
  obtains row' where "find_row b_key k buckets' = Some row'" "b_last_refill row' = now"
    "0 \<le> b_tokens row'"
    "b_tokens row' + of_bool ok \<le> b_tokens row + r * of_int (now - b_last_refill row) / 1000 + m / 2 ^ 49"
proof -
  let ?t = "refilled now m r row"
  define row' where "row' = row\<lparr>b_tokens := (if 1 \<le> ?t then f64_sub ?t 1 else ?t), b_last_refill := now\<rparr>"
  have key: "b_key row = k" using assms(1) by (auto dest: find_row_SomeD)
  have res: "ok = (1 \<le> ?t)" "buckets' = replace_row b_key row' buckets"
    using acq assms(1) by (auto simp: try_acquire_token_def existing_bucket_def Let_def row'_def)
  have t: "0 \<le> ?t" "?t \<le> m"
    using refilled_nonneg [of row m r now] refilled_le_max [of now m r row] assms(2,3,4) by simp_all
  have "1 \<le> ?t \<Longrightarrow> f64_sub ?t 1 \<le> (?t - 1) + (?t - 1) / 2 ^ 53"
    using fl_le [of "?t - 1"] by (simp add: f64_sub_def)
  moreover have "(?t - 1) / 2 ^ 53 \<le> m / 2 ^ 53" using t(2) by (intro divide_right_mono) simp_all
  ultimately have "1 \<le> ?t \<Longrightarrow> f64_sub ?t 1 + 1 \<le> ?t + m / 2 ^ 53" by linarith
  moreover have "0 \<le> m / 2 ^ 53" using assms(3) by simp
  ultimately have tok: "b_tokens row' + of_bool ok \<le> ?t + m / 2 ^ 53"
    by (cases "1 \<le> ?t") (simp_all add: row'_def res del: divide_le_0_iff zero_le_divide_iff)
  show thesis
  proof (rule that [of row'])
    show "find_row b_key k buckets' = Some row'" by (simp add: res find_row_replace row'_def key)
    show "b_last_refill row' = now" by (simp add: row'_def)
    show "0 \<le> b_tokens row'" using t by (simp add: row'_def f64_sub_def)
    show "b_tokens row' + of_bool ok \<le> b_tokens row + r * of_int (now - b_last_refill row) / 1000 + m / 2 ^ 49"
      using tok refilled_le [OF assms(2-7)] assms(3) by simp
  qed
qed

lemma run_bucket_bound:
  assumes "find_row b_key k buckets = Some row" "0 \<le> b_tokens row" "0 \<le> m" "0 \<le> r"
    "sorted (b_last_refill row # ts)" "\<forall>t \<in> set (b_last_refill row # ts). clock_ok t"
  shows "of_nat (fst (run_bucket k m r ts buckets))
    \<le> b_tokens row + r * of_int (last (b_last_refill row # ts) - b_last_refill row) / 1000
      + of_nat (length ts) * (m / 2 ^ 49)"
  using assms
proof (induction ts arbitrary: buckets row)
  case Nil
  then show ?case by simp
next
  case (Cons t ts)
  obtain ok buckets' where acq: "try_acquire_token t k m r buckets = (ok, buckets')" by fastforce
  obtain row' where row': "find_row b_key k buckets' = Some row'" "b_last_refill row' = t" "0 \<le> b_tokens row'"
    and pot: "b_tokens row' + of_bool ok \<le> b_tokens row + r * of_int (t - b_last_refill row) / 1000 + m / 2 ^ 49"
    using Cons.prems by (auto intro: acquire_step [OF Cons.prems(1-4) _ _ _ acq])
  have "of_nat (fst (run_bucket k m r ts buckets'))
      \<le> b_tokens row' + r * of_int (last (t # ts) - t) / 1000 + of_nat (length ts) * (m / 2 ^ 49)"
    using Cons.IH [OF row'(1,3) Cons.prems(3,4)] Cons.prems(5,6) row'(2) by simp
  moreover have "fst (run_bucket k m r (t # ts) buckets) = of_bool ok + fst (run_bucket k m r ts buckets')"
    by (simp add: acq run_bucket_Cons)
  moreover have "r * of_int (last (t # ts) - t) / 1000 + r * of_int (t - b_last_refill row) / 1000
      = r * of_int (last (t # ts) - b_last_refill row) / 1000"
    by (simp add: add_divide_distrib [symmetric] distrib_left [symmetric])
  moreover have "of_nat (length (t # ts)) * (m / 2 ^ 49) = of_nat (length ts) * (m / 2 ^ 49) + m / 2 ^ 49"
    by (simp only: length_Cons of_nat_Suc distrib_right mult_1_left add.commute)
  moreover have "(of_nat (of_bool ok) :: rat) = of_bool ok" by simp
  ultimately show ?case
    using pot unfolding last_ConsR [OF list.distinct(2)] by (simp only: of_nat_add)
qed

text \<open>A bucket that does not exist yet behaves like a full one last refilled now.\<close>

lemma run_bucket_fresh:
  assumes "find_row b_key k buckets = None"
  shows "fst (run_bucket k m r (t # ts) buckets)
    = fst (run_bucket k m r (t # ts) (replace_row b_key (full_bucket t k m r) buckets))"
proof -
  let ?row = "full_bucket t k m r"
  have "delete_where (\<lambda>x. b_key x = k) (replace_row b_key ?row buckets) = delete_where (\<lambda>x. b_key x = k) buckets"
    by (simp add: replace_row_def delete_where_def full_bucket_def)
  then have "try_acquire_token t k m r (replace_row b_key ?row buckets) = try_acquire_token t k m r buckets"
    using assms(1)
    by (simp add: try_acquire_token_def existing_bucket_def Let_def find_row_replace full_bucket_def)
      (simp add: replace_row_def full_bucket_def)
  then show ?thesis by (simp add: run_bucket_Cons)
qed

lemma burst_exact:
  assumes "find_row b_key k buckets = Some row" "b_tokens row = of_nat c" "b_last_refill row = t"
    "clock_ok t" "c \<le> m" "m < 2 ^ 53"
  shows "fst (run_bucket k (of_nat m) r (replicate n t) buckets) = min n c"
  using assms
proof (induction n arbitrary: c buckets row)
  case 0
  then show ?case by simp
next
  case (Suc n)
  have key: "b_key row = k" using Suc.prems(1) by (auto dest: find_row_SomeD)
  have fl_nat: "fl (of_nat j) = of_nat j" if "j \<le> m" for j
    using that Suc.prems(6) by (intro fl_of_nat) (rule le_less_trans)
  have t: "refilled t (of_nat m) r row = of_nat c"
    using Suc.prems elapsed_exact [of t t] fl_nat
    by (simp add: refilled_def Let_def f64_add_def f64_mul_def f64_div_def)
  have sub: "f64_sub (of_nat c) 1 = of_nat (c - 1)" if "0 < c"
    using fl_nat [of "c - 1"] that Suc.prems(5) by (simp add: f64_sub_def of_nat_diff)
  define row' where "row' = row\<lparr>b_tokens := of_nat (c - 1), b_last_refill := t\<rparr>"
  have "try_acquire_token t k (of_nat m) r buckets = (0 < c, replace_row b_key row' buckets)"
    using Suc.prems(1) t sub
    by (cases "0 < c") (simp_all add: try_acquire_token_def existing_bucket_def Let_def row'_def)
  moreover have "fst (run_bucket k (of_nat m) r (replicate n t) (replace_row b_key row' buckets)) = min n (c - 1)"
    by (rule Suc.IH [where row = row']) (use Suc.prems key in \<open>simp_all add: find_row_replace row'_def\<close>)
  ultimately show ?case by (cases c) (simp_all add: run_bucket_Cons)
qed

text \<open>
  C32: the token bucket keeps its promise. Over any sequence of requests with a clock that does
  not run backwards, a fresh bucket admits at most its capacity plus what the refill rate adds
  in the elapsed time; rounding in the \<open>f64\<close> arithmetic adds less than one part in
  \<open>2 ^ 49\<close> of the capacity per request. Requests at a single instant are admitted exactly
  up to a whole-numbered capacity.
\<close>

theorem token_bucket_bound:
  fixes k :: string and m r :: f64
  assumes "find_row b_key k buckets = None" "0 \<le> m" "0 \<le> r"
    "sorted (t # ts)" "\<forall>u \<in> set (t # ts). clock_ok u"
  shows "of_nat (fst (run_bucket k m r (t # ts) buckets))
      \<le> m + r * of_int (last (t # ts) - t) / 1000 + of_nat (length (t # ts)) * (m / 2 ^ 49)
    \<and> (m = of_nat c \<longrightarrow> c < 2 ^ 53 \<longrightarrow>
        fst (run_bucket k m r (replicate (Suc n) t) buckets) = min (Suc n) c)"
proof
  define row where "row = full_bucket t k m r"
  have row: "find_row b_key k (replace_row b_key row buckets) = Some row"
    by (simp add: find_row_replace row_def full_bucket_def)
  have "of_nat (fst (run_bucket k m r (t # ts) (replace_row b_key row buckets)))
      \<le> m + r * of_int (last (t # ts) - t) / 1000 + of_nat (length (t # ts)) * (m / 2 ^ 49)"
    using run_bucket_bound [OF row, of m r "t # ts"] assms by (simp add: row_def full_bucket_def)
  then show "of_nat (fst (run_bucket k m r (t # ts) buckets))
      \<le> m + r * of_int (last (t # ts) - t) / 1000 + of_nat (length (t # ts)) * (m / 2 ^ 49)"
    unfolding row_def by (simp only: run_bucket_fresh [OF assms(1)])
  show "m = of_nat c \<longrightarrow> c < 2 ^ 53 \<longrightarrow> fst (run_bucket k m r (replicate (Suc n) t) buckets) = min (Suc n) c"
  proof (intro impI)
    assume m: "m = of_nat c" "c < 2 ^ 53"
    have "fst (run_bucket k (of_nat c) r (replicate (Suc n) t) (replace_row b_key row buckets)) = min (Suc n) c"
      by (rule burst_exact [OF row]) (use assms(5) m in \<open>simp_all add: row_def full_bucket_def\<close>)
    then show "fst (run_bucket k m r (replicate (Suc n) t) buckets) = min (Suc n) c"
      unfolding row_def m replicate_Suc by (simp only: run_bucket_fresh [OF assms(1)])
  qed
qed

theorem token_bucket_bound_witness:
  "fst (run_bucket ''queue:mail'' 2 (1 / 2) [1000, 1000, 1000, 3000, 3000] []) \<le> 3
    \<and> fst (run_bucket ''queue:mail'' 2 (1 / 2) (replicate (Suc 4) 1000) []) = 2"
proof -
  have "of_nat (fst (run_bucket ''queue:mail'' 2 (1 / 2) (1000 # [1000, 1000, 3000, 3000]) []))
      \<le> (2 :: rat) + 1 / 2 * of_int (3000 - 1000) / 1000 + of_nat 5 * (2 / 2 ^ 49)"
    "fst (run_bucket ''queue:mail'' 2 (1 / 2) (replicate (Suc 4) 1000) []) = min (Suc 4) 2"
    using token_bucket_bound [of "''queue:mail''" "[]" 2 "1 / 2" 1000 "[1000, 1000, 3000, 3000]" 2 4]
    by (simp_all add: clock_ok_def i64_max_def)
  then have "(of_nat (fst (run_bucket ''queue:mail'' 2 (1 / 2) (1000 # [1000, 1000, 3000, 3000]) [])) :: rat) < of_nat 4"
    by simp
  then have "fst (run_bucket ''queue:mail'' 2 (1 / 2) (1000 # [1000, 1000, 3000, 3000]) []) < 4"
    by (simp only: of_nat_less_iff)
  then show ?thesis
    using \<open>fst (run_bucket ''queue:mail'' 2 (1 / 2) (replicate (Suc 4) 1000) []) = min (Suc 4) 2\<close> by simp
qed

end
