(* ===== verification/Breaker.thy ===== *)
theory Breaker
  imports Floats
begin

text \<open>
  The three-state circuit breaker of \<open>resilience/circuit_breaker.rs\<close> over the table
  \<open>circuit_breakers\<close>. An operation reads the row of its task and writes the changed row
  back; the model has no other process writing in between. The lemmas follow one row through
  any sequence of operations: an open breaker admits nothing before its cooldown, a half-open
  round admits a bounded number of probes, and the verdict of a round is characterised exactly.
\<close>

section \<open>Circuit breakers (resilience/circuit_breaker.rs, storage/sqlite/circuit_breakers.rs)\<close>

datatype circuit_state = Closed | Open | HalfOpen

fun circuit_code :: "circuit_state \<Rightarrow> int" where
  "circuit_code Closed = 0"
| "circuit_code Open = 1"
| "circuit_code HalfOpen = 2"

definition circuit_from_i32 :: "int \<Rightarrow> circuit_state" where
  "circuit_from_i32 v = (if v = 1 then Open else if v = 2 then HalfOpen else Closed)"

fun circuit_as_str :: "circuit_state \<Rightarrow> string" where
  "circuit_as_str Closed = ''closed''"
| "circuit_as_str Open = ''open''"
| "circuit_as_str HalfOpen = ''half_open''"

record breaker_config =
  bc_threshold :: int
  bc_window_ms :: int
  bc_cooldown_ms :: int
  bc_half_open_max_probes :: int
  bc_half_open_success_rate :: f64

record breaker_row =
  cb_task_name :: string
  cb_state :: int
  cb_failure_count :: int
  cb_last_failure_at :: "int option"
  cb_opened_at :: "int option"
  cb_half_open_at :: "int option"
  cb_threshold :: int
  cb_window_ms :: int
  cb_cooldown_ms :: int
  cb_max_probes :: int
  cb_success_rate :: f64
  cb_probe_count :: int
  cb_success_count :: int
  cb_probe_failures :: int

definition get_circuit_breaker :: "string \<Rightarrow> breaker_row list \<Rightarrow> breaker_row option" where
  "get_circuit_breaker task_name breakers = find_row cb_task_name task_name breakers"

definition upsert_circuit_breaker :: "breaker_row \<Rightarrow> breaker_row list \<Rightarrow> breaker_row list" where
  "upsert_circuit_breaker row breakers = replace_row cb_task_name row breakers"

definition list_circuit_breakers :: "breaker_row list \<Rightarrow> breaker_row list" where
  "list_circuit_breakers breakers = breakers"

text \<open>
  The transitions of one row. Each operation reads the row, and either leaves it or writes
  the changed one back.
\<close>

definition unwrap_or :: "'a option \<Rightarrow> 'a \<Rightarrow> 'a" where
  "unwrap_or x def = (case x of Some v \<Rightarrow> v | None \<Rightarrow> def)"

definition reopened :: "int \<Rightarrow> breaker_row \<Rightarrow> breaker_row" where
  "reopened now row = row\<lparr>cb_state := circuit_code Open, cb_opened_at := Some now, cb_half_open_at := None,
     cb_probe_count := 0, cb_success_count := 0, cb_probe_failures := 0\<rparr>"

definition clean_closed :: "breaker_row \<Rightarrow> breaker_row" where
  "clean_closed row = row\<lparr>cb_state := circuit_code Closed, cb_failure_count := 0, cb_opened_at := None,
     cb_half_open_at := None, cb_probe_count := 0, cb_success_count := 0, cb_probe_failures := 0\<rparr>"

definition allow_row :: "int \<Rightarrow> breaker_row \<Rightarrow> bool \<times> breaker_row option" where
  "allow_row now row =
     (case circuit_from_i32 (cb_state row) of
        Closed \<Rightarrow> (True, None)
      | Open \<Rightarrow>
          if cb_cooldown_ms row \<le> saturating_sub now (unwrap_or (cb_opened_at row) 0)
          then (True, Some (row\<lparr>cb_state := circuit_code HalfOpen, cb_half_open_at := Some now,
                  cb_probe_count := 0, cb_success_count := 0, cb_probe_failures := 0\<rparr>))
          else (False, None)
      | HalfOpen \<Rightarrow>
          if cb_probe_count row < cb_max_probes row
          then (True, Some (row\<lparr>cb_probe_count := wrapping_i32 (cb_probe_count row + 1)\<rparr>))
          else if cb_cooldown_ms row \<le> saturating_sub now (unwrap_or (cb_half_open_at row) 0)
          then (False, Some (reopened now row))
          else (False, None))"

definition success_row :: "int \<Rightarrow> breaker_row \<Rightarrow> breaker_row option" where
  "success_row now row =
     (case circuit_from_i32 (cb_state row) of
        HalfOpen \<Rightarrow>
          let successes = wrapping_i32 (cb_success_count row + 1);
              total = wrapping_i32 (successes + cb_probe_failures row)
          in if cb_max_probes row \<le> total
             then if cb_success_rate row \<le> f64_div (f64_of_int successes) (f64_of_int total)
                  then Some (clean_closed row) else Some (reopened now row)
             else Some (row\<lparr>cb_success_count := successes\<rparr>)
      | st \<Rightarrow>
          if st = Closed \<and> cb_failure_count row = 0 then None else Some (clean_closed row))"

definition best_possible_rate :: "breaker_row \<Rightarrow> int \<Rightarrow> f64" where
  "best_possible_rate row remaining =
     (if 0 < cb_max_probes row
      then f64_div (f64_of_int (wrapping_i32 (cb_success_count row + remaining)))
             (f64_of_int (cb_max_probes row))
      else 0)"

definition count_failure :: "int \<Rightarrow> breaker_row \<Rightarrow> breaker_row" where
  "count_failure now row = row\<lparr>cb_failure_count := saturating_add_i32 (cb_failure_count row) 1,
     cb_last_failure_at := Some now\<rparr>"

definition failure_row :: "int \<Rightarrow> breaker_row \<Rightarrow> breaker_row" where
  "failure_row now row =
     (case circuit_from_i32 (cb_state row) of
        HalfOpen \<Rightarrow>
          let failures = wrapping_i32 (cb_probe_failures row + 1);
              total = wrapping_i32 (cb_success_count row + failures);
              remaining = wrapping_i32 (cb_max_probes row - total)
          in if cb_max_probes row \<le> total \<or> best_possible_rate row remaining < cb_success_rate row
             then reopened now (count_failure now row)
             else (count_failure now row)\<lparr>cb_probe_failures := failures\<rparr>
      | Closed \<Rightarrow>
          let failed = (case cb_last_failure_at row of
                         Some last_at \<Rightarrow>
                           if cb_window_ms row < saturating_sub now last_at then 1
                           else saturating_add_i32 (cb_failure_count row) 1
                       | None \<Rightarrow> 1)
          in if cb_threshold row \<le> failed
             then row\<lparr>cb_state := circuit_code Open, cb_failure_count := failed,
                    cb_last_failure_at := Some now, cb_opened_at := Some now, cb_half_open_at := None\<rparr>
             else row\<lparr>cb_failure_count := failed, cb_last_failure_at := Some now\<rparr>
      | Open \<Rightarrow> count_failure now row)"

definition allow :: "int \<Rightarrow> string \<Rightarrow> breaker_row list \<Rightarrow> bool \<times> breaker_row list" where
  "allow now task_name breakers =
     (case get_circuit_breaker task_name breakers of
        None \<Rightarrow> (True, breakers)
      | Some row \<Rightarrow>
          (case allow_row now row of
             (ok, None) \<Rightarrow> (ok, breakers)
           | (ok, Some updated) \<Rightarrow> (ok, upsert_circuit_breaker updated breakers)))"

definition record_success :: "int \<Rightarrow> string \<Rightarrow> breaker_row list \<Rightarrow> breaker_row list" where
  "record_success now task_name breakers =
     (case get_circuit_breaker task_name breakers of
        None \<Rightarrow> breakers
      | Some row \<Rightarrow>
          (case success_row now row of
             None \<Rightarrow> breakers
           | Some updated \<Rightarrow> upsert_circuit_breaker updated breakers))"

definition record_failure :: "int \<Rightarrow> string \<Rightarrow> breaker_row list \<Rightarrow> breaker_row list" where
  "record_failure now task_name breakers =
     (case get_circuit_breaker task_name breakers of
        None \<Rightarrow> breakers
      | Some row \<Rightarrow> upsert_circuit_breaker (failure_row now row) breakers)"

definition register_breaker :: "string \<Rightarrow> breaker_config \<Rightarrow> breaker_row list \<Rightarrow> breaker_row list" where
  "register_breaker task_name config breakers =
     (if get_circuit_breaker task_name breakers \<noteq> None then breakers
      else upsert_circuit_breaker
        \<lparr>cb_task_name = task_name, cb_state = circuit_code Closed, cb_failure_count = 0,
         cb_last_failure_at = None, cb_opened_at = None, cb_half_open_at = None,
         cb_threshold = bc_threshold config, cb_window_ms = bc_window_ms config,
         cb_cooldown_ms = bc_cooldown_ms config, cb_max_probes = bc_half_open_max_probes config,
         cb_success_rate = bc_half_open_success_rate config,
         cb_probe_count = 0, cb_success_count = 0, cb_probe_failures = 0\<rparr> breakers)"

section \<open>One row under a sequence of operations\<close>

datatype breaker_op = Allow int | Success int | Failure int

fun op_time :: "breaker_op \<Rightarrow> int" where
  "op_time (Allow t) = t"
| "op_time (Success t) = t"
| "op_time (Failure t) = t"

fun op_row :: "breaker_op \<Rightarrow> breaker_row \<Rightarrow> bool \<times> breaker_row" where
  "op_row (Allow t) row = (fst (allow_row t row), unwrap_or (snd (allow_row t row)) row)"
| "op_row (Success t) row = (False, unwrap_or (success_row t row) row)"
| "op_row (Failure t) row = (False, failure_row t row)"

fun breaker_step :: "string \<Rightarrow> breaker_op \<Rightarrow> breaker_row list \<Rightarrow> bool \<times> breaker_row list" where
  "breaker_step task (Allow t) bs = allow t task bs"
| "breaker_step task (Success t) bs = (False, record_success t task bs)"
| "breaker_step task (Failure t) bs = (False, record_failure t task bs)"

fun run_breaker :: "string \<Rightarrow> breaker_op list \<Rightarrow> breaker_row list \<Rightarrow> nat \<times> breaker_row list" where
  "run_breaker task [] bs = (0, bs)"
| "run_breaker task (op # ops) bs =
     (let (ok, bs') = breaker_step task op bs; (n, bs'') = run_breaker task ops bs'
      in (of_bool ok + n, bs''))"

fun run_row :: "breaker_op list \<Rightarrow> breaker_row \<Rightarrow> nat \<times> breaker_row" where
  "run_row [] row = (0, row)"
| "run_row (op # ops) row =
     (let (ok, row') = op_row op row; (n, row'') = run_row ops row' in (of_bool ok + n, row''))"

lemma circuit_from_code [simp]: "circuit_from_i32 (circuit_code s) = s"
  by (cases s) (simp_all add: circuit_from_i32_def)

lemma op_row_config [simp]:
  "cb_task_name (snd (op_row op row)) = cb_task_name row"
  "cb_max_probes (snd (op_row op row)) = cb_max_probes row"
  "cb_cooldown_ms (snd (op_row op row)) = cb_cooldown_ms row"
  "cb_success_rate (snd (op_row op row)) = cb_success_rate row"
  by (cases op; auto simp: allow_row_def success_row_def failure_row_def count_failure_def unwrap_or_def reopened_def
      clean_closed_def Let_def split: circuit_state.splits)+

lemma breaker_step_row:
  assumes "get_circuit_breaker task bs = Some row"
  shows "get_circuit_breaker task (snd (breaker_step task op bs)) = Some (snd (op_row op row))
    \<and> fst (breaker_step task op bs) = fst (op_row op row)"
proof -
  have name: "cb_task_name row = task"
    using assms by (auto simp: get_circuit_breaker_def dest: find_row_SomeD)
  have upd: "get_circuit_breaker task (upsert_circuit_breaker r bs) = Some r" if "cb_task_name r = task" for r
    using that by (simp add: get_circuit_breaker_def upsert_circuit_breaker_def find_row_replace)
  show ?thesis
  proof (cases op)
    case (Allow t)
    then show ?thesis
      using assms op_row_config(1) [of "Allow t" row] name
      by (cases "allow_row t row"; cases "snd (allow_row t row)") (auto simp: allow_def unwrap_or_def upd)
  next
    case (Success t)
    then show ?thesis
      using assms op_row_config(1) [of "Success t" row] name
      by (cases "success_row t row") (auto simp: record_success_def unwrap_or_def upd)
  next
    case (Failure t)
    then show ?thesis
      using assms op_row_config(1) [of "Failure t" row] name by (simp add: record_failure_def upd)
  qed
qed

text \<open>A run over the table is the run over the task's row; no other task's row changes.\<close>

lemma run_breaker_row:
  "get_circuit_breaker task bs = Some row \<Longrightarrow>
   fst (run_breaker task ops bs) = fst (run_row ops row)
   \<and> get_circuit_breaker task (snd (run_breaker task ops bs)) = Some (snd (run_row ops row))"
proof (induction ops arbitrary: bs row)
  case Nil
  then show ?case by simp
next
  case (Cons op ops)
  from breaker_step_row [OF Cons.prems, of op]
  have "get_circuit_breaker task (snd (breaker_step task op bs)) = Some (snd (op_row op row))"
    and "fst (breaker_step task op bs) = fst (op_row op row)" by simp_all
  with Cons.IH [of "snd (breaker_step task op bs)" "snd (op_row op row)"]
  show ?case by (simp add: case_prod_unfold Let_def)
qed

lemma run_row_append:
  "run_row (xs @ ys) row =
     (fst (run_row xs row) + fst (run_row ys (snd (run_row xs row))), snd (run_row ys (snd (run_row xs row))))"
  by (induction xs arbitrary: row) (simp_all add: case_prod_unfold Let_def)

section \<open>Tripping and blocking\<close>

fun within_window :: "int \<Rightarrow> int list \<Rightarrow> bool" where
  "within_window w (t # u # ts) \<longleftrightarrow> saturating_sub u t \<le> w \<and> within_window w (u # ts)"
| "within_window w _ \<longleftrightarrow> True"

lemma failures_counted:
  assumes "cb_state row = circuit_code Closed" "cb_last_failure_at row = Some t0"
    "within_window (cb_window_ms row) (t0 # ts)" "0 \<le> cb_failure_count row"
    "cb_failure_count row + int (length ts) < cb_threshold row" "cb_threshold row \<le> i32_max"
  shows "run_row (map Failure ts) row =
    (0, row\<lparr>cb_failure_count := cb_failure_count row + int (length ts), cb_last_failure_at := Some (last (t0 # ts))\<rparr>)"
  using assms
proof (induction ts arbitrary: row t0)
  case Nil
  then show ?case by (cases row) simp
next
  case (Cons t ts)
  define row1 where "row1 = row\<lparr>cb_failure_count := cb_failure_count row + 1, cb_last_failure_at := Some t\<rparr>"
  have sat: "saturating_add_i32 (cb_failure_count row) 1 = cb_failure_count row + 1"
    using Cons.prems by (simp add: saturating_add_i32_def i32_min_def i32_max_def)
  have "op_row (Failure t) row = (False, row1)"
    using Cons.prems sat by (simp add: failure_row_def row1_def Let_def del: circuit_code.simps)
  moreover have "run_row (map Failure ts) row1 =
    (0, row1\<lparr>cb_failure_count := cb_failure_count row1 + int (length ts), cb_last_failure_at := Some (last (t # ts))\<rparr>)"
    by (rule Cons.IH) (use Cons.prems in \<open>simp_all add: row1_def\<close>)
  ultimately show ?case by (simp add: row1_def)
qed

lemma open_blocks:
  assumes "cb_state row = circuit_code Open" "cb_opened_at row = Some t0"
    "\<forall>op \<in> set ops. (\<forall>t. op \<noteq> Success t) \<and> saturating_sub (op_time op) t0 < cb_cooldown_ms row"
  shows "fst (run_row ops row) = 0 \<and> cb_state (snd (run_row ops row)) = circuit_code Open
    \<and> cb_opened_at (snd (run_row ops row)) = Some t0 \<and> cb_cooldown_ms (snd (run_row ops row)) = cb_cooldown_ms row"
  using assms
proof (induction ops arbitrary: row)
  case Nil
  then show ?case by simp
next
  case (Cons op ops)
  have op: "\<not> fst (op_row op row)" "cb_state (snd (op_row op row)) = circuit_code Open"
    "cb_opened_at (snd (op_row op row)) = Some t0"
    using Cons.prems
    by (cases op; simp add: allow_row_def failure_row_def count_failure_def unwrap_or_def del: circuit_code.simps)+
  have "fst (run_row ops (snd (op_row op row))) = 0
    \<and> cb_state (snd (run_row ops (snd (op_row op row)))) = circuit_code Open
    \<and> cb_opened_at (snd (run_row ops (snd (op_row op row)))) = Some t0
    \<and> cb_cooldown_ms (snd (run_row ops (snd (op_row op row)))) = cb_cooldown_ms (snd (op_row op row))"
    by (rule Cons.IH) (use op Cons.prems(3) in simp_all)
  with op show ?case by (simp add: case_prod_unfold Let_def del: circuit_code.simps)
qed

lemma first_failure:
  assumes "cb_state row = circuit_code Closed" "cb_failure_count row = 0"
  shows "failure_row t row =
    (if cb_threshold row \<le> 1
     then row\<lparr>cb_state := circuit_code Open, cb_failure_count := 1, cb_last_failure_at := Some t,
            cb_opened_at := Some t, cb_half_open_at := None\<rparr>
     else row\<lparr>cb_failure_count := 1, cb_last_failure_at := Some t\<rparr>)"
  using assms by (auto simp: failure_row_def Let_def saturating_add_i32_def i32_min_def i32_max_def
      simp del: circuit_code.simps split: option.splits)

lemma within_window_snoc:
  "within_window w (ts @ [t]) \<Longrightarrow> within_window w ts"
  "within_window w (ts @ [t]) \<Longrightarrow> ts \<noteq> [] \<Longrightarrow> saturating_sub t (last ts) \<le> w"
  by (induction w ts rule: within_window.induct) auto

lemma trips_at_threshold:
  assumes "cb_state row = circuit_code Closed" "cb_failure_count row = 0"
    "within_window (cb_window_ms row) (us @ [t])" "int (length (us @ [t])) = cb_threshold row"
    "cb_threshold row \<le> i32_max"
  obtains row1 row2 where "run_row (map Failure us) row = (0, row1)" "cb_state row1 = circuit_code Closed"
    "op_row (Failure t) row1 = (False, row2)" "cb_state row2 = circuit_code Open"
    "cb_opened_at row2 = Some t" "cb_cooldown_ms row2 = cb_cooldown_ms row"
proof (cases us)
  case Nil
  then show thesis
    using assms by (intro that [of row "failure_row t row"]) (simp_all add: first_failure del: circuit_code.simps)
next
  case (Cons u vs)
  define rowa where "rowa = row\<lparr>cb_failure_count := 1, cb_last_failure_at := Some u\<rparr>"
  define rowb where "rowb = rowa\<lparr>cb_failure_count := cb_failure_count rowa + int (length vs),
    cb_last_failure_at := Some (last (u # vs))\<rparr>"
  have fst_step: "op_row (Failure u) row = (False, rowa)"
    using assms Cons by (simp add: first_failure rowa_def del: circuit_code.simps)
  have "run_row (map Failure vs) rowa = (0, rowb)"
    unfolding rowb_def
    by (rule failures_counted) (use assms Cons within_window_snoc(1) [of _ us t] in \<open>simp_all add: rowa_def\<close>)
  then have run: "run_row (map Failure us) row = (0, rowb)"
    using fst_step by (simp add: Cons)
  have "saturating_sub t (last us) \<le> cb_window_ms row"
    using within_window_snoc(2) [OF assms(3)] Cons by simp
  moreover have "saturating_add_i32 (cb_failure_count rowb) 1 = cb_threshold row"
    using assms(4,5) Cons by (simp add: rowb_def rowa_def saturating_add_i32_def i32_min_def i32_max_def)
  ultimately have "failure_row t rowb = rowb\<lparr>cb_state := circuit_code Open, cb_failure_count := cb_threshold row,
      cb_last_failure_at := Some t, cb_opened_at := Some t, cb_half_open_at := None\<rparr>"
    using assms(1) Cons
    by (simp add: failure_row_def Let_def rowb_def rowa_def del: circuit_code.simps)
  then show thesis
    using run assms(1) by (intro that [of rowb "failure_row t rowb"]) (simp_all add: rowb_def rowa_def)
qed


definition sample_config :: breaker_config where
  "sample_config = \<lparr>bc_threshold = 2, bc_window_ms = 1000, bc_cooldown_ms = 5000,
     bc_half_open_max_probes = 5, bc_half_open_success_rate = fl (8 / 10)\<rparr>"


section \<open>The verdict of a half-open round\<close>

text \<open>Outcomes are recorded while the breaker stays half-open; the first one that moves it ends the round.\<close>

fun record_outcome :: "int \<times> bool \<Rightarrow> breaker_row \<Rightarrow> breaker_row" where
  "record_outcome (t, ok) row = snd (op_row (if ok then Success t else Failure t) row)"

fun run_round :: "(int \<times> bool) list \<Rightarrow> breaker_row \<Rightarrow> breaker_row" where
  "run_round [] row = row"
| "run_round (out # outs) row =
     (if circuit_from_i32 (cb_state row) = HalfOpen then run_round outs (record_outcome out row) else row)"

definition round_open :: "breaker_row \<Rightarrow> nat \<Rightarrow> bool" where
  "round_open row left \<longleftrightarrow>
     cb_state row = circuit_code HalfOpen \<and> 0 \<le> cb_success_count row \<and> 0 \<le> cb_probe_failures row
     \<and> cb_success_count row + cb_probe_failures row + int left = cb_max_probes row
     \<and> cb_max_probes row \<le> i32_max"

abbreviation success_ratio :: "int \<Rightarrow> int \<Rightarrow> f64" where
  "success_ratio successes n \<equiv> f64_div (f64_of_int successes) (f64_of_int n)"

lemma success_ratio_mono: "0 < n \<Longrightarrow> n \<le> i32_max \<Longrightarrow> a \<le> b \<Longrightarrow> success_ratio a n \<le> success_ratio b n"
  using f64_of_int_exact [of n] f64_of_int_mono [of a b]
  by (auto simp: f64_div_def i32_max_def intro!: fl_mono divide_right_mono)

lemma wrapping_i32_small: "0 \<le> x \<Longrightarrow> x \<le> i32_max \<Longrightarrow> wrapping_i32 x = x"
  by (rule wrapping_i32_id) (simp_all add: i32_min_def)

lemma round_success:
  assumes "round_open row (Suc left)"
  shows "record_outcome (t, True) row =
    (if left = 0
     then if cb_success_rate row \<le> success_ratio (cb_success_count row + 1) (cb_max_probes row)
          then clean_closed row else reopened t row
     else row\<lparr>cb_success_count := cb_success_count row + 1\<rparr>)"
proof -
  have w: "wrapping_i32 (cb_success_count row + 1) = cb_success_count row + 1"
    "wrapping_i32 (cb_success_count row + 1 + cb_probe_failures row) = cb_max_probes row - int left"
    using assms by (auto simp: round_open_def intro: trans [OF wrapping_i32_small])
  show ?thesis
    using assms unfolding record_outcome.simps if_True op_row.simps success_row_def
    by (auto simp: round_open_def unwrap_or_def Let_def w simp del: circuit_code.simps)
qed

lemma round_failure:
  assumes "round_open row (Suc left)"
  shows "record_outcome (t, False) row =
    (if left = 0 \<or> success_ratio (cb_success_count row + int left) (cb_max_probes row) < cb_success_rate row
     then reopened t (count_failure t row)
     else (count_failure t row)\<lparr>cb_probe_failures := cb_probe_failures row + 1\<rparr>)"
proof -
  have w: "wrapping_i32 (cb_probe_failures row + 1) = cb_probe_failures row + 1"
    "wrapping_i32 (cb_success_count row + (cb_probe_failures row + 1)) = cb_max_probes row - int left"
    "wrapping_i32 (int left) = int left"
    "wrapping_i32 (cb_success_count row + int left) = cb_success_count row + int left"
    using assms(1) by (auto simp: round_open_def intro: trans [OF wrapping_i32_small])
  show ?thesis
    using assms(1) unfolding record_outcome.simps if_False op_row.simps failure_row_def
    by (auto simp: round_open_def Let_def w best_possible_rate_def simp del: circuit_code.simps)
qed

definition verdict :: "breaker_row \<Rightarrow> (int \<times> bool) list \<Rightarrow> circuit_state" where
  "verdict row outs =
     (if snd (last outs)
         \<and> cb_success_rate row
           \<le> success_ratio (cb_success_count row + int (length (filter snd outs))) (cb_max_probes row)
      then Closed else Open)"

lemma run_round_left [simp]:
  "cb_state row = circuit_code Open \<or> cb_state row = circuit_code Closed \<Longrightarrow> run_round outs row = row"
  by (cases outs) (auto simp: circuit_from_i32_def)

lemma run_round_verdict:
  "round_open row (length outs) \<Longrightarrow> outs \<noteq> [] \<Longrightarrow> cb_state (run_round outs row) = circuit_code (verdict row outs)"
proof (induction outs arbitrary: row)
  case Nil
  then show ?case by simp
next
  case (Cons out outs)
  obtain t ok where out: "out = (t, ok)" by fastforce
  have ro: "round_open row (Suc (length outs))" using Cons.prems(1) by simp
  then have half: "circuit_from_i32 (cb_state row) = HalfOpen" by (simp add: round_open_def del: circuit_code.simps)
  then have step: "run_round (out # outs) row = run_round outs (record_outcome out row)" by simp
  have pos: "0 < cb_max_probes row" "cb_max_probes row \<le> i32_max" using ro by (auto simp: round_open_def)
  show ?case
  proof (cases "outs = []")
    case True
    then show ?thesis unfolding step using ro
      by (cases ok) (auto simp: out round_success round_failure verdict_def clean_closed_def reopened_def
          simp del: circuit_code.simps record_outcome.simps)
  next
    case False
    show ?thesis
    proof (cases ok)
      case True
      define row1 where "row1 = row\<lparr>cb_success_count := cb_success_count row + 1\<rparr>"
      have "record_outcome out row = row1"
        using round_success [OF ro, of t] False True by (simp add: out row1_def del: record_outcome.simps)
      moreover have "round_open row1 (length outs)" using ro by (simp add: round_open_def row1_def)
      moreover have "verdict row1 outs = verdict row (out # outs)"
        using False True by (simp add: verdict_def row1_def out add.assoc)
      ultimately show ?thesis unfolding step using Cons.IH [of row1] False by simp
    next
      case failed: False
      let ?best = "success_ratio (cb_success_count row + int (length outs)) (cb_max_probes row)"
      let ?final = "success_ratio (cb_success_count row + int (length (filter snd outs))) (cb_max_probes row)"
      define row0 where "row0 = count_failure t row"
      show ?thesis
      proof (cases "?best < cb_success_rate row")
        case True
        have "?final \<le> ?best" by (rule success_ratio_mono [OF pos]) simp
        then have "verdict row (out # outs) = Open" using True failed False by (auto simp: verdict_def out)
        moreover have "record_outcome out row = reopened t row0"
          using round_failure [OF ro, of t] failed True by (simp add: out row0_def del: record_outcome.simps)
        ultimately show ?thesis unfolding step by (simp add: reopened_def del: circuit_code.simps)
      next
        case feasible: False
        define row1 where "row1 = row0\<lparr>cb_probe_failures := cb_probe_failures row + 1\<rparr>"
        have "record_outcome out row = row1"
          using round_failure [OF ro, of t] failed feasible False
          by (simp add: out row0_def row1_def del: record_outcome.simps)
        moreover have "round_open row1 (length outs)" using ro by (simp add: round_open_def row1_def row0_def count_failure_def)
        moreover have "verdict row1 outs = verdict row (out # outs)"
          using False failed by (simp add: verdict_def row1_def row0_def out count_failure_def)
        ultimately show ?thesis unfolding step using Cons.IH [of row1] False by simp
      qed
    qed
  qed
qed

text \<open>
  C34: the verdict of a half-open round. Once as many outcomes as the configured number of probes
  have been recorded since the round began, the breaker has left the half-open state, and it has
  closed exactly when the measured success rate meets the required one and the last outcome was a
  success; in every other case it is open again. The order of the outcomes therefore matters: with
  five probes and a required rate of four in five, one failure followed by four successes closes
  the breaker, while four successes followed by one failure open it again. Opening early, as soon as the rate can no longer
  be met, never changes that verdict.
\<close>

theorem half_open_verdict:
  assumes "cb_state row = circuit_code HalfOpen" "cb_success_count row = 0" "cb_probe_failures row = 0"
    "0 < cb_max_probes row" "cb_max_probes row \<le> i32_max" "length outs = nat (cb_max_probes row)"
  shows "circuit_from_i32 (cb_state (run_round outs row)) =
    (if snd (last outs)
        \<and> cb_success_rate row \<le> success_ratio (int (length (filter snd outs))) (cb_max_probes row)
     then Closed else Open)"
proof -
  have "outs \<noteq> []" using assms(4,6) by auto
  moreover have "round_open row (length outs)" using assms by (simp add: round_open_def)
  ultimately have "cb_state (run_round outs row) = circuit_code (verdict row outs)"
    by (intro run_round_verdict)
  then show ?thesis using assms(2) by (simp add: verdict_def)
qed

definition half_open_sample :: breaker_row where
  "half_open_sample = \<lparr>cb_task_name = ''pay'', cb_state = 2, cb_failure_count = 2, cb_last_failure_at = Some 900,
     cb_opened_at = Some 900, cb_half_open_at = Some 5900, cb_threshold = 2, cb_window_ms = 1000,
     cb_cooldown_ms = 5000, cb_max_probes = 5, cb_success_rate = success_ratio 4 5,
     cb_probe_count = 0, cb_success_count = 0, cb_probe_failures = 0\<rparr>"

theorem half_open_verdict_witness:
  "circuit_from_i32 (cb_state (run_round [(1, False), (2, True), (3, True), (4, True), (5, True)] half_open_sample)) = Closed
   \<and> circuit_from_i32 (cb_state (run_round [(1, True), (2, True), (3, True), (4, True), (5, False)] half_open_sample)) = Open"
  using half_open_verdict [of half_open_sample "[(1, False), (2, True), (3, True), (4, True), (5, True)]"]
    half_open_verdict [of half_open_sample "[(1, True), (2, True), (3, True), (4, True), (5, False)]"]
  by (simp add: half_open_sample_def i32_max_def del: run_round.simps)

text \<open>
  A success reported while the breaker is open closes it at once. A probe of the last round that
  finishes late therefore ends the cooldown.
\<close>

lemma late_success_ends_cooldown:
  assumes "get_circuit_breaker task bs = Some row" "cb_state row = circuit_code Open"
  shows "fst (allow t task (record_success t task bs))"
proof -
  have "cb_state (snd (op_row (Success t) row)) = circuit_code Closed"
    using assms(2) by (simp add: success_row_def unwrap_or_def clean_closed_def circuit_from_i32_def)
  then have "fst (op_row (Allow t) (snd (op_row (Success t) row)))"
    by (simp add: allow_row_def circuit_from_i32_def)
  then show ?thesis
    using breaker_step_row [OF assms(1), of "Success t"]
      breaker_step_row [of task "record_success t task bs" "snd (op_row (Success t) row)" "Allow t"] by simp
qed

section \<open>How much a half-open round admits\<close>

fun admitted_in_round :: "breaker_op list \<Rightarrow> breaker_row \<Rightarrow> nat" where
  "admitted_in_round [] row = 0"
| "admitted_in_round (op # ops) row =
     (if circuit_from_i32 (cb_state row) = HalfOpen
      then of_bool (fst (op_row op row)) + admitted_in_round ops (snd (op_row op row)) else 0)"

lemma probe_counted:
  assumes "circuit_from_i32 (cb_state row) = HalfOpen" "0 \<le> cb_probe_count row" "cb_max_probes row \<le> i32_max"
    "circuit_from_i32 (cb_state (snd (op_row op row))) = HalfOpen"
  shows "cb_probe_count (snd (op_row op row)) = cb_probe_count row + of_bool (fst (op_row op row))
    \<and> (fst (op_row op row) \<longrightarrow> cb_probe_count row < cb_max_probes row)"
proof (cases op)
  case (Allow t)
  have "cb_probe_count row < cb_max_probes row \<Longrightarrow> wrapping_i32 (cb_probe_count row + 1) = cb_probe_count row + 1"
    using assms(2,3) by (intro wrapping_i32_small) simp_all
  then show ?thesis
    using assms(1,4) by (auto simp: Allow allow_row_def unwrap_or_def reopened_def circuit_from_i32_def)
next
  case (Success t)
  then show ?thesis
    using assms(1,4)
    by (auto simp: success_row_def unwrap_or_def reopened_def clean_closed_def circuit_from_i32_def Let_def split: if_splits)
next
  case (Failure t)
  then show ?thesis
    using assms(1,4)
    by (auto simp: failure_row_def reopened_def count_failure_def circuit_from_i32_def Let_def split: if_splits)
qed

lemma admitted_not_half: "circuit_from_i32 (cb_state row) \<noteq> HalfOpen \<Longrightarrow> admitted_in_round ops row = 0"
  by (cases ops) auto

lemma admitted_bound:
  assumes "0 \<le> cb_probe_count row" "cb_probe_count row \<le> max 0 (cb_max_probes row)" "cb_max_probes row \<le> i32_max"
  shows "int (admitted_in_round ops row) \<le> max 0 (cb_max_probes row) - cb_probe_count row"
  using assms
proof (induction ops arbitrary: row)
  case Nil
  then show ?case by simp
next
  case (Cons op ops)
  define row1 where "row1 = snd (op_row op row)"
  show ?case
  proof (cases "circuit_from_i32 (cb_state row) = HalfOpen")
    case False
    then show ?thesis using Cons.prems by simp
  next
    case half: True
    show ?thesis
    proof (cases "circuit_from_i32 (cb_state row1) = HalfOpen")
      case True
      have c: "cb_probe_count row1 = cb_probe_count row + of_bool (fst (op_row op row))"
        "fst (op_row op row) \<longrightarrow> cb_probe_count row < cb_max_probes row"
        using probe_counted [OF half Cons.prems(1,3), of op] True by (simp_all add: row1_def)
      have "int (admitted_in_round ops row1) \<le> max 0 (cb_max_probes row1) - cb_probe_count row1"
        by (rule Cons.IH) (use c Cons.prems in \<open>auto simp: row1_def\<close>)
      then show ?thesis using half c by (auto simp: row1_def)
    next
      case False
      have "fst (op_row op row) \<Longrightarrow> circuit_from_i32 (cb_state row1) = HalfOpen"
        using half by (cases op) (auto simp: row1_def allow_row_def unwrap_or_def split: if_splits)
      then have "\<not> fst (op_row op row)" using False by blast
      then show ?thesis using False half Cons.prems by (simp add: row1_def admitted_not_half)
    qed
  qed
qed

lemma admitted_all:
  "circuit_from_i32 (cb_state row) = HalfOpen \<Longrightarrow> 0 \<le> cb_probe_count row \<Longrightarrow>
   cb_probe_count row + int n \<le> cb_max_probes row \<Longrightarrow> cb_max_probes row \<le> i32_max \<Longrightarrow>
   admitted_in_round (replicate n (Allow t)) row = n"
proof (induction n arbitrary: row)
  case 0
  then show ?case by simp
next
  case (Suc n)
  define row1 where "row1 = row\<lparr>cb_probe_count := cb_probe_count row + 1\<rparr>"
  have "op_row (Allow t) row = (True, row1)"
    using Suc.prems by (simp add: allow_row_def unwrap_or_def row1_def wrapping_i32_small)
  moreover have "admitted_in_round (replicate n (Allow t)) row1 = n"
    by (rule Suc.IH) (use Suc.prems in \<open>simp_all add: row1_def\<close>)
  ultimately show ?case using Suc.prems(1) by simp
qed

text \<open>
  A half-open round is bounded. When a request finds the cooldown of an open breaker over, it
  is admitted and starts the round; however requests and outcomes are interleaved after it, the
  round admits at most the configured number of probes more, and it does admit that many when
  nothing has been reported yet. The request that starts the round is not counted as a probe.
\<close>

lemma half_open_probe_bound:
  assumes "get_circuit_breaker task bs = Some row" "cb_state row = circuit_code Open"
    "cb_opened_at row = Some t0" "cb_cooldown_ms row \<le> saturating_sub t t0"
    "0 \<le> cb_max_probes row" "cb_max_probes row \<le> i32_max"
  shows "fst (allow t task bs)
    \<and> (\<exists>row1. get_circuit_breaker task (snd (allow t task bs)) = Some row1
         \<and> cb_state row1 = circuit_code HalfOpen \<and> cb_max_probes row1 = cb_max_probes row
         \<and> int (admitted_in_round ops row1) \<le> cb_max_probes row
         \<and> admitted_in_round (replicate (nat (cb_max_probes row)) (Allow t)) row1 = nat (cb_max_probes row))"
proof -
  define row1 where "row1 = row\<lparr>cb_state := circuit_code HalfOpen, cb_half_open_at := Some t,
    cb_probe_count := 0, cb_success_count := 0, cb_probe_failures := 0\<rparr>"
  have "op_row (Allow t) row = (True, row1)"
    using assms(2-4) by (simp add: allow_row_def unwrap_or_def row1_def circuit_from_i32_def)
  then have "fst (allow t task bs)" "get_circuit_breaker task (snd (allow t task bs)) = Some row1"
    using breaker_step_row [OF assms(1), of "Allow t"] by simp_all
  moreover have "int (admitted_in_round ops row1) \<le> cb_max_probes row"
    using admitted_bound [of row1 ops] assms(5,6) by (simp add: row1_def)
  moreover have "admitted_in_round (replicate (nat (cb_max_probes row)) (Allow t)) row1 = nat (cb_max_probes row)"
    by (rule admitted_all) (use assms(5,6) in \<open>simp_all add: row1_def circuit_from_i32_def\<close>)
  ultimately show ?thesis by (auto simp: row1_def)
qed

end
