(* ===== verification/Shedding.thy ===== *)
theory Shedding
  imports Floats
begin

text \<open>
  The load shedder: the CoDel controller of \<open>scheduler/codel.rs\<close> and the vocabulary of
  \<open>scheduler/shed.rs\<close>. The lemmas show that a job is shed only after the queue's sojourn
  has stayed above target for a whole interval, and that drops are spaced out in time.
\<close>

section \<open>Load shedding (scheduler/codel.rs, scheduler/shed.rs)\<close>

record codel_config =
  cd_target_ms :: int
  cd_interval_ms :: int

text \<open>\<open>count\<close> is a \<open>u32\<close>.\<close>

record codel_state =
  cs_first_above_time :: int
  cs_drop_next :: int
  cs_count :: nat
  cs_dropping :: bool

definition codel_default :: codel_state where
  "codel_default = \<lparr>cs_first_above_time = 0, cs_drop_next = 0, cs_count = 0, cs_dropping = False\<rparr>"

definition u32_max :: nat where
  "u32_max = 2 ^ 32 - 1"

definition control_law :: "int \<Rightarrow> codel_config \<Rightarrow> nat \<Rightarrow> int" where
  "control_law now cfg drops =
     (let spacing = i64_of_f64 (f64_div (f64_of_int (cd_interval_ms cfg))
                                  (f64_sqrt (f64_of_int (int (max drops 1)))))
      in saturating_add now (max spacing 1))"

definition should_drop :: "int \<Rightarrow> int \<Rightarrow> codel_config \<Rightarrow> codel_state \<Rightarrow> bool \<times> codel_state" where
  "should_drop sojourn_ms now cfg s =
     (if sojourn_ms < cd_target_ms cfg
      then (False, s\<lparr>cs_first_above_time := 0, cs_dropping := False\<rparr>)
      else if cs_first_above_time s = 0
      then (False, s\<lparr>cs_first_above_time := saturating_add now (cd_interval_ms cfg)\<rparr>)
      else if now < cs_first_above_time s
      then (False, s)
      else if \<not> cs_dropping s
      then let drops = (if 2 < cs_count s
                          \<and> saturating_sub now (cs_drop_next s) < wrapping_i64 (8 * cd_interval_ms cfg)
                        then cs_count s - 2 else 1)
           in (True, s\<lparr>cs_dropping := True, cs_count := drops, cs_drop_next := control_law now cfg drops\<rparr>)
      else if cs_drop_next s \<le> now
      then let drops = min (cs_count s + 1) u32_max
           in (True, s\<lparr>cs_count := drops, cs_drop_next := control_law now cfg drops\<rparr>)
      else (False, s))"

datatype on_excess = Defer | Drop

definition on_excess_parse :: "string \<Rightarrow> on_excess option" where
  "on_excess_parse spec =
     (if spec = ''defer'' then Some Defer else if spec = ''drop'' then Some Drop else None)"

fun on_excess_str :: "on_excess \<Rightarrow> string" where
  "on_excess_str Defer = ''defer''"
| "on_excess_str Drop = ''drop''"

definition CODEL_REASON_PREFIX :: string where
  "CODEL_REASON_PREFIX = ''codel:''"

definition RATE_LIMIT_REASON_PREFIX :: string where
  "RATE_LIMIT_REASON_PREFIX = ''rate_limit:''"

definition RATE_LIMIT_SHED_METADATA :: string where
  "RATE_LIMIT_SHED_METADATA = ''{'' @ [CHR 0x22] @ ''shed'' @ [CHR 0x22] @ '':'' @ [CHR 0x22] @ ''rate_limit'' @ [CHR 0x22] @ ''}''"

definition starts_with :: "string \<Rightarrow> string \<Rightarrow> bool" where
  "starts_with s p \<longleftrightarrow> take (length p) s = p"

definition is_shed_reason :: "string option \<Rightarrow> bool" where
  "is_shed_reason error =
     (case error of
        None \<Rightarrow> False
      | Some e \<Rightarrow> starts_with e CODEL_REASON_PREFIX \<or> starts_with e RATE_LIMIT_REASON_PREFIX)"

definition rate_limit_shed_reason :: "string \<Rightarrow> string" where
  "rate_limit_shed_reason scope =
     RATE_LIMIT_REASON_PREFIX @ '' '' @ scope @ '' is over its dispatch rate limit, and its on_excess is drop''"

section \<open>A run of the controller\<close>

text \<open>The candidates of one queue in dequeue order: the sojourn and the clock reading of each.\<close>

fun run_codel :: "codel_config \<Rightarrow> (int \<times> int) list \<Rightarrow> codel_state \<Rightarrow> bool list \<times> codel_state" where
  "run_codel cfg [] s = ([], s)"
| "run_codel cfg ((sojourn, now) # cs) s =
     (let (d, s') = should_drop sojourn now cfg s; (ds, s'') = run_codel cfg cs s' in (d # ds, s''))"

lemma run_codel_append:
  "run_codel cfg (xs @ ys) s =
     (fst (run_codel cfg xs s) @ fst (run_codel cfg ys (snd (run_codel cfg xs s))),
      snd (run_codel cfg ys (snd (run_codel cfg xs s))))"
  by (induction xs arbitrary: s) (simp_all add: split_paired_all case_prod_unfold Let_def)

lemma length_run_codel [simp]: "length (fst (run_codel cfg cs s)) = length cs"
  by (induction cs arbitrary: s) (simp_all add: split_paired_all case_prod_unfold Let_def)

lemma control_law_range:
  assumes "0 < cd_interval_ms cfg" "cd_interval_ms cfg < 2 ^ 53" "now + cd_interval_ms cfg \<le> i64_max" "0 \<le> now" "n \<le> u32_max"
  shows "now < control_law now cfg n \<and> control_law now cfg n \<le> now + cd_interval_ms cfg"
proof -
  let ?c = "f64_of_int (int (max n 1))"
  define sp where "sp = i64_of_f64 (f64_div (f64_of_int (cd_interval_ms cfg)) (f64_sqrt ?c))"
  have "int (max n 1) < 2 ^ 53" using assms(5) unfolding u32_max_def by simp
  then have "?c = of_int (int (max n 1))" by (intro f64_of_int_exact) simp
  then have "1 \<le> ?c" by simp
  then have sq: "1 \<le> f64_sqrt ?c" by (rule f64_sqrt_ge_1)
  have "of_int (cd_interval_ms cfg) / f64_sqrt ?c \<le> of_int (cd_interval_ms cfg)"
    using sq assms(1) by (simp add: divide_le_eq mult_le_cancel_left1)
  then have "f64_div (f64_of_int (cd_interval_ms cfg)) (f64_sqrt ?c) \<le> of_int (cd_interval_ms cfg)"
    using fl_mono fl_of_int [of "cd_interval_ms cfg"] assms(1,2)
    by (metis abs_of_pos f64_div_def f64_of_int_exact)
  moreover have "0 \<le> f64_div (f64_of_int (cd_interval_ms cfg)) (f64_sqrt ?c)"
    using sq assms(1,2) by (simp add: f64_div_def)
  ultimately have "sp \<le> cd_interval_ms cfg"
    using assms(1,3,4) by (auto simp: sp_def i64_of_f64_def sat_i64_def floor_le_iff i64_min_def i64_max_def)
  then have "is_i64 (now + max sp 1)" "max sp 1 \<le> cd_interval_ms cfg"
    using assms(1,3,4) by (auto simp: is_i64_def i64_min_def)
  then show ?thesis unfolding control_law_def Let_def sp_def [symmetric] by (simp add: saturating_add_exact)
qed

lemma should_drop_count: "cs_count s \<le> u32_max \<Longrightarrow> cs_count (snd (should_drop sj now cfg s)) \<le> u32_max"
  by (auto simp: should_drop_def Let_def u32_max_def)

section \<open>Shedding means sustained overload\<close>

definition armed_by :: "codel_config \<Rightarrow> (int \<times> int) list \<Rightarrow> int \<Rightarrow> bool" where
  "armed_by cfg cs first_above \<longleftrightarrow>
     (\<exists>j < length cs. first_above = snd (cs ! j) + cd_interval_ms cfg
        \<and> (\<forall>k \<in> {j..<length cs}. cd_target_ms cfg \<le> fst (cs ! k)))"

definition tuned :: "codel_config \<Rightarrow> int list \<Rightarrow> bool" where
  "tuned cfg ts \<longleftrightarrow>
     0 < cd_interval_ms cfg \<and> cd_interval_ms cfg < 2 ^ 53 \<and> sorted ts
     \<and> (\<forall>t \<in> set ts. 0 \<le> t \<and> t + cd_interval_ms cfg \<le> i64_max)"

lemma armed_by_snoc:
  "armed_by cfg cs fa \<Longrightarrow> cd_target_ms cfg \<le> fst c \<Longrightarrow> armed_by cfg (cs @ [c]) fa"
  unfolding armed_by_def by (elim exE conjE) (auto simp: nth_append less_Suc_eq intro: exI [of _ _])

lemma armed_here:
  "cd_target_ms cfg \<le> fst c \<Longrightarrow> armed_by cfg (cs @ [c]) (snd c + cd_interval_ms cfg)"
  unfolding armed_by_def by (intro exI [of _ "length cs"]) auto

lemma arm_exact: "0 \<le> t \<Longrightarrow> 0 < i \<Longrightarrow> t + i \<le> i64_max \<Longrightarrow> saturating_add t i = t + i"
  by (simp add: saturating_add_exact is_i64_def i64_min_def)

lemma run_codel_armed:
  assumes "tuned cfg (map snd cs)"
  shows "cs_first_above_time (snd (run_codel cfg cs codel_default)) = 0
    \<or> armed_by cfg cs (cs_first_above_time (snd (run_codel cfg cs codel_default)))"
  using assms
proof (induction cs rule: rev_induct)
  case Nil
  then show ?case by (simp add: codel_default_def)
next
  case (snoc c cs)
  obtain sj t where c: "c = (sj, t)" by fastforce
  define s where "s = snd (run_codel cfg cs codel_default)"
  have "tuned cfg (map snd cs)" using snoc.prems by (auto simp: tuned_def sorted_append)
  then have ih: "cs_first_above_time s = 0 \<or> armed_by cfg cs (cs_first_above_time s)"
    using snoc.IH by (simp add: s_def)
  have arm: "saturating_add t (cd_interval_ms cfg) = t + cd_interval_ms cfg"
    using snoc.prems by (intro arm_exact) (auto simp: tuned_def c)
  have "snd (run_codel cfg (cs @ [c]) codel_default) = snd (should_drop sj t cfg s)"
    by (simp add: run_codel_append s_def c case_prod_unfold Let_def)
  then show ?case
    using ih armed_by_snoc [of cfg cs "cs_first_above_time s" c] armed_here [of cfg c cs]
    by (auto simp: should_drop_def Let_def c arm)
qed

lemma drop_is_sustained:
  assumes "tuned cfg (map snd (cs @ [(sj, t)]))"
    "fst (should_drop sj t cfg (snd (run_codel cfg cs codel_default)))"
  shows "\<exists>j < length cs. snd (cs ! j) + cd_interval_ms cfg \<le> t
    \<and> (\<forall>k \<in> {j..length cs}. cd_target_ms cfg \<le> fst ((cs @ [(sj, t)]) ! k))"
proof -
  define s where "s = snd (run_codel cfg cs codel_default)"
  have "tuned cfg (map snd cs)" using assms(1) by (auto simp: tuned_def sorted_append)
  moreover have d: "cs_first_above_time s \<noteq> 0" "cs_first_above_time s \<le> t" "cd_target_ms cfg \<le> sj"
    using assms(2) by (auto simp: s_def [symmetric] should_drop_def Let_def split: if_splits)
  ultimately have "armed_by cfg cs (cs_first_above_time s)" using run_codel_armed [of cfg cs] by (simp add: s_def)
  then show ?thesis using d unfolding armed_by_def by (auto simp: nth_append)
qed

section \<open>Drops are spaced out\<close>

definition spaced :: "codel_state \<Rightarrow> int \<Rightarrow> bool" where
  "spaced s last_drop \<longleftrightarrow>
     cs_count s \<le> u32_max
     \<and> (cs_dropping s \<longrightarrow> last_drop < cs_drop_next s)
     \<and> (\<not> cs_dropping s \<longrightarrow> cs_first_above_time s = 0 \<or> last_drop < cs_first_above_time s)"

lemma spaced_step:
  assumes "spaced s l" "l \<le> t" "0 < cd_interval_ms cfg" "cd_interval_ms cfg < 2 ^ 53" "0 \<le> t"
    "t + cd_interval_ms cfg \<le> i64_max" "should_drop sj t cfg s = (d, s')"
  shows "spaced s' (if d then t else l) \<and> (d \<longrightarrow> l < t)"
proof -
  have law: "n \<le> u32_max \<Longrightarrow> t < control_law t cfg n" for n
    using control_law_range [of cfg t n] assms by auto
  have arm: "saturating_add t (cd_interval_ms cfg) = t + cd_interval_ms cfg"
    using assms(3,5,6) by (intro arm_exact) auto
  have cnt: "cs_count s' \<le> u32_max"
    using should_drop_count [of s sj t cfg] assms(1,7) by (simp add: spaced_def)
  show ?thesis
    using assms(1,2,3,7) cnt law arm unfolding spaced_def should_drop_def Let_def
    by (auto split: if_splits simp: u32_max_def)
qed

fun drop_times :: "(int \<times> int) list \<Rightarrow> bool list \<Rightarrow> int list" where
  "drop_times (c # cs) (d # ds) = (if d then [snd c] else []) @ drop_times cs ds"
| "drop_times _ _ = []"

lemma drop_times_spaced:
  assumes "spaced s l" "tuned cfg (l # map snd cs)"
  shows "sorted_wrt (<) (l # drop_times cs (fst (run_codel cfg cs s)))"
  using assms
proof (induction cs arbitrary: s l)
  case Nil
  then show ?case by simp
next
  case (Cons c cs)
  obtain sj t where c: "c = (sj, t)" by fastforce
  obtain d s' where step: "should_drop sj t cfg s = (d, s')" by fastforce
  have inv: "spaced s' (if d then t else l)" "d \<longrightarrow> l < t"
    using spaced_step [OF Cons.prems(1) _ _ _ _ _ step] Cons.prems(2) by (auto simp: tuned_def c)
  have "tuned cfg ((if d then t else l) # map snd cs)" using Cons.prems(2) by (auto simp: tuned_def c)
  from Cons.IH [OF inv(1) this]
  have "sorted_wrt (<) ((if d then t else l) # drop_times cs (fst (run_codel cfg cs s')))" .
  then show ?case using inv(2) step by (auto simp: c case_prod_unfold Let_def)
qed



text \<open>Every reason the shedders write is recognized, and the wire spelling round-trips.\<close>

lemma shed_reasons_recognized: "is_shed_reason (Some (rate_limit_shed_reason scope))"
  by (simp add: is_shed_reason_def rate_limit_shed_reason_def starts_with_def)

lemma on_excess_roundtrip: "on_excess_parse (on_excess_str x) = Some x"
  by (cases x) (simp_all add: on_excess_parse_def)

end
