(* ===== verification/Scheduler.thy ===== *)
theory Scheduler
  imports Dead_Letter Steps Resilience Breaker Shedding "HOL-Library.AList"
begin

text \<open>
  The scheduler of \<open>scheduler/\<close>: the in-flight table of \<open>scheduler/mod.rs\<close>, the
  dispatch pipeline of \<open>scheduler/poller.rs\<close> (dequeue, load shedding, soft gates, claim,
  concurrency caps, hand-over to the worker channel) and the result handler of
  \<open>scheduler/result_handler.rs\<close>. A scheduler's registered configuration is the record
  \<open>scheduler\<close>; everything its handlers change, the database included, is the record
  \<open>system\<close>. Clock readings, fresh identifiers and random numbers of one handler call come
  from a \<open>host\<close>, by position. Hash maps are association lists.
\<close>

section \<open>Inputs, configuration and state\<close>

record host =
  clk :: "nat \<Rightarrow> int"
  ids :: "nat \<Rightarrow> string"
  rnd :: "nat \<Rightarrow> 64 word"

record task_config =
  tc_retry_policy :: retry_policy
  tc_rate_limit :: "rate_limit_config option"
  tc_on_excess :: on_excess
  tc_circuit_breaker :: "breaker_config option"
  tc_retry_budget :: "rate_limit_config option"
  tc_max_concurrent :: "int option"
  tc_max_in_flight_per_task :: "nat option"

definition default_task_config :: task_config where
  "default_task_config = \<lparr>tc_retry_policy = default_retry_policy, tc_rate_limit = None, tc_on_excess = Defer,
     tc_circuit_breaker = None, tc_retry_budget = None, tc_max_concurrent = None,
     tc_max_in_flight_per_task = None\<rparr>"

record queue_config =
  qc_rate_limit :: "rate_limit_config option"
  qc_max_concurrent :: "int option"

record scheduler =
  sc_task_configs :: "(string \<times> task_config) list"
  sc_queue_configs :: "(string \<times> queue_config) list"
  sc_codel_configs :: "(string \<times> codel_config) list"
  sc_dispatch_orders :: "(string \<times> dispatch_order) list"
  sc_queues :: "string list"
  sc_namespace :: "string option"
  sc_claim_owner :: string
  sc_batch_size :: nat
  sc_max_in_flight :: "nat option"
  sc_capacity :: nat

text \<open>What a job was dispatched as: the fencing token of its result.\<close>

record dispatch_record =
  dr_task_name :: string
  dr_owner :: string
  dr_attempt :: int

record in_flight =
  by_job :: "(string \<times> dispatch_record) list"
  count_by_task :: "(string \<times> nat) list"

record queue_state_row =
  qs_queue_name :: string
  qs_paused :: bool
  qs_paused_at :: "int option"

text \<open>The worker channel holds the jobs handed over and not yet received; \<open>sy_wake\<close> is the permit of \<open>dispatch_wake\<close>.\<close>

record system =
  sy_db :: db
  sy_buckets :: "bucket_row list"
  sy_breakers :: "breaker_row list"
  sy_queue_state :: "queue_state_row list"
  sy_paused_cache :: "string list"
  sy_codel_states :: "(string \<times> codel_state) list"
  sy_in_flight :: in_flight
  sy_channel :: "job list"
  sy_closed :: bool
  sy_wake :: bool

definition register_queue_config :: "string \<Rightarrow> queue_config \<Rightarrow> scheduler \<Rightarrow> scheduler" where
  "register_queue_config queue_name config sc =
     sc\<lparr>sc_queue_configs := AList.update queue_name config (sc_queue_configs sc)\<rparr>"

definition register_queue_codel :: "string \<Rightarrow> codel_config \<Rightarrow> scheduler \<Rightarrow> scheduler" where
  "register_queue_codel queue_name config sc =
     sc\<lparr>sc_codel_configs := AList.update queue_name config (sc_codel_configs sc)\<rparr>"

definition register_queue_dispatch_order :: "string \<Rightarrow> dispatch_order \<Rightarrow> scheduler \<Rightarrow> scheduler" where
  "register_queue_dispatch_order queue_name order sc =
     sc\<lparr>sc_dispatch_orders := AList.update queue_name order (sc_dispatch_orders sc)\<rparr>"

definition register_task :: "string \<Rightarrow> task_config \<Rightarrow> scheduler \<times> system \<Rightarrow> scheduler \<times> system" where
  "register_task task_name config = (\<lambda>(sc, sy).
     (sc\<lparr>sc_task_configs := AList.update task_name config (sc_task_configs sc)\<rparr>,
      (case tc_circuit_breaker config of
         None \<Rightarrow> sy
       | Some cb_config \<Rightarrow> sy\<lparr>sy_breakers := register_breaker task_name cb_config (sy_breakers sy)\<rparr>)))"

section \<open>The in-flight table (scheduler/mod.rs)\<close>

definition in_flight_default :: in_flight where
  "in_flight_default = \<lparr>by_job = [], count_by_task = []\<rparr>"

definition in_flight_len :: "in_flight \<Rightarrow> nat" where
  "in_flight_len f = length (by_job f)"

definition count_for :: "string \<Rightarrow> in_flight \<Rightarrow> nat" where
  "count_for task_name f = unwrap_or (map_of (count_by_task f) task_name) 0"

definition in_flight_insert :: "string \<Rightarrow> dispatch_record \<Rightarrow> in_flight \<Rightarrow> in_flight" where
  "in_flight_insert job_id record f =
     (let task_name = dr_task_name record;
          f' = f\<lparr>by_job := AList.update job_id record (by_job f)\<rparr>
      in if map_of (by_job f) job_id = None
         then f'\<lparr>count_by_task := AList.update task_name (count_for task_name f + 1) (count_by_task f)\<rparr>
         else f')"

definition in_flight_remove :: "string \<Rightarrow> in_flight \<Rightarrow> dispatch_record option \<times> in_flight" where
  "in_flight_remove job_id f =
     (case map_of (by_job f) job_id of
        None \<Rightarrow> (None, f)
      | Some record \<Rightarrow>
          let f' = f\<lparr>by_job := AList.delete job_id (by_job f)\<rparr>
          in (Some record,
              case map_of (count_by_task f) (dr_task_name record) of
                None \<Rightarrow> f'
              | Some n \<Rightarrow>
                  if n - 1 = 0 then f'\<lparr>count_by_task := AList.delete (dr_task_name record) (count_by_task f)\<rparr>
                  else f'\<lparr>count_by_task := AList.update (dr_task_name record) (n - 1) (count_by_task f)\<rparr>))"

definition in_flight_remaining :: "scheduler \<Rightarrow> system \<Rightarrow> nat option" where
  "in_flight_remaining sc sy = map_option (\<lambda>n. n - in_flight_len (sy_in_flight sy)) (sc_max_in_flight sc)"

definition track_in_flight :: "scheduler \<Rightarrow> string \<Rightarrow> string \<Rightarrow> int \<Rightarrow> system \<Rightarrow> system" where
  "track_in_flight sc job_id task_name attempt sy =
     sy\<lparr>sy_in_flight := in_flight_insert job_id
       \<lparr>dr_task_name = task_name, dr_owner = sc_claim_owner sc, dr_attempt = attempt\<rparr> (sy_in_flight sy)\<rparr>"

definition untrack_in_flight :: "string \<Rightarrow> system \<Rightarrow> system" where
  "untrack_in_flight job_id sy = sy\<lparr>sy_in_flight := snd (in_flight_remove job_id (sy_in_flight sy))\<rparr>"

definition task_in_flight :: "string \<Rightarrow> system \<Rightarrow> nat" where
  "task_in_flight task_name sy = count_for task_name (sy_in_flight sy)"

definition release_in_flight :: "scheduler \<Rightarrow> string \<Rightarrow> system \<Rightarrow> dispatch_record option \<times> system" where
  "release_in_flight sc job_id sy =
     (let was_full = (case sc_max_in_flight sc of
                        None \<Rightarrow> False | Some n \<Rightarrow> n \<le> in_flight_len (sy_in_flight sy));
          (record, f) = in_flight_remove job_id (sy_in_flight sy)
      in (record, sy\<lparr>sy_in_flight := f, sy_wake := sy_wake sy \<or> (record \<noteq> None \<and> was_full)\<rparr>))"

definition in_flight_settled :: "scheduler \<Rightarrow> system \<Rightarrow> bool" where
  "in_flight_settled sc sy \<longleftrightarrow> sc_max_in_flight sc \<noteq> None \<and> in_flight_len (sy_in_flight sy) = 0"

definition retry_budget_allows :: "host \<Rightarrow> scheduler \<Rightarrow> string \<Rightarrow> system \<Rightarrow> bool \<times> system" where
  "retry_budget_allows h sc task_name sy =
     (case Option.bind (map_of (sc_task_configs sc) task_name) tc_retry_budget of
        None \<Rightarrow> (True, sy)
      | Some config \<Rightarrow>
          let k = ''retry::'' @ unwrap_or (sc_namespace sc) [] @ ''::'' @ task_name;
              (allowed, buckets) = try_acquire (clk h 5) k config (sy_buckets sy)
          in (allowed, sy\<lparr>sy_buckets := buckets\<rparr>))"

section \<open>Paused queues (storage/sqlite/queue_state.rs)\<close>

definition pause_queue :: "int \<Rightarrow> string \<Rightarrow> queue_state_row list \<Rightarrow> queue_state_row list" where
  "pause_queue now queue_name rows =
     replace_row qs_queue_name \<lparr>qs_queue_name = queue_name, qs_paused = True, qs_paused_at = Some now\<rparr> rows"

definition resume_queue :: "string \<Rightarrow> queue_state_row list \<Rightarrow> queue_state_row list" where
  "resume_queue queue_name rows = delete_where (\<lambda>q. qs_queue_name q = queue_name) rows"

definition list_paused_queues :: "queue_state_row list \<Rightarrow> string list" where
  "list_paused_queues rows = map qs_queue_name (filter qs_paused rows)"

text \<open>The paused list is cached; \<open>stale\<close> says that more than a second has passed since it was read.\<close>

definition active_queues :: "bool \<Rightarrow> scheduler \<Rightarrow> system \<Rightarrow> string list \<times> system" where
  "active_queues stale sc sy =
     (let cache = (if stale then list_paused_queues (sy_queue_state sy) else sy_paused_cache sy)
      in (if cache = [] then sc_queues sc else filter (\<lambda>q. q \<notin> set cache) (sc_queues sc),
          sy\<lparr>sy_paused_cache := cache\<rparr>))"

section \<open>The result handler (scheduler/result_handler.rs)\<close>

datatype job_result =
  JobSuccess (jr_id: string) "bytes option" string int
| JobFailure (jr_id: string) string int int string int bool bool
| JobCancelled (jr_id: string) string int

datatype result_outcome =
  OutSuccess string string int
| OutRetry string string string string int bool int
| OutDeadLettered string string string string bool int
| OutCancelled string string string int
| OutSuperseded string

definition RETRY_BUDGET_EXHAUSTED :: string where
  "RETRY_BUDGET_EXHAUSTED = ''retry_budget_exhausted''"

definition set_db :: "db \<Rightarrow> system \<Rightarrow> system" where
  "set_db d sy = sy\<lparr>sy_db := d\<rparr>"

text \<open>The fence fails open: an error of the check counts as authorized.\<close>

definition authorize_finished :: "scheduler \<Rightarrow> string \<Rightarrow> system \<Rightarrow> bool \<times> system" where
  "authorize_finished sc job_id sy =
     (case release_in_flight sc job_id sy of
        (None, sy') \<Rightarrow> (True, sy')
      | (Some record, sy') \<Rightarrow>
          (case authorize_attempt job_id (dr_owner record) (dr_attempt record) (sc_namespace sc) (sy_db sy') of
             Inr Superseded \<Rightarrow> (False, sy')
           | _ \<Rightarrow> (True, sy')))"

definition finalize_success ::
    "host \<Rightarrow> scheduler \<Rightarrow> job_completion \<Rightarrow> system \<Rightarrow> result_outcome result \<times> system" where
  "finalize_success h sc c sy =
     (case complete (clk h 0) (k_job_id c) (k_result c) (sc_namespace sc) (sy_db sy) of
        (Inl e, d) \<Rightarrow> (Inl e, set_db d sy)
      | (Inr _, d) \<Rightarrow>
          let d1 = snd (complete_execution (k_job_id c) (sc_namespace sc) d);
              d2 = snd (record_metric (ids h 0) (clk h 1) (k_task_name c) (k_job_id c) (k_wall_time_ns c) 0
                          True (sc_namespace sc) d1);
              breakers = record_success (clk h 2) (k_task_name c) (sy_breakers sy)
          in (Inr (OutSuccess (k_job_id c) (k_task_name c) (k_wall_time_ns c)),
              sy\<lparr>sy_db := d2, sy_breakers := breakers\<rparr>))"

text \<open>The bookkeeping of a failed attempt; each write is logged and skipped when it errors.\<close>

definition note_failure :: "host \<Rightarrow> scheduler \<Rightarrow> string \<Rightarrow> int \<Rightarrow> string \<Rightarrow> string \<Rightarrow> int \<Rightarrow> system \<Rightarrow> system" where
  "note_failure h sc job_id retry_count error task_name wall_time_ns sy =
     (let d1 = snd (record_error (ids h 1) (clk h 0) job_id retry_count error (sc_namespace sc) (sy_db sy));
          d2 = snd (record_metric (ids h 0) (clk h 1) task_name job_id wall_time_ns 0 False (sc_namespace sc) d1)
      in sy\<lparr>sy_db := d2, sy_breakers := record_failure (clk h 2) task_name (sy_breakers sy)\<rparr>)"

definition dlq_or_clear ::
    "json_lib \<Rightarrow> host \<Rightarrow> scheduler \<Rightarrow> string \<Rightarrow> job option \<Rightarrow> string \<Rightarrow> string option \<Rightarrow> system
     \<Rightarrow> unit result \<times> system" where
  "dlq_or_clear js h sc job_id job error metadata sy =
     (case job of
        Some j \<Rightarrow>
          (case move_to_dlq js (ids h 2) (clk h 3) (clk h 4) j error metadata (sy_db sy) of
             (r, d) \<Rightarrow> (r, set_db d sy))
      | None \<Rightarrow> (Inr (), set_db (snd (complete_execution job_id (sc_namespace sc) (sy_db sy))) sy))"

definition and_outcome :: "unit result \<times> system \<Rightarrow> result_outcome \<Rightarrow> result_outcome result \<times> system" where
  "and_outcome r oc = (case r of (Inl e, sy) \<Rightarrow> (Inl e, sy) | (Inr _, sy) \<Rightarrow> (Inr oc, sy))"

definition handle_failure ::
    "json_lib \<Rightarrow> host \<Rightarrow> scheduler \<Rightarrow> string \<Rightarrow> string \<Rightarrow> int \<Rightarrow> int \<Rightarrow> string \<Rightarrow> int \<Rightarrow> bool \<Rightarrow> bool \<Rightarrow> system
     \<Rightarrow> result_outcome result \<times> system" where
  "handle_failure js h sc job_id error retry_count max_retries task_name wall_time_ns retryable timed_out sy =
     (let sy1 = note_failure h sc job_id retry_count error task_name wall_time_ns sy;
          job = get_job job_id (sc_namespace sc) (sy_db sy1);
          queue = (case job of Some j \<Rightarrow> j_queue j | None \<Rightarrow> []);
          dead = OutDeadLettered job_id task_name queue error timed_out wall_time_ns;
          policy = (case map_of (sc_task_configs sc) task_name of
                      Some c \<Rightarrow> tc_retry_policy c | None \<Rightarrow> default_retry_policy)
      in if \<not> retryable
         then and_outcome (dlq_or_clear js h sc job_id job error None sy1) dead
         else if retry_count < max_retries
         then (case retry_budget_allows h sc task_name sy1 of
                 (False, sy2) \<Rightarrow>
                   and_outcome (dlq_or_clear js h sc job_id job error (Some RETRY_BUDGET_EXHAUSTED) sy2) dead
               | (True, sy2) \<Rightarrow>
                   (case retry job_id (next_retry_at (rnd h 0) (clk h 6) policy retry_count) (sc_namespace sc) (sy_db sy2) of
                      (Inl e, d) \<Rightarrow> (Inl e, set_db d sy2)
                    | (Inr _, d) \<Rightarrow>
                        (Inr (OutRetry job_id task_name queue error retry_count timed_out wall_time_ns), set_db d sy2)))
         else and_outcome (dlq_or_clear js h sc job_id job error None sy1) dead)"

definition handle_cancelled ::
    "host \<Rightarrow> scheduler \<Rightarrow> string \<Rightarrow> string \<Rightarrow> int \<Rightarrow> system \<Rightarrow> result_outcome result \<times> system" where
  "handle_cancelled h sc job_id task_name wall_time_ns sy =
     (let d1 = snd (mark_cancelled (clk h 0) job_id (sc_namespace sc) (sy_db sy));
          d2 = snd (record_metric (ids h 0) (clk h 1) task_name job_id wall_time_ns 0 False (sc_namespace sc) d1);
          queue = (case get_job job_id (sc_namespace sc) d2 of Some j \<Rightarrow> j_queue j | None \<Rightarrow> [])
      in (Inr (OutCancelled job_id task_name queue wall_time_ns), set_db d2 sy))"

definition handle_result ::
    "json_lib \<Rightarrow> host \<Rightarrow> scheduler \<Rightarrow> job_result \<Rightarrow> system \<Rightarrow> result_outcome result \<times> system" where
  "handle_result js h sc r sy =
     (case authorize_finished sc (jr_id r) sy of
        (False, sy1) \<Rightarrow> (Inr (OutSuperseded (jr_id r)), sy1)
      | (True, sy1) \<Rightarrow>
          (case r of
             JobSuccess job_id res task_name wall_time_ns \<Rightarrow>
               finalize_success h sc \<lparr>k_job_id = job_id, k_result = res, k_task_name = task_name,
                 k_wall_time_ns = wall_time_ns\<rparr> sy1
           | JobFailure job_id error retry_count max_retries task_name wall_time_ns retryable timed_out \<Rightarrow>
               handle_failure js h sc job_id error retry_count max_retries task_name wall_time_ns retryable
                 timed_out sy1
           | JobCancelled job_id task_name wall_time_ns \<Rightarrow>
               handle_cancelled h sc job_id task_name wall_time_ns sy1))"

text \<open>
  A batch: failures and cancellations are handled one by one in the first pass, which also fences
  the successes; the surviving successes are then completed in one transaction, or one by one when
  that transaction fails. \<open>hs i\<close> is the host of the \<open>i\<close>-th single handling, \<open>hb\<close> the host
  of the batch.
\<close>

fun first_pass ::
    "json_lib \<Rightarrow> (nat \<Rightarrow> host) \<Rightarrow> scheduler \<Rightarrow> nat \<Rightarrow> job_result list \<Rightarrow> system
     \<Rightarrow> result_outcome result option list \<times> job_completion list \<times> system" where
  "first_pass js hs sc i [] sy = ([], [], sy)"
| "first_pass js hs sc i (r # rs) sy =
     (case r of
        JobSuccess job_id res task_name wall_time_ns \<Rightarrow>
          (case authorize_finished sc job_id sy of
             (True, sy1) \<Rightarrow>
               let (outs, cs, sy2) = first_pass js hs sc (Suc i) rs sy1
               in (None # outs, \<lparr>k_job_id = job_id, k_result = res, k_task_name = task_name,
                     k_wall_time_ns = wall_time_ns\<rparr> # cs, sy2)
           | (False, sy1) \<Rightarrow>
               let (outs, cs, sy2) = first_pass js hs sc (Suc i) rs sy1
               in (Some (Inr (OutSuperseded job_id)) # outs, cs, sy2))
      | _ \<Rightarrow>
          let (out, sy1) = handle_result js (hs i) sc r sy;
              (outs, cs, sy2) = first_pass js hs sc (Suc i) rs sy1
          in (Some out # outs, cs, sy2))"

fun finalize_each ::
    "(nat \<Rightarrow> host) \<Rightarrow> scheduler \<Rightarrow> nat \<Rightarrow> job_completion list \<Rightarrow> system
     \<Rightarrow> result_outcome result list \<times> system" where
  "finalize_each hs sc i [] sy = ([], sy)"
| "finalize_each hs sc i (c # cs) sy =
     (let (out, sy1) = finalize_success (hs i) sc c sy; (outs, sy2) = finalize_each hs sc (Suc i) cs sy1
      in (out # outs, sy2))"

fun finish_batch ::
    "host \<Rightarrow> (nat \<Rightarrow> host) \<Rightarrow> scheduler \<Rightarrow> nat \<Rightarrow> job_completion list \<Rightarrow> system
     \<Rightarrow> result_outcome result list \<times> system" where
  "finish_batch hb hs sc i cs sy =
     (if cs = [] then ([], sy)
      else case complete_batch (ids hb) (clk hb 0) cs (sc_namespace sc) (sy_db sy) of
             (Inr _, d) \<Rightarrow>
               (map (\<lambda>c. Inr (OutSuccess (k_job_id c) (k_task_name c) (k_wall_time_ns c))) cs,
                sy\<lparr>sy_db := d,
                   sy_breakers := fold (\<lambda>(k, c). record_success (clk hb (Suc k)) (k_task_name c)) (enumerate 0 cs)
                     (sy_breakers sy)\<rparr>)
           | (Inl e, d) \<Rightarrow> finalize_each hs sc i cs (set_db d sy))"

text \<open>The outcomes of the batch fill the empty slots in order; a slot left empty would be a panic.\<close>

fun fill_slots :: "'a option list \<Rightarrow> 'a list \<Rightarrow> 'a option list" where
  "fill_slots [] fs = []"
| "fill_slots (Some x # xs) fs = Some x # fill_slots xs fs"
| "fill_slots (None # xs) [] = None # fill_slots xs []"
| "fill_slots (None # xs) (f # fs) = Some f # fill_slots xs fs"

definition handle_results ::
    "json_lib \<Rightarrow> (nat \<Rightarrow> host) \<Rightarrow> host \<Rightarrow> scheduler \<Rightarrow> job_result list \<Rightarrow> system
     \<Rightarrow> result_outcome result option list \<times> system" where
  "handle_results js hs hb sc results sy =
     (let (outs, cs, sy1) = first_pass js hs sc 0 results sy;
          (fins, sy2) = finish_batch hb hs sc (length results) cs sy1
      in (fill_slots outs fins, sy2))"

section \<open>Dispatch (scheduler/poller.rs)\<close>

definition CIRCUIT_BREAKER_RETRY_DELAY_MS :: int where
  "CIRCUIT_BREAKER_RETRY_DELAY_MS = 5000"

definition RATE_LIMIT_RETRY_DELAY_MS :: int where
  "RATE_LIMIT_RETRY_DELAY_MS = 1000"

definition CONCURRENCY_RETRY_DELAY_MS :: int where
  "CONCURRENCY_RETRY_DELAY_MS = 500"

definition CHANNEL_BACKPRESSURE_RETRY_DELAY_MS :: int where
  "CHANNEL_BACKPRESSURE_RETRY_DELAY_MS = 100"

definition CLAIM_ERROR_RETRY_DELAY_MS :: int where
  "CLAIM_ERROR_RETRY_DELAY_MS = 250"

datatype claim_outcome = Claimed | AlreadyClaimed | Errored

datatype gate_decision = Proceed | DeferFor int | Shed string

definition rate_limited :: "on_excess \<Rightarrow> string \<Rightarrow> gate_decision" where
  "rate_limited oe scope =
     (case oe of Defer \<Rightarrow> DeferFor RATE_LIMIT_RETRY_DELAY_MS | Drop \<Rightarrow> Shed (rate_limit_shed_reason scope))"

text \<open>The running counts of one dispatch cycle, cached per task and per queue.\<close>

record gate_counts =
  task_running :: "(string \<times> int) list"
  queue_running :: "(string \<times> int) list"

definition gate_counts_default :: gate_counts where
  "gate_counts_default = \<lparr>task_running = [], queue_running = []\<rparr>"

definition decrement :: "string \<Rightarrow> (string \<times> int) list \<Rightarrow> (string \<times> int) list" where
  "decrement k xs = (case map_of xs k of None \<Rightarrow> xs | Some n \<Rightarrow> AList.update k (n - 1) xs)"

definition gate_release :: "string \<Rightarrow> string \<Rightarrow> gate_counts \<Rightarrow> gate_counts" where
  "gate_release task_name queue counts =
     \<lparr>task_running = decrement task_name (task_running counts),
      queue_running = decrement queue (queue_running counts)\<rparr>"

definition cached_task_running :: "scheduler \<Rightarrow> db \<Rightarrow> string \<Rightarrow> gate_counts \<Rightarrow> int \<times> gate_counts" where
  "cached_task_running sc d task_name counts =
     (case map_of (task_running counts) task_name of
        Some n \<Rightarrow> (n, counts)
      | None \<Rightarrow>
          let n = int (count_running_by_task task_name (sc_namespace sc) d)
          in (n, counts\<lparr>task_running := AList.update task_name n (task_running counts)\<rparr>))"

definition cached_queue_running :: "scheduler \<Rightarrow> db \<Rightarrow> string \<Rightarrow> gate_counts \<Rightarrow> int \<times> gate_counts" where
  "cached_queue_running sc d queue counts =
     (case map_of (queue_running counts) queue of
        Some n \<Rightarrow> (n, counts)
      | None \<Rightarrow>
          let n = q_running (stats_by_queue queue (sc_namespace sc) d)
          in (n, counts\<lparr>queue_running := AList.update queue n (queue_running counts)\<rparr>))"

definition check_post_claim_concurrency ::
    "scheduler \<Rightarrow> job \<Rightarrow> gate_counts \<Rightarrow> system \<Rightarrow> bool \<times> gate_counts" where
  "check_post_claim_concurrency sc job counts sy =
     (let (queue_full, counts1) =
            (case Option.bind (map_of (sc_queue_configs sc) (j_queue job)) qc_max_concurrent of
               None \<Rightarrow> (False, counts)
             | Some max_conc \<Rightarrow>
                 let (n, c) = cached_queue_running sc (sy_db sy) (j_queue job) counts in (max_conc < n, c))
      in if queue_full then (False, counts1)
         else case map_of (sc_task_configs sc) (j_task_name job) of
                None \<Rightarrow> (True, counts1)
              | Some config \<Rightarrow>
                  let (task_full, counts2) =
                        (case tc_max_concurrent config of
                           None \<Rightarrow> (False, counts1)
                         | Some max_conc \<Rightarrow>
                             let (n, c) = cached_task_running sc (sy_db sy) (j_task_name job) counts1
                             in (max_conc < n, c))
                  in if task_full then (False, counts2)
                     else case tc_max_in_flight_per_task config of
                            None \<Rightarrow> (True, counts2)
                          | Some max_in_flight \<Rightarrow>
                              (\<not> max_in_flight \<le> task_in_flight (j_task_name job) sy, counts2))"

definition quote :: "string \<Rightarrow> string" where
  "quote s = [CHR 0x27] @ s @ [CHR 0x27]"

definition check_pre_claim_gates :: "host \<Rightarrow> scheduler \<Rightarrow> job \<Rightarrow> system \<Rightarrow> gate_decision \<times> system" where
  "check_pre_claim_gates h sc job sy =
     (let tconf = map_of (sc_task_configs sc) (j_task_name job);
          oe = (case tconf of Some c \<Rightarrow> tc_on_excess c | None \<Rightarrow> Defer);
          (queue_ok, sy1) =
            (case Option.bind (map_of (sc_queue_configs sc) (j_queue job)) qc_rate_limit of
               None \<Rightarrow> (True, sy)
             | Some rl \<Rightarrow>
                 let (ok, bs) = try_acquire (clk h 0) (''queue:'' @ j_queue job) rl (sy_buckets sy)
                 in (ok, sy\<lparr>sy_buckets := bs\<rparr>))
      in if \<not> queue_ok then (rate_limited oe (''queue '' @ quote (j_queue job)), sy1)
         else case tconf of
                None \<Rightarrow> (Proceed, sy1)
              | Some config \<Rightarrow>
                  let (breaker_ok, sy2) =
                        (if tc_circuit_breaker config = None then (True, sy1)
                         else let (ok, bs) = allow (clk h 1) (j_task_name job) (sy_breakers sy1)
                              in (ok, sy1\<lparr>sy_breakers := bs\<rparr>))
                  in if \<not> breaker_ok then (DeferFor CIRCUIT_BREAKER_RETRY_DELAY_MS, sy2)
                     else case tc_rate_limit config of
                            None \<Rightarrow> (Proceed, sy2)
                          | Some rl \<Rightarrow>
                              let (ok, bs) = try_acquire (clk h 2) (j_task_name job) rl (sy_buckets sy2);
                                  sy3 = sy2\<lparr>sy_buckets := bs\<rparr>
                              in if ok then (Proceed, sy3)
                                 else (rate_limited oe (''task '' @ quote (j_task_name job)), sy3))"

definition shed_rate_limited ::
    "json_lib \<Rightarrow> host \<Rightarrow> scheduler \<Rightarrow> job \<Rightarrow> string \<Rightarrow> bool \<Rightarrow> system \<Rightarrow> unit result \<times> system" where
  "shed_rate_limited js h sc job reason claimed sy =
     (let d = (if claimed then snd (complete_execution (j_id job) (sc_namespace sc) (sy_db sy)) else sy_db sy);
          (r, d') = shed_to_dlq js (ids h 0) (clk h 3) (clk h 4) job reason (Some RATE_LIMIT_SHED_METADATA) d
      in (r, set_db d' sy))"

definition claim_for_dispatch :: "host \<Rightarrow> scheduler \<Rightarrow> job \<Rightarrow> system \<Rightarrow> claim_outcome \<times> system" where
  "claim_for_dispatch h sc job sy =
     (case claim_execution (clk h 5) (j_id job) (sc_claim_owner sc) (sy_db sy) of
        (Inr True, d) \<Rightarrow> (Claimed, set_db d sy)
      | (Inr False, d) \<Rightarrow> (AlreadyClaimed, set_db d sy)
      | (Inl e, d) \<Rightarrow> (Errored, set_db d sy))"

definition rollback_claim_and_reschedule ::
    "scheduler \<Rightarrow> string \<Rightarrow> int \<Rightarrow> system \<Rightarrow> unit result \<times> system" where
  "rollback_claim_and_reschedule sc job_id next_at sy =
     (case complete_execution job_id (sc_namespace sc) (sy_db sy) of
        (Inl e, d) \<Rightarrow> (Inl e, set_db d sy)
      | (Inr _, d) \<Rightarrow> (case reschedule job_id next_at d of (r, d') \<Rightarrow> (r, set_db d' sy)))"

text \<open>A rejected job goes back with a jittered delay; the step answers that nothing was dispatched.\<close>

definition put_back ::
    "scheduler \<Rightarrow> host \<Rightarrow> int \<Rightarrow> int \<Rightarrow> job \<Rightarrow> gate_counts \<Rightarrow> system \<Rightarrow> bool result \<times> gate_counts \<times> system" where
  "put_back sc h now delay_ms job counts sy =
     (case rollback_claim_and_reschedule sc (j_id job) (wrapping_add now (desync_delay (rnd h 0) delay_ms)) sy of
        (Inl e, sy') \<Rightarrow> (Inl e, gate_release (j_task_name job) (j_queue job) counts, sy')
      | (Inr _, sy') \<Rightarrow> (Inr False, gate_release (j_task_name job) (j_queue job) counts, sy'))"

definition finish_dispatch ::
    "host \<Rightarrow> scheduler \<Rightarrow> int \<Rightarrow> job \<Rightarrow> gate_counts \<Rightarrow> system \<Rightarrow> bool result \<times> gate_counts \<times> system" where
  "finish_dispatch h sc now job counts sy =
     (case check_post_claim_concurrency sc job counts sy of
        (False, counts1) \<Rightarrow> put_back sc h now CONCURRENCY_RETRY_DELAY_MS job counts1 sy
      | (True, counts1) \<Rightarrow>
          let sy1 = track_in_flight sc (j_id job) (j_task_name job) (j_retry_count job) sy
          in if sy_closed sy1 \<or> sc_capacity sc \<le> length (sy_channel sy1)
             then put_back sc h now CHANNEL_BACKPRESSURE_RETRY_DELAY_MS job counts1
                    (untrack_in_flight (j_id job) sy1)
             else (Inr True, counts1, sy1\<lparr>sy_channel := sy_channel sy1 @ [job]\<rparr>))"

definition gate_and_dispatch ::
    "json_lib \<Rightarrow> host \<Rightarrow> scheduler \<Rightarrow> int \<Rightarrow> job \<Rightarrow> gate_counts \<Rightarrow> system
     \<Rightarrow> bool result \<times> gate_counts \<times> system" where
  "gate_and_dispatch js h sc now job counts sy =
     (let released = gate_release (j_task_name job) (j_queue job) counts
      in case check_pre_claim_gates h sc job sy of
           (DeferFor delay_ms, sy1) \<Rightarrow>
             (case reschedule (j_id job) (wrapping_add now (desync_delay (rnd h 0) delay_ms)) (sy_db sy1) of
                (Inl e, d) \<Rightarrow> (Inl e, counts, set_db d sy1)
              | (Inr _, d) \<Rightarrow> (Inr False, released, set_db d sy1))
         | (Shed reason, sy1) \<Rightarrow>
             (case shed_rate_limited js h sc job reason False sy1 of
                (Inl e, sy2) \<Rightarrow> (Inl e, counts, sy2)
              | (Inr _, sy2) \<Rightarrow> (Inr True, released, sy2))
         | (Proceed, sy1) \<Rightarrow>
             (case claim_for_dispatch h sc job sy1 of
                (Claimed, sy2) \<Rightarrow> finish_dispatch h sc now job counts sy2
              | (AlreadyClaimed, sy2) \<Rightarrow> (Inr False, counts, sy2)
              | (Errored, sy2) \<Rightarrow> put_back sc h now CLAIM_ERROR_RETRY_DELAY_MS job counts sy2))"

definition dispatch_claimed ::
    "json_lib \<Rightarrow> host \<Rightarrow> scheduler \<Rightarrow> int \<Rightarrow> job \<Rightarrow> gate_counts \<Rightarrow> system
     \<Rightarrow> bool result \<times> gate_counts \<times> system" where
  "dispatch_claimed js h sc now job counts sy =
     (case check_pre_claim_gates h sc job sy of
        (DeferFor delay_ms, sy1) \<Rightarrow> put_back sc h now delay_ms job counts sy1
      | (Shed reason, sy1) \<Rightarrow>
          (let released = gate_release (j_task_name job) (j_queue job) counts
           in case shed_rate_limited js h sc job reason True sy1 of
                (Inl e, sy2) \<Rightarrow> (Inl e, released, sy2)
              | (Inr _, sy2) \<Rightarrow> (Inr True, released, sy2))
      | (Proceed, sy1) \<Rightarrow> finish_dispatch h sc now job counts sy1)"

definition CODEL_SHED_METADATA :: string where
  "CODEL_SHED_METADATA = ''{'' @ [CHR 0x22] @ ''codel'' @ [CHR 0x22] @ '':true}''"

definition codel_shed_reason :: "int \<Rightarrow> codel_config \<Rightarrow> string" where
  "codel_shed_reason sojourn cfg =
     CODEL_REASON_PREFIX @ '' sojourn '' @ string_of_int sojourn @ ''ms exceeded target ''
       @ string_of_int (cd_target_ms cfg) @ ''ms under sustained overload''"

fun codel_loop ::
    "json_lib \<Rightarrow> (nat \<Rightarrow> host) \<Rightarrow> scheduler \<Rightarrow> nat \<Rightarrow> int \<Rightarrow> job list \<Rightarrow> system \<Rightarrow> job list result \<times> system" where
  "codel_loop js hs sc i now [] sy = (Inr [], sy)"
| "codel_loop js hs sc i now (job # batch) sy =
     (let keep = (\<lambda>sy. case codel_loop js hs sc (Suc i) now batch sy of
                          (Inr kept, sy') \<Rightarrow> (Inr (job # kept), sy') | (Inl e, sy') \<Rightarrow> (Inl e, sy'))
      in case map_of (sc_codel_configs sc) (j_queue job) of
           None \<Rightarrow> keep sy
         | Some cfg \<Rightarrow>
             let sojourn = max (saturating_sub now (j_scheduled_at job)) 0;
                 (dropped, st) = should_drop sojourn now cfg
                   (unwrap_or (map_of (sy_codel_states sy) (j_queue job)) codel_default);
                 sy1 = sy\<lparr>sy_codel_states := AList.update (j_queue job) st (sy_codel_states sy)\<rparr>
             in if \<not> dropped then keep sy1
                else case shed_to_dlq js (ids (hs i) 0) (clk (hs i) 0) (clk (hs i) 1) job
                            (codel_shed_reason sojourn cfg) (Some CODEL_SHED_METADATA) (sy_db sy1) of
                       (Inl e, d) \<Rightarrow> (Inl e, set_db d sy1)
                     | (Inr _, d) \<Rightarrow> codel_loop js hs sc (Suc i) now batch (set_db d sy1))"

definition codel_admit ::
    "json_lib \<Rightarrow> (nat \<Rightarrow> host) \<Rightarrow> scheduler \<Rightarrow> int \<Rightarrow> job list \<Rightarrow> system \<Rightarrow> job list result \<times> system" where
  "codel_admit js hs sc now batch sy =
     (if sc_codel_configs sc = [] then (Inr batch, sy) else codel_loop js hs sc 0 now batch sy)"

definition try_dispatch ::
    "json_lib \<Rightarrow> host \<Rightarrow> (nat \<Rightarrow> host) \<Rightarrow> bool \<Rightarrow> int \<Rightarrow> scheduler \<Rightarrow> system \<Rightarrow> bool result \<times> system" where
  "try_dispatch js h hs stale now sc sy =
     (let (queues, sy1) = active_queues stale sc sy
      in if queues = [] then (Inr False, sy1)
         else if in_flight_remaining sc sy1 = Some 0 then (Inr False, sy1)
         else if sc_capacity sc \<le> length (sy_channel sy1) then (Inr False, sy1)
         else case dequeue_from queues now (sc_namespace sc) (map_of (sc_dispatch_orders sc)) (sy_db sy1) of
                (Inl e, d) \<Rightarrow> (Inl e, set_db d sy1)
              | (Inr None, d) \<Rightarrow> (Inr False, set_db d sy1)
              | (Inr (Some job), d) \<Rightarrow>
                  (case codel_admit js hs sc now [job] (set_db d sy1) of
                     (Inl e, sy2) \<Rightarrow> (Inl e, sy2)
                   | (Inr [], sy2) \<Rightarrow> (Inr False, sy2)
                   | (Inr (j # _), sy2) \<Rightarrow>
                       (case gate_and_dispatch js h sc now j gate_counts_default sy2 of
                          (r, _, sy3) \<Rightarrow> (r, sy3))))"

text \<open>One job after the other over a shared cache; a job's error is logged and the rest go on.\<close>

fun dispatch_each ::
    "(nat \<Rightarrow> job \<Rightarrow> gate_counts \<Rightarrow> system \<Rightarrow> bool result \<times> gate_counts \<times> system)
     \<Rightarrow> nat \<Rightarrow> job list \<Rightarrow> gate_counts \<Rightarrow> system \<Rightarrow> bool \<times> system" where
  "dispatch_each f i [] counts sy = (False, sy)"
| "dispatch_each f i (job # batch) counts sy =
     (let (r, counts', sy') = f i job counts sy;
          (rest, sy'') = dispatch_each f (Suc i) batch counts' sy'
      in (r = Inr True \<or> rest, sy''))"

definition dispatch_budget :: "scheduler \<Rightarrow> system \<Rightarrow> nat" where
  "dispatch_budget sc sy =
     (let budget = min (sc_batch_size sc) (sc_capacity sc - length (sy_channel sy))
      in case in_flight_remaining sc sy of None \<Rightarrow> budget | Some n \<Rightarrow> min budget n)"

definition try_dispatch_batch ::
    "json_lib \<Rightarrow> (nat \<Rightarrow> host) \<Rightarrow> (nat \<Rightarrow> host) \<Rightarrow> bool \<Rightarrow> int \<Rightarrow> int \<Rightarrow> scheduler \<Rightarrow> system
     \<Rightarrow> bool result \<times> system" where
  "try_dispatch_batch js hs hc stale now claim_now sc sy =
     (let (queues, sy1) = active_queues stale sc sy
      in if queues = [] then (Inr False, sy1)
         else if sc_capacity sc \<le> length (sy_channel sy1) then (Inr False, sy1)
         else if in_flight_remaining sc sy1 = Some 0 then (Inr False, sy1)
         else case dequeue_batch_from queues now (sc_namespace sc) (dispatch_budget sc sy1)
                     (map_of (sc_dispatch_orders sc)) (sy_db sy1) of
                (Inl e, d) \<Rightarrow> (Inl e, set_db d sy1)
              | (Inr [], d) \<Rightarrow> (Inr False, set_db d sy1)
              | (Inr batch, d) \<Rightarrow>
                  (case codel_admit js hc sc now batch (set_db d sy1) of
                     (Inl e, sy2) \<Rightarrow> (Inl e, sy2)
                   | (Inr [], sy2) \<Rightarrow> (Inr False, sy2)
                   | (Inr kept, sy2) \<Rightarrow>
                       (case claim_execution_batch claim_now (map j_id kept) (sc_claim_owner sc) (sy_db sy2) of
                          (Inl e, d') \<Rightarrow>
                            (case dispatch_each (\<lambda>i. gate_and_dispatch js (hs i) sc now) 0 kept
                                    gate_counts_default (set_db d' sy2) of
                               (progress, sy3) \<Rightarrow> (Inr progress, sy3))
                        | (Inr claimed, d') \<Rightarrow>
                            (case dispatch_each (\<lambda>i. dispatch_claimed js (hs i) sc now) 0
                                    (map fst (filter snd (zip kept claimed))) gate_counts_default (set_db d' sy2) of
                               (progress, sy3) \<Rightarrow> (Inr progress, sy3)))))"

definition tick_dispatch ::
    "json_lib \<Rightarrow> host \<Rightarrow> (nat \<Rightarrow> host) \<Rightarrow> (nat \<Rightarrow> host) \<Rightarrow> bool \<Rightarrow> int \<Rightarrow> int \<Rightarrow> scheduler \<Rightarrow> system
     \<Rightarrow> bool \<times> system" where
  "tick_dispatch js h hs hc stale now claim_now sc sy =
     (case (if 1 < sc_batch_size sc then try_dispatch_batch js hs hc stale now claim_now sc sy
            else try_dispatch js h hc stale now sc sy) of
        (Inr progress, sy') \<Rightarrow> (progress, sy')
      | (Inl e, sy') \<Rightarrow> (False, sy'))"

section \<open>The in-flight table implements a map with counts\<close>

text \<open>
  What the dispatcher relies on: the table is a finite map from jobs to records, its length is the
  number of jobs in it, and the per-task counts, which are maintained rather than derived, are the
  numbers of its jobs per task. A job keeps its task, so a job tracked twice is counted once.
\<close>

locale tracker =
  fixes inv :: "'f \<Rightarrow> bool"
    and lookup :: "'f \<Rightarrow> 'j \<Rightarrow> 'r option"
    and len :: "'f \<Rightarrow> nat"
    and tally :: "'t \<Rightarrow> 'f \<Rightarrow> nat"
    and put :: "'j \<Rightarrow> 'r \<Rightarrow> 'f \<Rightarrow> 'f"
    and drop_job :: "'j \<Rightarrow> 'f \<Rightarrow> 'r option \<times> 'f"
    and task :: "'r \<Rightarrow> 't"
  assumes put_inv: "inv f \<Longrightarrow> (\<And>r'. lookup f j = Some r' \<Longrightarrow> task r' = task r) \<Longrightarrow> inv (put j r f)"
    and put_lookup: "lookup (put j r f) = (lookup f)(j \<mapsto> r)"
    and drop_inv: "inv f \<Longrightarrow> inv (snd (drop_job j f))"
    and drop_lookup: "inv f \<Longrightarrow> lookup (snd (drop_job j f)) = (lookup f)(j := None)"
    and drop_returns: "fst (drop_job j f) = lookup f j"
    and finite_lookup: "inv f \<Longrightarrow> finite (dom (lookup f))"
    and len_card: "inv f \<Longrightarrow> len f = card (dom (lookup f))"
    and tally_card: "inv f \<Longrightarrow> tally t f = card {j. \<exists>r. lookup f j = Some r \<and> task r = t}"
begin

lemma put_len: "inv f \<Longrightarrow> (\<And>r'. lookup f j = Some r' \<Longrightarrow> task r' = task r) \<Longrightarrow> len (put j r f) \<le> Suc (len f)"
  using finite_lookup [of f] by (simp add: len_card put_inv put_lookup card_insert_if)

lemma drop_len: "inv f \<Longrightarrow> len (snd (drop_job j f)) \<le> len f"
  using finite_lookup [of f] by (simp add: len_card drop_inv drop_lookup card_Diff1_le)

lemma put_drop: "inv f \<Longrightarrow> lookup f j = None \<Longrightarrow> lookup (snd (drop_job j (put j r f))) = lookup f"
  using put_inv [of f j r] by (auto simp: drop_lookup put_lookup fun_upd_idem)

lemma tally_le_len: "inv f \<Longrightarrow> tally t f \<le> len f"
  using finite_lookup [of f] by (auto simp: tally_card len_card intro!: card_mono)

end

definition tasks_of :: "in_flight \<Rightarrow> string \<Rightarrow> nat" where
  "tasks_of f t = length (filter (\<lambda>p. dr_task_name (snd p) = t) (by_job f))"

definition in_flight_ok :: "in_flight \<Rightarrow> bool" where
  "in_flight_ok f \<longleftrightarrow>
     distinct (map fst (by_job f)) \<and> distinct (map fst (count_by_task f))
     \<and> (\<forall>t. count_for t f = tasks_of f t) \<and> (\<forall>p \<in> set (count_by_task f). 0 < snd p)"

lemma length_filter_update_new:
  "map_of xs k = None \<Longrightarrow>
     length (filter P (AList.update k v xs)) = length (filter P xs) + of_bool (P (k, v))"
  by (induction xs) (auto split: if_splits)

lemma length_filter_update_same:
  "map_of xs k = Some v' \<Longrightarrow> (P (k, v') = P (k, v)) \<Longrightarrow> distinct (map fst xs) \<Longrightarrow>
     length (filter P (AList.update k v xs)) = length (filter P xs)"
  by (induction xs) (auto split: if_splits)

lemma length_filter_delete:
  "map_of xs k = Some v \<Longrightarrow> distinct (map fst xs) \<Longrightarrow>
     length (filter P xs) = length (filter P (AList.delete k xs)) + of_bool (P (k, v))"
proof (induction xs)
  case (Cons x xs)
  show ?case
  proof (cases "fst x = k")
    case True
    then have "k \<notin> fst ` set xs" using Cons.prems by auto
    then have "AList.delete k xs = xs" by (simp add: AList.delete_eq filter_id_conv) force
    then show ?thesis using Cons.prems True by (cases x) auto
  next
    case False
    then show ?thesis using Cons by (cases x) auto
  qed
qed simp

lemma map_of_card:
  assumes "distinct (map fst xs)"
  shows "card (dom (map_of xs)) = length xs"
    "card {j. \<exists>r. map_of xs j = Some r \<and> P r} = length (filter (\<lambda>p. P (snd p)) xs)"
proof -
  show "card (dom (map_of xs)) = length xs"
    using distinct_card [OF assms] by (simp add: dom_map_of_conv_image_fst)
  have "{j. \<exists>r. map_of xs j = Some r \<and> P r} = fst ` set (filter (\<lambda>p. P (snd p)) xs)"
    using assms by (force simp: map_of_eq_Some_iff)
  also have "card \<dots> = length (filter (\<lambda>p. P (snd p)) xs)"
    using distinct_card [of "map fst (filter (\<lambda>p. P (snd p)) xs)"] assms
    by (simp add: distinct_map_filter)
  finally show "card {j. \<exists>r. map_of xs j = Some r \<and> P r} = length (filter (\<lambda>p. P (snd p)) xs)" .
qed

lemma set_update_subset: "set (AList.update k v xs) \<subseteq> insert (k, v) (set xs)"
  by (induction xs) auto

lemma in_flight_insert_ok:
  assumes "in_flight_ok f" "\<And>r'. map_of (by_job f) j = Some r' \<Longrightarrow> dr_task_name r' = dr_task_name r"
  shows "in_flight_ok (in_flight_insert j r f)"
proof -
  let ?t = "dr_task_name r"
  define f' where "f' = in_flight_insert j r f"
  have jobs': "by_job f' = AList.update j r (by_job f)"
    by (simp add: f'_def in_flight_insert_def Let_def)
  have dist: "distinct (map fst (by_job f))" "distinct (map fst (count_by_task f))" "\<forall>p \<in> set (count_by_task f). 0 < snd p"
    using assms(1) by (simp_all add: in_flight_ok_def)
  have cnt: "count_for t f = tasks_of f t" for t
    using assms(1) by (simp add: in_flight_ok_def)
  have "distinct (map fst (count_by_task f')) \<and> (\<forall>t. count_for t f' = tasks_of f' t) \<and> (\<forall>p \<in> set (count_by_task f'). 0 < snd p)"
  proof (cases "map_of (by_job f) j")
    case None
    have cs: "count_by_task f' = AList.update ?t (count_for ?t f + 1) (count_by_task f)"
      using None by (simp add: f'_def in_flight_insert_def Let_def)
    have "count_for t f' = tasks_of f' t" for t
    proof -
      have "count_for t f' = count_for t f + of_bool (?t = t)"
        unfolding count_for_def [of t f'] cs by (simp add: update_conv' unwrap_or_def count_for_def)
      also have "\<dots> = tasks_of f' t"
        unfolding cnt tasks_of_def jobs' by (simp add: length_filter_update_new [OF None])
      finally show ?thesis .
    qed
    moreover have "\<forall>p \<in> set (count_by_task f'). 0 < snd p"
      using set_update_subset [of ?t "count_for ?t f + 1" "count_by_task f"] dist(3) unfolding cs by auto
    ultimately show ?thesis using dist(2) by (simp add: cs distinct_update)
  next
    case (Some r')
    have cs: "count_by_task f' = count_by_task f" using Some by (simp add: f'_def in_flight_insert_def Let_def)
    have "tasks_of f' t = tasks_of f t" for t
      unfolding tasks_of_def jobs'
      by (rule length_filter_update_same [OF Some _ dist(1)]) (simp add: assms(2) [OF Some])
    then show ?thesis using cnt dist cs by (simp add: count_for_def)
  qed
  then show ?thesis unfolding f'_def [symmetric] in_flight_ok_def using dist(1) by (simp add: jobs' distinct_update)
qed

lemma in_flight_remove_ok:
  assumes "in_flight_ok f"
  shows "in_flight_ok (snd (in_flight_remove j f))"
proof (cases "map_of (by_job f) j")
  case None
  then show ?thesis using assms by (simp add: in_flight_remove_def)
next
  case (Some r)
  let ?t = "dr_task_name r"
  have less: "tasks_of f t = length (filter (\<lambda>p. dr_task_name (snd p) = t) (AList.delete j (by_job f))) + of_bool (?t = t)" for t
    using length_filter_delete [OF Some, of "\<lambda>p. dr_task_name (snd p) = t"] assms
    by (simp add: tasks_of_def in_flight_ok_def)
  have "0 < count_for ?t f" using assms less [of ?t] by (simp add: in_flight_ok_def)
  then obtain n where n: "map_of (count_by_task f) ?t = Some (Suc n)"
    by (cases "map_of (count_by_task f) ?t") (auto simp: count_for_def unwrap_or_def gr0_conv_Suc)
  have cnt: "unwrap_or (map_of (count_by_task f) t) 0 = tasks_of f t" for t
    using assms by (simp add: in_flight_ok_def count_for_def)
  define f' where "f' = snd (in_flight_remove j f)"
  have f': "by_job f' = AList.delete j (by_job f)"
    "count_by_task f' = (if n = 0 then AList.delete ?t (count_by_task f) else AList.update ?t n (count_by_task f))"
    using Some n by (simp_all add: f'_def in_flight_remove_def Let_def)
  have "count_for t f' = tasks_of f' t" for t
    using cnt [of t] less [of t] n
    by (cases "t = ?t") (auto simp: count_for_def tasks_of_def f' unwrap_or_def delete_conv' update_conv')
  moreover have "\<forall>p \<in> set (count_by_task f'). 0 < snd p"
    using assms set_update_subset [of ?t n "count_by_task f"]
    by (auto simp: f' in_flight_ok_def AList.delete_eq)
  ultimately show ?thesis
    using assms unfolding f'_def [symmetric]
    by (simp add: in_flight_ok_def f' distinct_update distinct_delete)
qed

lemma in_flight_lookup:
  "map_of (by_job (in_flight_insert j r f)) = (map_of (by_job f))(j \<mapsto> r)"
  "map_of (by_job (snd (in_flight_remove j f))) = (map_of (by_job f))(j := None)"
  "fst (in_flight_remove j f) = map_of (by_job f) j"
  by (auto simp: in_flight_insert_def in_flight_remove_def Let_def update_conv' delete_conv' fun_upd_idem
      split: option.splits)

interpretation flights: tracker in_flight_ok "\<lambda>f. map_of (by_job f)" in_flight_len count_for in_flight_insert
  in_flight_remove dr_task_name
proof unfold_locales
  show "in_flight_ok (in_flight_insert j r f)"
    if "in_flight_ok f" "\<And>r'. map_of (by_job f) j = Some r' \<Longrightarrow> dr_task_name r' = dr_task_name r" for f j r
    using that by (rule in_flight_insert_ok)
  show "in_flight_ok (snd (in_flight_remove j f))" if "in_flight_ok f" for f j
    using that by (rule in_flight_remove_ok)
  show "finite (dom (map_of (by_job f)))" for f by (rule finite_dom_map_of)
  show "in_flight_len f = card (dom (map_of (by_job f)))" if "in_flight_ok f" for f
    using that by (simp add: in_flight_ok_def in_flight_len_def map_of_card)
  show "count_for t f = card {j. \<exists>r. map_of (by_job f) j = Some r \<and> dr_task_name r = t}"
    if "in_flight_ok f" for f t
    using that map_of_card(2) [of "by_job f" "\<lambda>r. dr_task_name r = t"] unfolding in_flight_ok_def tasks_of_def
    by metis
qed (rule in_flight_lookup)+

lemma in_flight_default_ok [simp]: "in_flight_ok in_flight_default"
  by (simp add: in_flight_ok_def in_flight_default_def count_for_def tasks_of_def unwrap_or_def)

datatype flight_op = Track string dispatch_record | Untrack string

fun run_flights :: "flight_op list \<Rightarrow> in_flight \<Rightarrow> in_flight" where
  "run_flights [] f = f"
| "run_flights (Track j r # ops) f = run_flights ops (in_flight_insert j r f)"
| "run_flights (Untrack j # ops) f = run_flights ops (snd (in_flight_remove j f))"

fun run_spec :: "flight_op list \<Rightarrow> (string \<rightharpoonup> dispatch_record) \<Rightarrow> (string \<rightharpoonup> dispatch_record)" where
  "run_spec [] m = m"
| "run_spec (Track j r # ops) m = run_spec ops (m(j \<mapsto> r))"
| "run_spec (Untrack j # ops) m = run_spec ops (m(j := None))"

definition tasks_fixed :: "(string \<Rightarrow> string) \<Rightarrow> flight_op list \<Rightarrow> bool" where
  "tasks_fixed task_of ops \<longleftrightarrow> (\<forall>op \<in> set ops. case op of Track j r \<Rightarrow> dr_task_name r = task_of j | Untrack j \<Rightarrow> True)"

lemma run_flights_spec:
  "in_flight_ok f \<Longrightarrow> tasks_fixed task_of ops \<Longrightarrow>
   (\<And>j r. map_of (by_job f) j = Some r \<Longrightarrow> dr_task_name r = task_of j) \<Longrightarrow>
   in_flight_ok (run_flights ops f) \<and> map_of (by_job (run_flights ops f)) = run_spec ops (map_of (by_job f))"
proof (induction ops arbitrary: f)
  case Nil
  then show ?case by simp
next
  case (Cons op ops)
  have rest: "tasks_fixed task_of ops" using Cons.prems(2) by (simp add: tasks_fixed_def)
  show ?case
  proof (cases op)
    case (Track j r)
    have tr: "dr_task_name r = task_of j" using Cons.prems(2) Track by (simp add: tasks_fixed_def)
    have ok: "in_flight_ok (in_flight_insert j r f)"
      using Cons.prems(1,3) tr by (intro flights.put_inv) simp_all
    have fixed: "map_of (by_job (in_flight_insert j r f)) j' = Some r' \<Longrightarrow> dr_task_name r' = task_of j'" for j' r'
      using Cons.prems(3) tr by (auto simp: in_flight_lookup split: if_splits)
    show ?thesis using Cons.IH [OF ok rest fixed] unfolding Track run_flights.simps run_spec.simps in_flight_lookup(1) .
  next
    case (Untrack j)
    have fixed: "map_of (by_job (snd (in_flight_remove j f))) j' = Some r' \<Longrightarrow> dr_task_name r' = task_of j'" for j' r'
      using Cons.prems(1,3) by (auto simp: in_flight_lookup split: if_splits)
    show ?thesis
      using Cons.IH [OF in_flight_remove_ok [OF Cons.prems(1), of j] rest fixed]
      unfolding Untrack run_flights.simps run_spec.simps in_flight_lookup(2) .
  qed
qed

text \<open>
  C27: the in-flight table refines a plain map. After any sequence of tracking and releasing, with
  every job keeping its task, the table holds exactly the records of the map that the same sequence
  builds, its length is the number of jobs in that map, the maintained count of every task is the
  number of its jobs, and releasing a job returns the record the map holds for it.
\<close>

theorem in_flight_refines:
  assumes "tasks_fixed task_of ops"
  shows "map_of (by_job (run_flights ops in_flight_default)) = run_spec ops Map.empty
    \<and> in_flight_len (run_flights ops in_flight_default) = card (dom (run_spec ops Map.empty))
    \<and> count_for t (run_flights ops in_flight_default)
        = card {j. \<exists>r. run_spec ops Map.empty j = Some r \<and> dr_task_name r = t}
    \<and> fst (in_flight_remove j (run_flights ops in_flight_default)) = run_spec ops Map.empty j"
proof -
  have "map_of (by_job in_flight_default) = Map.empty" by (simp add: in_flight_default_def)
  then have run: "in_flight_ok (run_flights ops in_flight_default)"
    "map_of (by_job (run_flights ops in_flight_default)) = run_spec ops Map.empty"
    using run_flights_spec [OF in_flight_default_ok assms] by simp_all
  then show ?thesis
    using flights.len_card [OF run(1)] flights.tally_card [OF run(1), of t] flights.drop_returns
    by (simp only: run(2))
qed

theorem in_flight_refines_witness:
  "let r = (\<lambda>t n. \<lparr>dr_task_name = t, dr_owner = ''w'', dr_attempt = n\<rparr>);
       ops = [Track ''a'' (r ''mail'' 0), Track ''b'' (r ''mail'' 0), Track ''a'' (r ''mail'' 1), Untrack ''b'']
   in in_flight_len (run_flights ops in_flight_default) = 1
      \<and> count_for ''mail'' (run_flights ops in_flight_default) = 1"
  using in_flight_refines [of "\<lambda>_. ''mail''" "[Track ''a'' \<lparr>dr_task_name = ''mail'', dr_owner = ''w'', dr_attempt = 0\<rparr>,
      Track ''b'' \<lparr>dr_task_name = ''mail'', dr_owner = ''w'', dr_attempt = 0\<rparr>,
      Track ''a'' \<lparr>dr_task_name = ''mail'', dr_owner = ''w'', dr_attempt = 1\<rparr>, Untrack ''b'']" "''mail''"]
  by (simp add: tasks_fixed_def in_flight_len_def Let_def)

section \<open>The handlers keep the store contract\<close>

definition keeps :: "system \<Rightarrow> system \<Rightarrow> bool" where
  "keeps sy sy' \<longleftrightarrow> keeps_store {} (sy_db sy) (sy_db sy')"

lemma keeps_sys_trans: "keeps sy sy' \<Longrightarrow> keeps sy' sy'' \<Longrightarrow> keeps sy sy''"
  by (auto simp: keeps_def intro: keeps_trans)

lemma keeps_sys_refl: "store_inv (sy_db sy) \<Longrightarrow> keeps sy sy"
  by (simp add: keeps_def keeps_refl)

lemma keeps_sys_inv: "keeps sy sy' \<Longrightarrow> store_inv (sy_db sy')"
  by (auto simp: keeps_def intro: keeps_inv)

lemma sy_db_simps [simp]:
  "sy_db (set_db d sy) = d"
  "sy_db (track_in_flight sc j t n sy) = sy_db sy" "sy_db (untrack_in_flight j sy) = sy_db sy"
  "sy_db (snd (release_in_flight sc j sy)) = sy_db sy" "sy_db (snd (authorize_finished sc j sy)) = sy_db sy"
  "sy_db (snd (retry_budget_allows h sc t sy)) = sy_db sy" "sy_db (snd (active_queues stale sc sy)) = sy_db sy"
  "sy_db (snd (check_pre_claim_gates h sc job sy)) = sy_db sy"
  by (auto simp: set_db_def track_in_flight_def untrack_in_flight_def release_in_flight_def authorize_finished_def
      retry_budget_allows_def active_queues_def check_pre_claim_gates_def Let_def case_prod_unfold
      split: option.splits sum.splits prod.splits attempt_fence.splits)

lemmas keeps_ops = keeps_complete keeps_retry keeps_reschedule keeps_mark_cancelled keeps_record_error
  keeps_dead_ops keeps_claim_ops keeps_claim_execution keeps_complete_batch keeps_dequeue_from
  keeps_dequeue_batch_from

lemma keeps_record_metric: "store_inv d \<Longrightarrow> keeps_store {} d (snd (record_metric u t n j w b ok ns d))"
  by (auto simp: record_metric_def keeps_refl split: sum.splits dest!: insert_metricD)

lemma keeps_finalize_success:
  assumes "store_inv (sy_db sy)"
  shows "keeps sy (snd (finalize_success h sc c sy))"
proof -
  define r where "r = complete (clk h 0) (k_job_id c) (k_result c) (sc_namespace sc) (sy_db sy)"
  define d1 where "d1 = snd (complete_execution (k_job_id c) (sc_namespace sc) (snd r))"
  have k: "keeps_store {} (sy_db sy) (snd r)" unfolding r_def by (rule keeps_complete [OF assms])
  have k1: "keeps_store {} (sy_db sy) d1"
    unfolding d1_def by (rule keeps_trans [OF k keeps_claim_ops(2) [OF keeps_inv [OF k]]])
  have "keeps_store {} (sy_db sy) (snd (record_metric u t n j w b ok ns d1))" for u t n j w b ok ns
    by (rule keeps_trans [OF k1 keeps_record_metric [OF keeps_inv [OF k1]]])
  with k show ?thesis
    unfolding finalize_success_def r_def [symmetric]
    by (cases r) (auto simp: keeps_def Let_def d1_def split: sum.splits)
qed

lemma keeps_note_failure: "store_inv (sy_db sy) \<Longrightarrow> keeps sy (note_failure h sc j n e t w sy)"
  unfolding keeps_def note_failure_def Let_def
  by (simp add: keeps_trans [OF keeps_record_error keeps_record_metric [OF keeps_inv [OF keeps_record_error]]])

lemma keeps_dlq_or_clear:
  assumes "store_inv (sy_db sy)"
  shows "keeps sy (snd (dlq_or_clear js h sc j job e m sy))"
  using keeps_dead_ops(1) [OF assms] keeps_claim_ops(2) [OF assms]
  by (auto simp: keeps_def dlq_or_clear_def case_prod_unfold split: option.splits)

lemma keeps_and_outcome [simp]: "keeps sy (snd (and_outcome r oc)) = keeps sy (snd r)"
  by (auto simp: and_outcome_def split: prod.splits sum.splits)

lemma keeps_set_db: "keeps sy (set_db d sy') = keeps_store {} (sy_db sy) d"
  by (simp add: keeps_def)

lemma keeps_handle_failure:
  assumes "store_inv (sy_db sy)"
  shows "keeps sy (snd (handle_failure js h sc j e n mx t w rt tm sy))"
proof -
  define sy1 where "sy1 = note_failure h sc j n e t w sy"
  obtain b sy2 where rb: "retry_budget_allows h sc t sy1 = (b, sy2)" by fastforce
  have k1: "keeps sy sy1" unfolding sy1_def by (rule keeps_note_failure [OF assms])
  have k2: "keeps sy sy2" using k1 sy_db_simps(6) [of h sc t sy1] by (simp add: keeps_def rb)
  have dlq: "keeps sy (snd (dlq_or_clear js h sc j' job e' m sy'))" if "keeps sy sy'" for j' job e' m sy'
    using that keeps_dlq_or_clear [OF keeps_sys_inv [OF that]] by (rule keeps_sys_trans)
  have retry: "keeps_store {} (sy_db sy) (snd (retry j' u ns (sy_db sy2)))" for j' u ns
    using k2 keeps_retry [OF keeps_sys_inv [OF k2]] unfolding keeps_def by (rule keeps_trans)
  show ?thesis
    using dlq [OF k1] dlq [OF k2] unfolding handle_failure_def Let_def sy1_def [symmetric] rb
    by (auto simp: keeps_set_db case_prod_unfold retry split: bool.splits sum.splits)
qed

lemma keeps_handle_result:
  assumes "store_inv (sy_db sy)"
  shows "keeps sy (snd (handle_result js h sc r sy))"
proof -
  obtain ok sy1 where a: "authorize_finished sc (jr_id r) sy = (ok, sy1)" by fastforce
  have same: "sy_db sy1 = sy_db sy" using sy_db_simps(5) [of sc "jr_id r" sy] a by simp
  have k1: "keeps sy sy1" using assms by (simp add: keeps_def same keeps_refl)
  have inv1: "store_inv (sy_db sy1)" using assms same by simp
  have c: "keeps sy1 (snd (handle_cancelled h sc j t w sy1))" for j t w
    unfolding handle_cancelled_def Let_def keeps_def
    by (simp add: keeps_trans [OF keeps_mark_cancelled [OF inv1] keeps_record_metric [OF keeps_inv [OF keeps_mark_cancelled [OF inv1]]]])
  show ?thesis
    using keeps_sys_trans [OF k1 keeps_finalize_success [OF inv1]] keeps_sys_trans [OF k1 keeps_handle_failure [OF inv1]]
      keeps_sys_trans [OF k1 c] k1
    unfolding handle_result_def a by (cases ok; cases r) simp_all
qed

section \<open>The outcome a caller is told is what happened\<close>

definition same_jobs :: "db \<Rightarrow> db \<Rightarrow> bool" where
  "same_jobs d d' \<longleftrightarrow> jobs d' = jobs d \<and> archived_jobs d' = archived_jobs d"

lemma same_jobs_status: "same_jobs d d' \<Longrightarrow> status_of d' j = status_of d j"
  by (auto simp: same_jobs_def status_of_def split: option.split)

lemma same_jobs_trans: "same_jobs d d' \<Longrightarrow> same_jobs d' d'' \<Longrightarrow> same_jobs d d''"
  by (simp add: same_jobs_def)

lemma same_jobs_get_job: "same_jobs d d' \<Longrightarrow> get_job j ns d' = get_job j ns d"
  by (auto simp: same_jobs_def get_job_def split: option.split)

lemma same_jobs_ops:
  "same_jobs d (snd (record_metric u t n j w b ok ns d))" "same_jobs d (snd (record_error u t j a e ns d))"
  "same_jobs d (snd (complete_execution j ns d))"
  by (auto simp: same_jobs_def record_metric_def record_error_def complete_execution_def split: sum.splits
      dest!: insert_metricD insert_errorD)

lemma note_failure_same: "same_jobs (sy_db sy) (sy_db (note_failure h sc j n e t w sy))"
  unfolding note_failure_def Let_def by (simp add: same_jobs_trans [OF same_jobs_ops(2) same_jobs_ops(1)])

lemma status_archive:
  assumes "store_inv d" "r_id row \<in> live_ids d"
  shows "status_of (archive_effect row d) (r_id row) = from_i32 (r_status row)"
proof -
  have "r_id row \<notin> archived_ids d" using assms by (auto simp: store_inv_def)
  then have "find_row a_id (r_id row) (archived_jobs d) = None" by (simp add: find_row_None_iff archived_ids_def)
  moreover have "find_row r_id (r_id row) (delete_where (\<lambda>r. r_id r = r_id row) (jobs d)) = None"
    by (auto simp: find_row_None_iff set_delete_where)
  ultimately show ?thesis by (simp add: status_of_def find_row_append)
qed

lemma complete_status:
  assumes "store_inv d" "complete now j res ns d = (Inr u, d')"
  shows "status_of d' j = Some Complete"
proof -
  obtain r where r: "select_running j ns d = Some r" "d' = archive_effect (completed_row now res r) d"
    using assms(2) by (auto simp: complete_eq [OF assms(1)] split: option.splits)
  then have "r \<in> set (jobs d)" "r_id r = j" by (auto dest!: select_runningD)
  then show ?thesis
    using status_archive [OF assms(1), of "completed_row now res r"] r(2)
    by (auto simp: completed_row_def live_ids_def from_i32_def)
qed

lemma retry_status:
  assumes "store_inv d" "retry j t ns d = (Inr u, d')"
  shows "status_of d' j = Some Pending \<and> j \<notin> c_job_id ` set (execution_claims d')
    \<and> (\<exists>r r'. find_row r_id j (jobs d) = Some r \<and> find_row r_id j (jobs d') = Some r'
         \<and> r_retry_count r' = r_retry_count r + 1)"
  using retry_correct [OF assms(1), where jid = j and t = t and ns = ns] assms(2)
  by (auto simp: status_of_def from_i32_iff simp del: status_code.simps)

lemma dead_letter_fold_archive: "dead_letter (fold archive_effect rows d) = dead_letter d"
  by (induction rows arbitrary: d) simp_all

lemma dead_status:
  assumes "store_inv d" "dead_letter_job js u now now' job e m sh d = (Inr x, d')" "j_id job \<in> live_ids d"
  shows "status_of d' (j_id job) = Some Dead \<and> (\<exists>row \<in> set (dead_letter d'). d_original_job_id row = j_id job)"
proof -
  define d1 where "d1 = dead_letter_effect now (new_dead_row js u now job e m sh) (j_id job) e d"
  have fresh: "u \<notin> d_id ` set (dead_letter d)"
    using assms(2)
    by (auto simp: dead_letter_job_def dead_letter_body_def insert_dead_def insert_row_def
        write_transaction_def new_dead_row_def Let_def split: if_splits)
  have d': "d' = cascade_effect now' (j_id job) ''dependency failed'' (j_namespace job) d1"
    using dead_letter_job_eq(1) [OF assms(1) fresh d1_def] assms(2) by simp
  have inv1: "store_inv d1"
    unfolding d1_def by (rule keeps_inv [OF dead_letter_body_ok(2)]) (use assms(1) fresh in simp_all)
  obtain r where r: "find_row r_id (j_id job) (jobs d) = Some r"
    using assms(3) find_row_None_iff [of r_id "j_id job" "jobs d"] by (auto simp: live_ids_def)
  have rid: "r_id r = j_id job" using r by (auto dest: find_row_SomeD)
  define d0 where "d0 = d\<lparr>dead_letter := dead_letter d @ [new_dead_row js u now job e m sh]\<rparr>"
  have d1: "d1 = archive_effect (dead_job_row now e r) d0" by (simp add: d1_def dead_letter_effect_def r Let_def d0_def)
  have "store_inv d0" using assms(1) by (simp add: d0_def)
  then have "status_of d1 (r_id (dead_job_row now e r)) = from_i32 (r_status (dead_job_row now e r))"
    unfolding d1 using assms(3) rid by (intro status_archive) (simp_all add: live_ids_def d0_def)
  then have st1: "status_of d1 (j_id job) = Some Dead" using rid by (simp add: from_i32_def)
  have gone: "find_row r_id (j_id job) (jobs d1) = None" "find_row r_id (j_id job) (jobs d') = None"
    using dead_letter_effect_jobs [of now _ "j_id job" e d] cascade_effect_jobs [OF inv1]
    by (auto simp: d1_def d' find_row_None_iff)
  then have "status_of d' (j_id job) = status_of d1 (j_id job)"
    using st1 by (auto simp: status_of_def d' cascade_effect_archived find_row_append split: option.splits)
  moreover have "dead_letter d' = dead_letter d1" by (simp add: d' cascade_effect_def dead_letter_fold_archive)
  ultimately show ?thesis
    using st1 by (auto simp: d1 d0_def new_dead_row_def Let_def)
qed

lemma cancelled_status:
  assumes "store_inv d" "find_row r_id j (jobs d) = Some r" "job_in_namespace (r_namespace r) ns"
  shows "status_of (snd (mark_cancelled now j ns d)) j = Some Cancelled"
proof -
  let ?row = "cancelled_row now ''cancelled by request'' r"
  have rid: "r_id r = j" "j \<in> live_ids d" using find_live [OF assms(2)] by auto
  have "archive_job_row ?row d = Inr (archive_effect ?row d)"
    using rid assms(1) by (intro archive_job_row_ok) (simp_all add: cancelled_row_def)
  then have "snd (mark_cancelled now j ns d) = archive_effect ?row d"
    using assms(2,3) by (simp add: mark_cancelled_def)
  then show ?thesis
    using status_archive [OF assms(1), of ?row] rid by (simp add: cancelled_row_def from_i32_def)
qed

lemma get_job_live:
  "find_row r_id j (jobs d) = Some r \<Longrightarrow> get_job j ns d \<noteq> None \<Longrightarrow>
   job_in_namespace (r_namespace r) ns \<and> get_job j ns d = Some (job_of_row r)"
  by (simp add: get_job_def split: if_splits)

lemma find_row_live_id: "j \<in> live_ids d \<Longrightarrow> \<exists>r. find_row r_id j (jobs d) = Some r"
  using find_row_None_iff [of r_id j "jobs d"] by (cases "find_row r_id j (jobs d)") (auto simp: live_ids_def)

definition retry_granted :: "job_result \<Rightarrow> bool" where
  "retry_granted r = (case r of
     JobFailure job_id error retry_count max_retries task_name wall_time_ns retryable timed_out \<Rightarrow>
       retryable \<and> retry_count < max_retries
   | _ \<Rightarrow> False)"

definition truthful :: "string option \<Rightarrow> job_result \<Rightarrow> db \<Rightarrow> db \<Rightarrow> result_outcome \<Rightarrow> bool" where
  "truthful ns r d d' oc =
     (case oc of
        OutSuccess j t w \<Rightarrow> j = jr_id r \<and> status_of d' j = Some Complete
      | OutRetry j t q e n tm w \<Rightarrow>
          j = jr_id r \<and> retry_granted r \<and> status_of d' j = Some Pending
          \<and> j \<notin> c_job_id ` set (execution_claims d')
          \<and> (\<exists>row row'. find_row r_id j (jobs d) = Some row \<and> find_row r_id j (jobs d') = Some row'
               \<and> r_retry_count row' = r_retry_count row + 1)
      | OutDeadLettered j t q e tm w \<Rightarrow>
          j = jr_id r \<and> (j \<in> live_ids d \<and> get_job j ns d \<noteq> None \<longrightarrow>
            status_of d' j = Some Dead \<and> (\<exists>row \<in> set (dead_letter d'). d_original_job_id row = j))
      | OutCancelled j t q w \<Rightarrow>
          j = jr_id r \<and> (j \<in> live_ids d \<and> get_job j ns d \<noteq> None \<longrightarrow> status_of d' j = Some Cancelled)
      | OutSuperseded j \<Rightarrow> j = jr_id r \<and> d' = d)"

lemma finalize_truthful:
  assumes "store_inv (sy_db sy)" "finalize_success h sc c sy = (Inr oc, sy')" "k_job_id c = jr_id r"
  shows "truthful ns r (sy_db sy) (sy_db sy') oc"
proof -
  obtain d where d: "complete (clk h 0) (k_job_id c) (k_result c) (sc_namespace sc) (sy_db sy) = (Inr (), d)"
    using assms(2) by (auto simp: finalize_success_def Let_def split: prod.splits sum.splits)
  let ?d1 = "snd (complete_execution (k_job_id c) (sc_namespace sc) d)"
  have res: "oc = OutSuccess (k_job_id c) (k_task_name c) (k_wall_time_ns c)"
    "sy_db sy' = snd (record_metric (ids h 0) (clk h 1) (k_task_name c) (k_job_id c) (k_wall_time_ns c) 0 True
       (sc_namespace sc) ?d1)"
    using assms(2) d by (auto simp: finalize_success_def Let_def)
  have "same_jobs d (sy_db sy')"
    unfolding res(2) by (rule same_jobs_trans [OF same_jobs_ops(3) same_jobs_ops(1)])
  then show ?thesis
    using complete_status [OF assms(1) d] assms(3) by (simp add: truthful_def res(1) same_jobs_status)
qed

lemma cancelled_truthful:
  assumes "store_inv (sy_db sy)" "handle_cancelled h sc j t w sy = (Inr oc, sy')" "j = jr_id r"
  shows "truthful (sc_namespace sc) r (sy_db sy) (sy_db sy') oc"
proof -
  let ?d1 = "snd (mark_cancelled (clk h 0) j (sc_namespace sc) (sy_db sy))"
  have res: "\<exists>q. oc = OutCancelled j t q w" "same_jobs ?d1 (sy_db sy')"
    using assms(2) same_jobs_ops(1) [of ?d1] by (auto simp: handle_cancelled_def Let_def)
  then show ?thesis
    using cancelled_status [OF assms(1)] get_job_live find_row_live_id [of j "sy_db sy"] assms(3)
    by (auto simp: truthful_def same_jobs_status)
qed

lemma dlq_truthful:
  assumes "store_inv (sy_db sy1)" "same_jobs d (sy_db sy1)" "job = get_job j (sc_namespace sc) (sy_db sy1)"
    "and_outcome (dlq_or_clear js h sc j job e m sy1) (OutDeadLettered j t q e tm w) = (Inr oc, sy')" "j = jr_id r"
  shows "truthful (sc_namespace sc) r d (sy_db sy') oc"
proof -
  have oc: "oc = OutDeadLettered j t q e tm w"
    "dlq_or_clear js h sc j job e m sy1 = (Inr (), sy')"
    using assms(4) by (auto simp: and_outcome_def split: prod.splits sum.splits)
  have "status_of (sy_db sy') j = Some Dead \<and> (\<exists>row \<in> set (dead_letter (sy_db sy')). d_original_job_id row = j)"
    if "j \<in> live_ids d" "get_job j (sc_namespace sc) d \<noteq> None"
  proof -
    from that(1) obtain row where row: "find_row r_id j (jobs d) = Some row" by (blast dest: find_row_live_id)
    then have "job = Some (job_of_row row)"
      using get_job_live [OF row that(2)] same_jobs_get_job [OF assms(2)] assms(3) by simp
    then have "move_to_dlq js (ids h 2) (clk h 3) (clk h 4) (job_of_row row) e m (sy_db sy1) = (Inr (), sy_db sy')"
      using oc(2) by (auto simp: dlq_or_clear_def split: prod.splits)
    moreover have "j_id (job_of_row row) = j" "j \<in> live_ids (sy_db sy1)"
      using row that(1) assms(2) by (auto simp: same_jobs_def live_ids_def dest: find_row_SomeD)
    ultimately show ?thesis using dead_status [OF assms(1)] unfolding move_to_dlq_def by metis
  qed
  then show ?thesis using assms(5) by (simp add: truthful_def oc(1))
qed

lemma failure_truthful:
  assumes "store_inv (sy_db sy)" "handle_failure js h sc j e n mx t w rt tm sy = (Inr oc, sy')"
    "r = JobFailure j e n mx t w rt tm"
  shows "truthful (sc_namespace sc) r (sy_db sy) (sy_db sy') oc"
proof -
  define sy1 where "sy1 = note_failure h sc j n e t w sy"
  obtain b sy2 where rb: "retry_budget_allows h sc t sy1 = (b, sy2)" by fastforce
  have db2: "sy_db sy2 = sy_db sy1" using sy_db_simps(6) [of h sc t sy1] by (simp add: rb)
  have same: "same_jobs (sy_db sy) (sy_db sy1)" unfolding sy1_def by (rule note_failure_same)
  have inv1: "store_inv (sy_db sy1)" using keeps_sys_inv [OF keeps_note_failure [OF assms(1)]] by (simp add: sy1_def)
  note dlq = dlq_truthful [OF _ _ refl, where r = r and js = js and h = h]
  note unfolded = assms(2) [unfolded handle_failure_def Let_def sy1_def [symmetric] rb prod.case]
  show ?thesis
  proof (cases "rt \<and> n < mx \<and> b")
    case True
    then obtain d where d: "retry j (next_retry_at (rnd h 0) (clk h 6) (case map_of (sc_task_configs sc) t of
        Some c \<Rightarrow> tc_retry_policy c | None \<Rightarrow> default_retry_policy) n) (sc_namespace sc) (sy_db sy1) = (Inr (), d)"
      "sy_db sy' = d" "\<exists>q. oc = OutRetry j t q e n tm w"
      using unfolded by (auto simp: db2 split: prod.splits sum.splits)
    then show ?thesis
      using retry_status [OF inv1 d(1)] same True
      by (auto simp: truthful_def assms(3) retry_granted_def same_jobs_def)
  next
    case False
    then show ?thesis
      using unfolded dlq [OF inv1 same] dlq [of sy2 "sy_db sy"] inv1 same
      by (auto simp: db2 assms(3) split: if_splits)
  qed
qed

lemma handler_in_flight:
  "sy_in_flight (snd (finalize_success h sc c sy)) = sy_in_flight sy"
  "sy_in_flight (snd (handle_cancelled h sc j t w sy)) = sy_in_flight sy"
  "sy_in_flight (note_failure h sc j n e t w sy) = sy_in_flight sy"
  "sy_in_flight (snd (retry_budget_allows h sc t sy)) = sy_in_flight sy"
  "sy_in_flight (snd (dlq_or_clear js h sc j job e m sy)) = sy_in_flight sy"
  by (auto simp: finalize_success_def handle_cancelled_def note_failure_def retry_budget_allows_def
      dlq_or_clear_def set_db_def Let_def case_prod_unfold split: sum.splits option.splits)

lemma failure_in_flight: "sy_in_flight (snd (handle_failure js h sc j e n mx t w rt tm sy)) = sy_in_flight sy"
proof -
  have "sy_in_flight (snd (and_outcome x oc)) = sy_in_flight (snd x)" for x oc
    by (auto simp: and_outcome_def split: prod.splits sum.splits)
  then show ?thesis
    using handler_in_flight(4) [of h sc t "note_failure h sc j n e t w sy"]
    by (auto simp: handle_failure_def Let_def handler_in_flight(3,5) set_db_def split: prod.splits bool.splits sum.splits)
qed

lemma result_in_flight:
  "sy_in_flight (snd (handle_result js h sc r sy)) = snd (in_flight_remove (jr_id r) (sy_in_flight sy))"
proof -
  obtain ok sy1 where a: "authorize_finished sc (jr_id r) sy = (ok, sy1)" by fastforce
  have "sy_in_flight sy1 = snd (in_flight_remove (jr_id r) (sy_in_flight sy))"
    using a by (auto simp: authorize_finished_def release_in_flight_def Let_def case_prod_unfold
        split: option.splits sum.splits attempt_fence.splits)
  then show ?thesis
    unfolding handle_result_def a by (cases ok; cases r) (simp_all add: handler_in_flight failure_in_flight)
qed

text \<open>
  C8: the outcome handed to the caller is what happened to the job. A success means the job is
  archived as complete; a retry means the failure was retryable with attempts left, and the job is
  pending again with one more attempt counted and no claim; a dead-lettering of a live job means it
  is archived as dead with an entry in the dead-letter queue; a cancellation of a live job means it
  is archived as cancelled; a superseded result means nothing was written. Whatever happens, errors
  included, the store stays well-formed and the job's in-flight slot is free afterwards.
\<close>

theorem result_outcome_truthful:
  assumes "store_inv (sy_db sy)" "in_flight_ok (sy_in_flight sy)" "handle_result js h sc r sy = (res, sy')"
  shows "(case res of Inr oc \<Rightarrow> truthful (sc_namespace sc) r (sy_db sy) (sy_db sy') oc | Inl e \<Rightarrow> True)
    \<and> store_inv (sy_db sy') \<and> in_flight_ok (sy_in_flight sy') \<and> map_of (by_job (sy_in_flight sy')) (jr_id r) = None"
proof -
  obtain ok sy1 where a: "authorize_finished sc (jr_id r) sy = (ok, sy1)" by fastforce
  have db1: "sy_db sy1 = sy_db sy" using sy_db_simps(5) [of sc "jr_id r" sy] a by simp
  have inv1: "store_inv (sy_db sy1)" using assms(1) db1 by simp
  have "truthful (sc_namespace sc) r (sy_db sy) (sy_db sy') oc" if "res = Inr oc" for oc
  proof (cases ok)
    case False
    then show ?thesis using assms(3) that db1 by (auto simp: handle_result_def a truthful_def)
  next
    case True
    note run = assms(3) [unfolded handle_result_def a that]
    show ?thesis
    proof (cases r)
      case (JobSuccess j b t w)
      then have "finalize_success h sc \<lparr>k_job_id = j, k_result = b, k_task_name = t, k_wall_time_ns = w\<rparr> sy1 = (Inr oc, sy')"
        using run True by simp
      from finalize_truthful [OF inv1 this, of r] JobSuccess show ?thesis by (simp add: db1)
    next
      case (JobFailure j e n mx t w rt tm)
      then have "handle_failure js h sc j e n mx t w rt tm sy1 = (Inr oc, sy')" using run True by simp
      from failure_truthful [OF inv1 this JobFailure] show ?thesis by (simp only: db1)
    next
      case (JobCancelled j t w)
      then have "handle_cancelled h sc j t w sy1 = (Inr oc, sy')" "j = jr_id r" using run True by simp_all
      from cancelled_truthful [OF inv1 this] show ?thesis by (simp only: db1)
    qed
  qed
  then show ?thesis
    using keeps_sys_inv [OF keeps_handle_result [OF assms(1), of js h sc r]] result_in_flight [of js h sc r sy]
      in_flight_remove_ok [OF assms(2), of "jr_id r"] in_flight_lookup(2) [of "jr_id r" "sy_in_flight sy"]
    by (auto simp: assms(3) split: sum.splits)
qed

section \<open>A small system\<close>

definition demo_scheduler :: scheduler where
  "demo_scheduler = \<lparr>sc_task_configs = [(''t'', default_task_config)], sc_queue_configs = [], sc_codel_configs = [],
     sc_dispatch_orders = [], sc_queues = [''default''], sc_namespace = None, sc_claim_owner = ''w'',
     sc_batch_size = 1, sc_max_in_flight = Some 2, sc_capacity = 4\<rparr>"

definition demo_host :: host where
  "demo_host = \<lparr>clk = (\<lambda>_. 20), ids = (\<lambda>n. ''id'' @ string_of_nat n), rnd = (\<lambda>_. 0)\<rparr>"

definition demo_system :: "db \<Rightarrow> system" where
  "demo_system d = \<lparr>sy_db = d, sy_buckets = [], sy_breakers = [], sy_queue_state = [], sy_paused_cache = [],
     sy_codel_states = [],
     sy_in_flight = in_flight_insert ''a'' \<lparr>dr_task_name = ''t'', dr_owner = ''w'', dr_attempt = 0\<rparr> in_flight_default,
     sy_channel = [], sy_closed = False, sy_wake = False\<rparr>"

lemma demo_in_flight_ok: "in_flight_ok (sy_in_flight (demo_system d))"
  using in_flight_insert_ok [OF in_flight_default_ok, of "''a''"]
  by (simp add: demo_system_def in_flight_default_def)

theorem result_outcome_truthful_witness:
  "let (res, sy') = handle_result no_json demo_host demo_scheduler (JobSuccess ''a'' None ''t'' 5) (demo_system running_db)
   in res = Inr (OutSuccess ''a'' ''t'' 5) \<and> status_of (sy_db sy') ''a'' = Some Complete
      \<and> in_flight_len (sy_in_flight sy') = 0"
proof -
  let ?r = "JobSuccess ''a'' None ''t'' 5"
  obtain res sy' where run: "handle_result no_json demo_host demo_scheduler ?r (demo_system running_db) = (res, sy')"
    by fastforce
  have inv: "store_inv (sy_db (demo_system running_db))" by (simp add: demo_system_def store_inv_running)
  have "res = Inr (OutSuccess ''a'' ''t'' 5)"
    using run complete_eq [OF store_inv_running, of 20 "''a''" None None]
    by (simp add: handle_result_def authorize_finished_def release_in_flight_def demo_system_def demo_scheduler_def
        demo_host_def in_flight_insert_def in_flight_remove_def in_flight_default_def Let_def authorize_attempt_def
        resolve_step_fence_def running_db_def sample_db_def job_in_namespace_def claimed_row_def finalize_success_def
        select_running_def in_scope_def count_for_def unwrap_or_def)
  moreover have "in_flight_len (sy_in_flight sy') = 0"
    using result_in_flight [of no_json demo_host demo_scheduler ?r "demo_system running_db"] run
    by (simp add: demo_system_def in_flight_insert_def in_flight_remove_def in_flight_default_def Let_def in_flight_len_def
        count_for_def unwrap_or_def)
  ultimately show ?thesis
    using result_outcome_truthful [OF inv demo_in_flight_ok run] by (simp add: run truthful_def)
qed

end
