(* ===== verification/Dispatching.thy ===== *)
theory Dispatching
  imports Scheduler
begin

text \<open>
  Correctness of the dispatch pipeline of \<open>Scheduler\<close>: a dispatch round never exceeds the
  in-flight caps and the capacity of the worker channel, and every job it takes from the store is
  handed over under this scheduler's claim, put back without losing an attempt, shed to the
  dead-letter queue, or left to the scheduler that owns its claim.
\<close>

section \<open>The capacity of the in-flight table\<close>

lemma length_update_le: "length (AList.update k v xs) \<le> Suc (length xs)"
  by (induction xs) auto

lemma in_flight_len_insert: "in_flight_len (in_flight_insert j r f) \<le> Suc (in_flight_len f)"
  by (simp add: in_flight_len_def in_flight_insert_def Let_def length_update_le)

lemma in_flight_len_remove: "in_flight_len (snd (in_flight_remove j f)) \<le> in_flight_len f"
  by (auto simp: in_flight_len_def in_flight_remove_def Let_def length_delete_le split: option.splits)

lemma count_for_insert:
  "count_for t (in_flight_insert j r f) \<le> (if t = dr_task_name r then Suc (count_for t f) else count_for t f)"
  by (auto simp: count_for_def in_flight_insert_def Let_def update_conv' unwrap_or_def)

lemma count_for_remove: "count_for t (snd (in_flight_remove j f)) \<le> count_for t f"
  by (auto simp: count_for_def in_flight_remove_def Let_def update_conv' delete_conv' unwrap_or_def
      split: option.splits)

definition task_cap :: "scheduler \<Rightarrow> string \<Rightarrow> nat option" where
  "task_cap sc t = Option.bind (map_of (sc_task_configs sc) t) tc_max_in_flight_per_task"

definition caps_ok :: "scheduler \<Rightarrow> system \<Rightarrow> bool" where
  "caps_ok sc sy \<longleftrightarrow>
     (\<forall>n. sc_max_in_flight sc = Some n \<longrightarrow> in_flight_len (sy_in_flight sy) \<le> n) \<and>
     length (sy_channel sy) \<le> sc_capacity sc \<and>
     (\<forall>t m. task_cap sc t = Some m \<longrightarrow> count_for t (sy_in_flight sy) \<le> m)"

text \<open>What one job's dispatch may use: one slot, and only within the channel and the task's cap.\<close>

definition uses_slots :: "scheduler \<Rightarrow> nat \<Rightarrow> system \<Rightarrow> system \<Rightarrow> bool" where
  "uses_slots sc n sy sy' \<longleftrightarrow>
     in_flight_len (sy_in_flight sy') \<le> in_flight_len (sy_in_flight sy) + n \<and>
     (length (sy_channel sy) \<le> sc_capacity sc \<longrightarrow> length (sy_channel sy') \<le> sc_capacity sc) \<and>
     (\<forall>t m. task_cap sc t = Some m \<longrightarrow> count_for t (sy_in_flight sy) \<le> m \<longrightarrow> count_for t (sy_in_flight sy') \<le> m)"

definition same_io :: "system \<Rightarrow> system \<Rightarrow> bool" where
  "same_io sy sy' \<longleftrightarrow> sy_in_flight sy' = sy_in_flight sy \<and> sy_channel sy' = sy_channel sy \<and> sy_closed sy' = sy_closed sy"

lemma same_io_slots: "same_io sy sy' \<Longrightarrow> uses_slots sc n sy sy'"
  by (auto simp: same_io_def uses_slots_def)

lemma slots_trans: "uses_slots sc n sy sy' \<Longrightarrow> uses_slots sc m sy' sy'' \<Longrightarrow> uses_slots sc (n + m) sy sy''"
  by (auto simp: uses_slots_def)

lemma same_io_refl [simp]: "same_io sy sy"
  by (simp add: same_io_def)

lemma same_io_trans: "same_io sy sy' \<Longrightarrow> same_io sy' sy'' \<Longrightarrow> same_io sy sy''"
  by (simp add: same_io_def)

lemma same_io_steps [simp]:
  "same_io sy (set_db d sy') = same_io sy sy'"
  "same_io sy (snd (check_pre_claim_gates h sc job sy))"
  "same_io sy (snd (active_queues stale sc sy))"
  "same_io sy (snd (claim_for_dispatch h sc job sy))"
  "same_io sy (snd (rollback_claim_and_reschedule sc j t sy))"
  "same_io sy (snd (shed_rate_limited js h sc job reason claimed sy))"
  by (auto simp: same_io_def set_db_def check_pre_claim_gates_def active_queues_def claim_for_dispatch_def
      rollback_claim_and_reschedule_def shed_rate_limited_def Let_def case_prod_unfold
      split: option.splits sum.splits prod.splits bool.splits)

lemma put_back_io: "same_io sy (snd (snd (put_back sc h now delay job counts sy)))"
  using same_io_steps(5) [of sy sc "j_id job" "wrapping_add now (desync_delay (rnd h 0) delay)"]
  by (auto simp: put_back_def simp del: same_io_steps split: prod.splits sum.splits)

lemma finish_dispatch_slots: "uses_slots sc 1 sy (snd (snd (finish_dispatch h sc now job counts sy)))"
proof -
  let ?f = "sy_in_flight sy"
  let ?rec = "\<lparr>dr_task_name = j_task_name job, dr_owner = sc_claim_owner sc, dr_attempt = j_retry_count job\<rparr>"
  let ?f1 = "in_flight_insert (j_id job) ?rec ?f"
  define sy1 where "sy1 = track_in_flight sc (j_id job) (j_task_name job) (j_retry_count job) sy"
  have sy1: "sy_in_flight sy1 = ?f1" "sy_channel sy1 = sy_channel sy" "sy_closed sy1 = sy_closed sy"
    by (simp_all add: sy1_def track_in_flight_def)
  obtain ok c where ck: "check_post_claim_concurrency sc job counts sy = (ok, c)" by fastforce
  show ?thesis
  proof (cases ok)
    case False
    then show ?thesis
      by (simp add: finish_dispatch_def ck same_io_slots [OF put_back_io])
  next
    case True
    have room: "count_for (j_task_name job) ?f < m" if "task_cap sc (j_task_name job) = Some m" for m
      using ck True that
      by (auto simp: check_post_claim_concurrency_def task_cap_def task_in_flight_def Let_def case_prod_unfold
          split: option.splits if_splits)
    have caps: "count_for t ?f1 \<le> m" if "task_cap sc t = Some m" "count_for t ?f \<le> m" for t m
      using room [of m] that count_for_insert [of t "j_id job" ?rec ?f] by (auto split: if_splits)
    show ?thesis
    proof (cases "sy_closed sy \<or> sc_capacity sc \<le> length (sy_channel sy)")
      case full: True
      let ?sy2 = "untrack_in_flight (j_id job) sy1"
      have fl: "sy_in_flight ?sy2 = snd (in_flight_remove (j_id job) ?f1)" by (simp add: untrack_in_flight_def sy1)
      have "uses_slots sc 1 sy ?sy2"
        unfolding uses_slots_def fl
        using le_trans [OF in_flight_len_remove in_flight_len_insert, of "j_id job" "j_id job" ?rec ?f]
          le_trans [OF count_for_remove caps]
        by (simp add: untrack_in_flight_def sy1)
      moreover have "uses_slots sc 0 ?sy2 (snd (snd (put_back sc h now CHANNEL_BACKPRESSURE_RETRY_DELAY_MS job c ?sy2)))"
        by (rule same_io_slots [OF put_back_io])
      ultimately show ?thesis
        using full by (simp add: finish_dispatch_def ck True sy1_def [symmetric] Let_def sy1 slots_trans [where n = 1 and m = 0, simplified])
    next
      case False
      then show ?thesis
        using in_flight_len_insert [of "j_id job" ?rec ?f] caps
        by (auto simp: finish_dispatch_def ck True sy1_def [symmetric] Let_def sy1 uses_slots_def)
    qed
  qed
qed

lemma gate_and_dispatch_slots: "uses_slots sc 1 sy (snd (snd (gate_and_dispatch js h sc now job counts sy)))"
proof -
  obtain g sy1 where g: "check_pre_claim_gates h sc job sy = (g, sy1)" by fastforce
  have io1: "same_io sy sy1" using same_io_steps(2) [of sy h sc job] by (simp add: g)
  obtain c sy2 where c: "claim_for_dispatch h sc job sy1 = (c, sy2)" by fastforce
  have io2: "same_io sy sy2" using same_io_trans [OF io1] same_io_steps(4) [of sy1 h sc job] by (simp add: c)
  have shed: "same_io sy (snd (shed_rate_limited js h sc job reason False sy1))" for reason
    by (rule same_io_trans [OF io1 same_io_steps(6)])
  note pback = same_io_trans [OF io2 put_back_io]
  have fin: "uses_slots sc 1 sy (snd (snd (finish_dispatch h sc now job counts sy2)))"
    using slots_trans [OF same_io_slots [OF io2, of sc 0] finish_dispatch_slots] by simp
  show ?thesis
    using shed fin pback io1 io2
    by (auto simp: gate_and_dispatch_def g c Let_def case_prod_unfold intro!: same_io_slots
        split: gate_decision.splits claim_outcome.splits sum.splits)
qed

lemma dispatch_claimed_slots: "uses_slots sc 1 sy (snd (snd (dispatch_claimed js h sc now job counts sy)))"
proof -
  obtain g sy1 where g: "check_pre_claim_gates h sc job sy = (g, sy1)" by fastforce
  have io1: "same_io sy sy1" using same_io_steps(2) [of sy h sc job] by (simp add: g)
  have shed: "same_io sy (snd (shed_rate_limited js h sc job reason True sy1))" for reason
    by (rule same_io_trans [OF io1 same_io_steps(6)])
  note pback = same_io_trans [OF io1 put_back_io]
  have fin: "uses_slots sc 1 sy (snd (snd (finish_dispatch h sc now job counts sy1)))"
    using slots_trans [OF same_io_slots [OF io1, of sc 0] finish_dispatch_slots] by simp
  show ?thesis
    using shed fin pback
    by (auto simp: dispatch_claimed_def g Let_def case_prod_unfold intro!: same_io_slots
        split: gate_decision.splits sum.splits)
qed

lemma dispatch_each_slots:
  assumes "\<And>i job counts sy. uses_slots sc 1 sy (snd (snd (f i job counts sy)))"
  shows "uses_slots sc (length batch) sy (snd (dispatch_each f i batch counts sy))"
proof (induction batch arbitrary: i counts sy)
  case (Cons job batch)
  obtain r c sy1 where s: "f i job counts sy = (r, c, sy1)" by (metis prod.collapse)
  have "uses_slots sc 1 sy sy1" using assms [of sy i job counts] by (simp add: s)
  from slots_trans [OF this Cons.IH [of sy1 "Suc i" c]] show ?case
    by (simp add: s case_prod_unfold Let_def)
qed (simp add: same_io_slots)

section \<open>A round stays within its budget\<close>

lemma batch_loop_length:
  "batch_loop now n claimed rows d = Inr (js, d') \<Longrightarrow> length claimed \<le> n \<Longrightarrow> length js \<le> n"
proof (induction now n claimed rows d rule: batch_loop.induct)
  case (2 now n claimed row rows d)
  show ?case
  proof (cases "length claimed = n")
    case False
    with 2 show ?thesis by (cases "try_claim now row d") (auto simp: and_then_def split: option.splits)
  qed (use "2.prems" in auto)
qed auto

lemma dequeue_batch_ordered_length:
  "dequeue_batch_ordered q now ns n order d = (Inr js, d') \<Longrightarrow> length js \<le> n"
  using batch_loop_length [where claimed = "[]"]
  by (fastforce simp: dequeue_batch_ordered_def write_transaction_def Let_def split: if_splits sum.splits)

lemma dequeue_batch_from_loop_length:
  "dequeue_batch_from_loop claimed qs now ns n orders d = (Inr js, d') \<Longrightarrow> length claimed \<le> n \<Longrightarrow> length js \<le> n"
proof (induction claimed qs now ns n orders d rule: dequeue_batch_from_loop.induct)
  case (2 claimed q qs now ns n orders d)
  obtain r d1 where r: "dequeue_batch_ordered q now ns (n - length claimed) (order_for orders q) d = (r, d1)" by fastforce
  show ?case
  proof (cases "n \<le> length claimed")
    case False
    with "2.prems" r obtain b where b: "r = Inr b" "dequeue_batch_from_loop (claimed @ b) qs now ns n orders d1 = (Inr js, d')"
      by (auto split: sum.splits)
    have "length b \<le> n - length claimed" using r b(1) dequeue_batch_ordered_length by blast
    with "2.IH" [OF False r [symmetric] refl b(1) b(2)] False show ?thesis by simp
  qed (use "2.prems" in auto)
qed auto

lemma codel_loop_frame:
  "codel_loop js hs sc i now batch sy = (Inr kept, sy') \<Longrightarrow> length kept \<le> length batch"
  "same_io sy (snd (codel_loop js hs sc i now batch sy))"
proof (induction batch arbitrary: i sy kept sy')
  case (Cons job batch)
  note splits = option.splits sum.splits prod.splits if_splits
  { case 1
    then show ?case using Cons.IH(1) by (fastforce simp: Let_def split: splits intro: le_SucI) }
  { case 2
    have k: "same_io sy1 (snd (codel_loop js hs sc (Suc i) now batch sy1))" for sy1 by (rule Cons.IH(2))
    have st: "same_io sy (sy\<lparr>sy_codel_states := x\<rparr>)" for x by (simp add: same_io_def)
    show ?case using k [of sy] same_io_trans [OF st k]
        by (auto simp: Let_def case_prod_unfold st same_io_trans [OF _ k] split: option.splits sum.splits) }
qed auto

lemma codel_admit_frame:
  "codel_admit js hs sc now batch sy = (Inr kept, sy') \<Longrightarrow> length kept \<le> length batch"
  "same_io sy (snd (codel_admit js hs sc now batch sy))"
  using codel_loop_frame by (auto simp: codel_admit_def split: if_splits)

lemma caps_slots:
  assumes "caps_ok sc sy" "uses_slots sc n sy sy'" "\<And>m. in_flight_remaining sc sy = Some m \<Longrightarrow> n \<le> m"
  shows "caps_ok sc sy'"
  using assms by (fastforce simp: caps_ok_def uses_slots_def in_flight_remaining_def)

lemma try_dispatch_caps:
  assumes "caps_ok sc sy"
  shows "caps_ok sc (snd (try_dispatch js h hs stale now sc sy))"
proof -
  obtain qs sy1 where q: "active_queues stale sc sy = (qs, sy1)" by fastforce
  have io1: "same_io sy sy1" using same_io_steps(3) [of sy stale sc] by (simp add: q)
  have rem: "in_flight_remaining sc sy1 = in_flight_remaining sc sy"
    using io1 by (simp add: in_flight_remaining_def same_io_def)
  have io: "caps_ok sc sy'" if "same_io sy sy'" for sy'
    using assms same_io_slots [OF that, of sc 0] by (rule caps_slots) simp
  show ?thesis
  proof (cases "qs = [] \<or> in_flight_remaining sc sy1 = Some 0 \<or> sc_capacity sc \<le> length (sy_channel sy1)")
    case True
    then show ?thesis using io [OF io1] by (auto simp: try_dispatch_def q)
  next
    case go: False
    obtain r d where r: "dequeue_from qs now (sc_namespace sc) (map_of (sc_dispatch_orders sc)) (sy_db sy1) = (r, d)" by fastforce
    have io2: "same_io sy (set_db d sy1)" using io1 by simp
    define a where "a job = fst (codel_admit js hs sc now [job] (set_db d sy1))" for job
    define sy2 where "sy2 job = snd (codel_admit js hs sc now [job] (set_db d sy1))" for job
    have a: "codel_admit js hs sc now [job] (set_db d sy1) = (a job, sy2 job)" for job by (simp add: a_def sy2_def)
    have io3: "same_io sy (sy2 job)" for job
      using same_io_trans [OF io2 codel_admit_frame(2) [of "set_db d sy1" js hs sc now "[job]"]] by (simp add: a)
    have one: "1 \<le> m" if "in_flight_remaining sc sy = Some m" for m using go that rem by auto
    have last: "caps_ok sc (snd (snd (gate_and_dispatch js h sc now j gate_counts_default (sy2 job))))" for j job
      by (rule caps_slots [OF assms _ one])
        (use slots_trans [OF same_io_slots [OF io3, of sc 0] gate_and_dispatch_slots] in simp)
    show ?thesis
      using go last io [OF io2] io [OF io3]
      by (auto simp: try_dispatch_def q r a Let_def case_prod_unfold split: sum.splits option.splits list.splits)
  qed
qed

lemma try_dispatch_batch_caps:
  assumes "caps_ok sc sy"
  shows "caps_ok sc (snd (try_dispatch_batch js hs hc stale now claim_now sc sy))"
proof -
  obtain qs sy1 where q: "active_queues stale sc sy = (qs, sy1)" by fastforce
  have io1: "same_io sy sy1" using same_io_steps(3) [of sy stale sc] by (simp add: q)
  have rem: "in_flight_remaining sc sy1 = in_flight_remaining sc sy"
    using io1 by (simp add: in_flight_remaining_def same_io_def)
  have io: "caps_ok sc sy'" if "same_io sy sy'" for sy'
    using assms same_io_slots [OF that, of sc 0] by (rule caps_slots) simp
  obtain r d where r: "dequeue_batch_from qs now (sc_namespace sc) (dispatch_budget sc sy1)
      (map_of (sc_dispatch_orders sc)) (sy_db sy1) = (r, d)" by fastforce
  have io2: "same_io sy (set_db d sy1)" using io1 by simp
  define a where "a batch = fst (codel_admit js hc sc now batch (set_db d sy1))" for batch
    define sy2 where "sy2 batch = snd (codel_admit js hc sc now batch (set_db d sy1))" for batch
    have a: "codel_admit js hc sc now batch (set_db d sy1) = (a batch, sy2 batch)" for batch by (simp add: a_def sy2_def)
  have io3: "same_io sy (sy2 batch)" for batch
    using same_io_trans [OF io2 codel_admit_frame(2) [of "set_db d sy1" js hc sc now batch]] by (simp add: a)
  have budget: "length kept \<le> m"
    if "r = Inr batch" "a batch = Inr kept" "in_flight_remaining sc sy = Some m" for batch kept m
  proof -
    have "length kept \<le> length batch" using codel_admit_frame(1) a that(2) by metis
    also have "length batch \<le> dispatch_budget sc sy1"
      using r that(1) dequeue_batch_from_loop_length [where claimed = "[]"] by (simp add: dequeue_batch_from_def)
    also have "\<dots> \<le> m" using that(3) rem by (simp add: dispatch_budget_def Let_def)
    finally show ?thesis .
  qed
  have each: "caps_ok sc (snd (dispatch_each f 0 js' gate_counts_default (set_db d' (sy2 batch))))"
    if "\<And>i job counts sy. uses_slots sc 1 sy (snd (snd (f i job counts sy)))" "r = Inr batch" "a batch = Inr kept"
      "length js' \<le> length kept" for f js' d' batch kept
    by (rule caps_slots [OF assms slots_trans [OF same_io_slots [of _ _ sc 0] dispatch_each_slots]])
      (use that io3 budget [OF that(2,3)] in \<open>auto intro: le_trans\<close>)
  have fewer: "length (map fst (filter snd (zip kept flags))) \<le> length kept" for kept :: "job list" and flags
    by (metis length_filter_le length_map length_zip min.cobounded1 le_trans)
  have e1: "caps_ok sc (snd (dispatch_each (\<lambda>i. gate_and_dispatch js (hs i) sc now) 0 kept gate_counts_default
      (set_db d' (sy2 batch))))" if "r = Inr batch" "a batch = Inr kept" for d' batch kept
    by (rule each [OF gate_and_dispatch_slots that order_refl])
  have e2: "caps_ok sc (snd (dispatch_each (\<lambda>i. dispatch_claimed js (hs i) sc now) 0
      (map fst (filter snd (zip kept flags))) gate_counts_default (set_db d' (sy2 batch))))"
    if "r = Inr batch" "a batch = Inr kept" for d' batch kept flags
    by (rule each [OF dispatch_claimed_slots that fewer])
  show ?thesis
    using io [OF io1] io [OF io2] io [OF io3] e1 e2
    by (auto simp: try_dispatch_batch_def q r a Let_def case_prod_unfold simp del: dispatch_each.simps
        split: sum.splits list.splits)
qed

section \<open>A round keeps the store contract\<close>

lemma keeps_same_db: "store_inv (sy_db sy) \<Longrightarrow> sy_db sy' = sy_db sy \<Longrightarrow> keeps sy sy'"
  by (simp add: keeps_def keeps_refl)

lemma keeps_rollback: "store_inv (sy_db sy) \<Longrightarrow> keeps sy (snd (rollback_claim_and_reschedule sc j t sy))"
  using keeps_claim_ops(2) [of "sy_db sy" j "sc_namespace sc"]
  by (auto simp: rollback_claim_and_reschedule_def keeps_def case_prod_unfold
      intro: keeps_trans [OF _ keeps_reschedule [OF keeps_inv]] split: sum.splits)

lemma keeps_put_back:
  assumes "store_inv (sy_db sy)"
  shows "keeps sy (snd (snd (put_back sc h now delay job counts sy)))"
  using keeps_rollback [OF assms, of sc "j_id job" "wrapping_add now (desync_delay (rnd h 0) delay)"]
  by (auto simp: put_back_def case_prod_unfold split: sum.splits)

lemma keeps_shed_rate_limited:
  assumes "store_inv (sy_db sy)"
  shows "keeps sy (snd (shed_rate_limited js h sc job reason claimed sy))"
  using keeps_dead_ops(2) [OF assms] keeps_claim_ops(2) [OF assms, of "j_id job" "sc_namespace sc"]
  by (auto simp: shed_rate_limited_def keeps_def Let_def case_prod_unfold
      intro: keeps_trans [OF _ keeps_dead_ops(2) [OF keeps_inv]])

lemma keeps_claim_for_dispatch:
  assumes "store_inv (sy_db sy)"
  shows "keeps sy (snd (claim_for_dispatch h sc job sy))"
  using keeps_claim_execution [OF assms, of "clk h 5" "j_id job" "sc_claim_owner sc"]
  by (auto simp: claim_for_dispatch_def keeps_def split: prod.splits sum.splits bool.splits)

lemma keeps_finish_dispatch:
  assumes "store_inv (sy_db sy)"
  shows "keeps sy (snd (snd (finish_dispatch h sc now job counts sy)))"
proof -
  let ?sy1 = "untrack_in_flight (j_id job) (track_in_flight sc (j_id job) (j_task_name job) (j_retry_count job) sy)"
  have "keeps sy (snd (snd (put_back sc h now CHANNEL_BACKPRESSURE_RETRY_DELAY_MS job c ?sy1)))" for c
    using keeps_put_back [of ?sy1] assms by (simp add: keeps_def)
  moreover have "keeps sy (track_in_flight sc (j_id job) (j_task_name job) (j_retry_count job) sy\<lparr>sy_channel := x\<rparr>)" for x
    by (rule keeps_same_db [OF assms]) (simp add: track_in_flight_def)
  ultimately show ?thesis
    using keeps_put_back [OF assms]
    by (auto simp: finish_dispatch_def Let_def split: prod.splits bool.splits)
qed

lemma keeps_dispatch_job:
  assumes "store_inv (sy_db sy)"
  shows "keeps sy (snd (snd (gate_and_dispatch js h sc now job counts sy)))"
    and "keeps sy (snd (snd (dispatch_claimed js h sc now job counts sy)))"
proof -
  obtain g sy1 where g: "check_pre_claim_gates h sc job sy = (g, sy1)" by fastforce
  have db1: "sy_db sy1 = sy_db sy" using sy_db_simps(8) [of h sc job sy] by (simp add: g)
  have k1: "keeps sy sy1" by (rule keeps_same_db [OF assms db1])
  have inv1: "store_inv (sy_db sy1)" using assms db1 by simp
  obtain c sy2 where c: "claim_for_dispatch h sc job sy1 = (c, sy2)" by fastforce
  have k2: "keeps sy sy2" using keeps_sys_trans [OF k1 keeps_claim_for_dispatch [OF inv1, of h sc job]] by (simp add: c)
  note inv2 = keeps_sys_inv [OF k2]
  have shed: "keeps sy (snd (shed_rate_limited js h sc job reason b sy1))" for reason b
    by (rule keeps_sys_trans [OF k1 keeps_shed_rate_limited [OF inv1]])
  have resched: "keeps sy (set_db (snd (reschedule j t (sy_db sy1))) sy1)" for j t
    using keeps_reschedule [OF inv1] by (simp add: keeps_def db1)
  show "keeps sy (snd (snd (gate_and_dispatch js h sc now job counts sy)))"
    using shed resched keeps_sys_trans [OF k2 keeps_finish_dispatch [OF inv2]] keeps_sys_trans [OF k2 keeps_put_back [OF inv2]] k2
    by (auto simp: gate_and_dispatch_def g c Let_def case_prod_unfold
        split: gate_decision.splits claim_outcome.splits sum.splits)
  show "keeps sy (snd (snd (dispatch_claimed js h sc now job counts sy)))"
    using shed keeps_sys_trans [OF k1 keeps_finish_dispatch [OF inv1]] keeps_sys_trans [OF k1 keeps_put_back [OF inv1]]
    by (auto simp: dispatch_claimed_def g Let_def case_prod_unfold split: gate_decision.splits sum.splits)
qed

lemma keeps_dispatch_each:
  assumes "\<And>i job counts sy. store_inv (sy_db sy) \<Longrightarrow> keeps sy (snd (snd (f i job counts sy)))" "store_inv (sy_db sy)"
  shows "keeps sy (snd (dispatch_each f i batch counts sy))"
  using assms(2)
proof (induction batch arbitrary: i counts sy)
  case (Cons job batch)
  obtain r c sy1 where s: "f i job counts sy = (r, c, sy1)" by (metis prod.collapse)
  have k: "keeps sy sy1" using assms(1) [OF Cons.prems, of i job counts] by (simp add: s)
  from keeps_sys_trans [OF k Cons.IH [OF keeps_sys_inv [OF k], of "Suc i" c]] show ?case
    by (simp add: s case_prod_unfold Let_def)
qed (simp add: keeps_sys_refl)

lemma keeps_codel_loop: "store_inv (sy_db sy) \<Longrightarrow> keeps sy (snd (codel_loop js hs sc i now batch sy))"
proof (induction batch arbitrary: i sy)
  case (Cons job batch)
  have k: "keeps sy (snd (codel_loop js hs sc (Suc i) now batch sy1))" if "keeps sy sy1" for sy1
    using keeps_sys_trans [OF that Cons.IH [OF keeps_sys_inv [OF that]]] .
  have st: "keeps sy (sy\<lparr>sy_codel_states := x\<rparr>)" for x by (rule keeps_same_db [OF Cons.prems]) simp
  have shed: "keeps sy (set_db (snd (shed_to_dlq js u t t' job e m (sy_db sy))) sy1)" for u t t' e m sy1
    using keeps_dead_ops(2) [OF Cons.prems] by (simp add: keeps_def)
  show ?case
    using k [OF keeps_sys_refl [OF Cons.prems]] k [OF st] k [OF shed] shed
    by (auto simp: Let_def case_prod_unfold split: option.splits sum.splits)
qed (simp add: keeps_sys_refl)

lemma keeps_codel_admit: "store_inv (sy_db sy) \<Longrightarrow> keeps sy (snd (codel_admit js hs sc now batch sy))"
  by (simp add: codel_admit_def keeps_codel_loop keeps_sys_refl)

lemma keeps_try_dispatch:
  assumes "store_inv (sy_db sy)"
  shows "keeps sy (snd (try_dispatch js h hs stale now sc sy))"
proof -
  obtain qs sy1 where q: "active_queues stale sc sy = (qs, sy1)" by fastforce
  have db1: "sy_db sy1 = sy_db sy" using sy_db_simps(7) [of stale sc sy] by (simp add: q)
  have k1: "keeps sy sy1" by (rule keeps_same_db [OF assms db1])
  obtain r d where r: "dequeue_from qs now (sc_namespace sc) (map_of (sc_dispatch_orders sc)) (sy_db sy1) = (r, d)" by fastforce
  have k2: "keeps sy (set_db d sy1)"
    using keeps_dequeue_from [OF assms, of qs now "sc_namespace sc" "map_of (sc_dispatch_orders sc)"] r
    by (simp add: keeps_def db1)
  have k3: "keeps sy (snd (codel_admit js hs sc now batch (set_db d sy1)))" for batch
    by (rule keeps_sys_trans [OF k2 keeps_codel_admit [OF keeps_sys_inv [OF k2]]])
  show ?thesis
    using k1 k2 k3 keeps_sys_trans [OF k3 keeps_dispatch_job(1) [OF keeps_sys_inv [OF k3]]]
    by (auto simp: try_dispatch_def q r Let_def case_prod_unfold split: sum.splits option.splits list.splits)
qed

lemma keeps_try_dispatch_batch:
  assumes "store_inv (sy_db sy)"
  shows "keeps sy (snd (try_dispatch_batch js hs hc stale now claim_now sc sy))"
proof -
  obtain qs sy1 where q: "active_queues stale sc sy = (qs, sy1)" by fastforce
  have db1: "sy_db sy1 = sy_db sy" using sy_db_simps(7) [of stale sc sy] by (simp add: q)
  have k1: "keeps sy sy1" by (rule keeps_same_db [OF assms db1])
  obtain r d where r: "dequeue_batch_from qs now (sc_namespace sc) (dispatch_budget sc sy1)
      (map_of (sc_dispatch_orders sc)) (sy_db sy1) = (r, d)" by fastforce
  have k2: "keeps sy (set_db d sy1)"
    using keeps_dequeue_batch_from [OF assms, of qs now "sc_namespace sc" "dispatch_budget sc sy1" "map_of (sc_dispatch_orders sc)"] r
    by (simp add: keeps_def db1)
  have k3: "keeps sy (snd (codel_admit js hc sc now batch (set_db d sy1)))" for batch
    by (rule keeps_sys_trans [OF k2 keeps_codel_admit [OF keeps_sys_inv [OF k2]]])
  have k4: "keeps sy (set_db (snd (claim_execution_batch claim_now ids w (sy_db sy'))) sy')"
    if "keeps sy sy'" for sy' ids w
    using keeps_trans [OF that [unfolded keeps_def] keeps_claim_ops(1) [OF keeps_sys_inv [OF that]]] by (simp add: keeps_def)
  have e: "keeps sy (snd (dispatch_each f 0 batch counts sy'))"
    if "\<And>i job counts sy. store_inv (sy_db sy) \<Longrightarrow> keeps sy (snd (snd (f i job counts sy)))" "keeps sy sy'" for f batch counts sy'
    by (rule keeps_sys_trans [OF that(2) keeps_dispatch_each]) (rule that(1) keeps_sys_inv [OF that(2)] | assumption)+
  show ?thesis
    using k1 k2 k3 e [where f = "\<lambda>i. gate_and_dispatch js (hs i) sc now", OF keeps_dispatch_job(1) k4 [OF k3]]
      e [where f = "\<lambda>i. dispatch_claimed js (hs i) sc now", OF keeps_dispatch_job(2) k4 [OF k3]]
    by (auto simp: try_dispatch_batch_def q r Let_def case_prod_unfold simp del: dispatch_each.simps
        split: sum.splits list.splits)
qed


section \<open>What becomes of a dequeued job\<close>

definition handed_over :: "scheduler \<Rightarrow> job \<Rightarrow> system \<Rightarrow> system \<Rightarrow> bool" where
  "handed_over sc job sy sy' \<longleftrightarrow>
     sy_channel sy' = sy_channel sy @ [job] \<and> status_of (sy_db sy') (j_id job) = Some Running \<and>
     claim_holder (sy_db sy') (j_id job) = Some (sc_claim_owner sc) \<and>
     map_of (by_job (sy_in_flight sy')) = (map_of (by_job (sy_in_flight sy)))(j_id job \<mapsto>
       \<lparr>dr_task_name = j_task_name job, dr_owner = sc_claim_owner sc, dr_attempt = j_retry_count job\<rparr>)"

definition stays :: "system \<Rightarrow> system \<Rightarrow> bool" where
  "stays sy sy' \<longleftrightarrow> sy_channel sy' = sy_channel sy \<and> map_of (by_job (sy_in_flight sy')) = map_of (by_job (sy_in_flight sy))"

definition turned_back :: "job_row \<Rightarrow> string option \<Rightarrow> system \<Rightarrow> system \<Rightarrow> bool" where
  "turned_back row holder sy sy' \<longleftrightarrow> stays sy sy' \<and> claim_holder (sy_db sy') (r_id row) \<in> {None, holder} \<and>
     (\<exists>t. find_row r_id (r_id row) (jobs (sy_db sy')) = Some (pending_again t row))"

definition shed_away :: "job \<Rightarrow> system \<Rightarrow> system \<Rightarrow> bool" where
  "shed_away job sy sy' \<longleftrightarrow> stays sy sy' \<and> status_of (sy_db sy') (j_id job) = Some Dead \<and>
     (\<exists>row \<in> set (dead_letter (sy_db sy')). d_original_job_id row = j_id job)"

definition dispatch_ok ::
    "scheduler \<Rightarrow> job_row \<Rightarrow> job \<Rightarrow> string option \<Rightarrow> system \<Rightarrow> bool result \<Rightarrow> system \<Rightarrow> bool" where
  "dispatch_ok sc row job holder sy res sy' =
     (case res of
        Inr True \<Rightarrow> handed_over sc job sy sy' \<or> shed_away job sy sy'
      | Inr False \<Rightarrow> turned_back row holder sy sy' \<or> stays sy sy' \<and> holder \<noteq> None \<and> sy_db sy' = sy_db sy
      | Inl e \<Rightarrow> stays sy sy' \<and> same_jobs (sy_db sy) (sy_db sy'))"

lemma same_io_stays: "same_io sy sy' \<Longrightarrow> stays sy sy'"
  by (simp add: same_io_def stays_def)

lemma stays_trans: "stays sy sy' \<Longrightarrow> stays sy' sy'' \<Longrightarrow> stays sy sy''"
  by (simp add: stays_def)

lemma reschedule_row:
  assumes "find_row r_id j (jobs d) = Some row"
  shows "\<exists>d'. reschedule j t d = (Inr (), d') \<and> find_row r_id j (jobs d') = Some (pending_again t row)
    \<and> execution_claims d' = execution_claims d"
proof -
  have "row \<in> set (jobs d)" "r_id row = j" using find_row_SomeD [OF assms] by auto
  then show ?thesis
    using assms by (auto simp: reschedule_def count_where_0_iff find_row_update_where pending_again_def)
qed

lemma complete_execution_clears:
  assumes "find_row r_id j (jobs d) = Some row" "job_in_namespace (r_namespace row) ns"
  shows "\<exists>d'. complete_execution j ns d = (Inr (), d') \<and> jobs d' = jobs d \<and> claim_holder d' j = None"
  using assms
  by (auto simp: complete_execution_def get_job_def claim_holder_def find_row_None_iff set_delete_where split: option.splits)

lemma put_back_outcome:
  assumes "find_row r_id (j_id job) (jobs (sy_db sy)) = Some row" "job_in_namespace (r_namespace row) (sc_namespace sc)"
    "put_back sc h now delay job counts sy = (res, counts', sy')"
  shows "res = Inr False \<and> turned_back row holder sy sy'"
proof -
  let ?t = "wrapping_add now (desync_delay (rnd h 0) delay)"
  obtain d1 where d1: "complete_execution (j_id job) (sc_namespace sc) (sy_db sy) = (Inr (), d1)"
      "jobs d1 = jobs (sy_db sy)" "claim_holder d1 (j_id job) = None"
    using complete_execution_clears [OF assms(1,2)] by blast
  obtain d2 where d2: "reschedule (j_id job) ?t d1 = (Inr (), d2)"
      "find_row r_id (j_id job) (jobs d2) = Some (pending_again ?t row)" "execution_claims d2 = execution_claims d1"
    using reschedule_row [of "j_id job" d1 row ?t] assms(1) d1(2) by auto
  have "res = Inr False \<and> sy' = set_db d2 sy"
    using assms(3) by (auto simp: put_back_def rollback_claim_and_reschedule_def d1(1) d2(1))
  moreover have "r_id row = j_id job" using find_row_SomeD [OF assms(1)] by simp
  ultimately show ?thesis
    using d2 d1(3) by (auto simp: turned_back_def stays_def set_db_def claim_holder_def)
qed

lemma finish_dispatch_outcome:
  assumes "find_row r_id (j_id job) (jobs (sy_db sy)) = Some row" "job_in_namespace (r_namespace row) (sc_namespace sc)"
    "r_status row = status_code Running" "claim_holder (sy_db sy) (j_id job) = Some (sc_claim_owner sc)"
    "map_of (by_job (sy_in_flight sy)) (j_id job) = None" "finish_dispatch h sc now job counts sy = (res, counts', sy')"
  shows "dispatch_ok sc row job holder sy res sy'"
proof -
  define sy1 where "sy1 = track_in_flight sc (j_id job) (j_task_name job) (j_retry_count job) sy"
  let ?sy2 = "untrack_in_flight (j_id job) sy1"
  have sy1: "sy_db sy1 = sy_db sy" "sy_channel sy1 = sy_channel sy"
    "sy_in_flight sy1 = in_flight_insert (j_id job) \<lparr>dr_task_name = j_task_name job, dr_owner = sc_claim_owner sc,
       dr_attempt = j_retry_count job\<rparr> (sy_in_flight sy)"
    by (simp_all add: sy1_def track_in_flight_def)
  have un: "stays sy ?sy2" "sy_db ?sy2 = sy_db sy"
    using assms(5) by (simp_all add: stays_def untrack_in_flight_def sy1 in_flight_lookup fun_upd_idem)
  have keep: "dispatch_ok sc row job holder sy r s"
    if "put_back sc h now delay job c sy0 = (r, c', s)" "stays sy sy0" "sy_db sy0 = sy_db sy" for delay c sy0 r c' s
    using put_back_outcome [OF _ assms(2) that(1), of holder] that(2,3) assms(1) stays_trans [OF that(2)]
    by (auto simp: dispatch_ok_def turned_back_def)
  obtain ok c where ck: "check_post_claim_concurrency sc job counts sy = (ok, c)" by fastforce
  have run: "status_of (sy_db sy) (j_id job) = Some Running"
    using assms(1,3) by (simp add: status_of_def from_i32_iff)
  show ?thesis
  proof (cases "ok \<and> \<not> (sy_closed sy1 \<or> sc_capacity sc \<le> length (sy_channel sy1))")
    case True
    then have "res = Inr True" "sy' = sy1\<lparr>sy_channel := sy_channel sy1 @ [job]\<rparr>"
      using assms(6) by (auto simp: finish_dispatch_def ck sy1_def [symmetric] Let_def)
    then show ?thesis
      using assms(4) run by (simp add: dispatch_ok_def handed_over_def sy1 in_flight_lookup)
  next
    case False
    then consider "put_back sc h now CONCURRENCY_RETRY_DELAY_MS job c sy = (res, counts', sy')"
      | "put_back sc h now CHANNEL_BACKPRESSURE_RETRY_DELAY_MS job c ?sy2 = (res, counts', sy')"
      using assms(6) by (cases ok) (auto simp: finish_dispatch_def ck sy1_def [symmetric] Let_def)
    then show ?thesis using keep un by cases (auto simp: stays_def)
  qed
qed

lemma dead_letter_job_fails:
  assumes "store_inv d" "dead_letter_job js u now now' job e m sh d = (Inl err, d')"
  shows "d' = d"
proof (cases "u \<in> d_id ` set (dead_letter d)")
  case True
  then show ?thesis
    using assms(2)
    by (auto simp: dead_letter_job_def dead_letter_body_def insert_dead_def insert_row_def write_transaction_def
        new_dead_row_def Let_def split: if_splits)
next
  case False
  from dead_letter_job_eq(1) [OF assms(1) this refl] assms(2) show ?thesis by simp
qed

lemma shed_outcome:
  assumes "store_inv (sy_db sy)" "find_row r_id (j_id job) (jobs (sy_db sy)) = Some row"
    "shed_rate_limited js h sc job reason claimed sy = (res, sy')"
  shows "case res of Inr _ \<Rightarrow> shed_away job sy sy' | Inl e \<Rightarrow> stays sy sy' \<and> same_jobs (sy_db sy) (sy_db sy')"
proof -
  define d where "d = (if claimed then snd (complete_execution (j_id job) (sc_namespace sc) (sy_db sy)) else sy_db sy)"
  have k: "keeps_store {} (sy_db sy) d"
    using keeps_claim_ops(2) [OF assms(1)] by (simp add: d_def keeps_refl assms(1))
  have same: "same_jobs (sy_db sy) d" by (simp add: d_def same_jobs_ops(3)) (simp add: same_jobs_def)
  have live: "j_id job \<in> live_ids d"
    using same find_live [OF assms(2)] by (simp add: same_jobs_def live_ids_def)
  obtain d' where d': "dead_letter_job js (ids h 0) (clk h 3) (clk h 4) job reason (Some RATE_LIMIT_SHED_METADATA) True d = (res, d')"
      "sy' = set_db d' sy"
    using assms(3) by (auto simp: shed_rate_limited_def shed_to_dlq_def Let_def d_def [symmetric] split: prod.splits)
  have st: "stays sy sy'" using d'(2) by (simp add: stays_def set_db_def)
  show ?thesis
  proof (cases res)
    case (Inl e)
    then have "d' = d" using dead_letter_job_fails [OF keeps_inv [OF k]] d'(1) by simp
    then show ?thesis using Inl st same d'(2) by simp
  next
    case (Inr u)
    then show ?thesis using dead_status [OF keeps_inv [OF k] d'(1) [unfolded Inr] live] st d'(2) by (simp add: shed_away_def)
  qed
qed

lemma dispatch_ok_from:
  assumes "dispatch_ok sc row job holder sy1 res sy'" "same_io sy sy1" "same_jobs (sy_db sy) (sy_db sy1)"
    "holder = None \<or> sy_db sy1 = sy_db sy"
  shows "dispatch_ok sc row job holder sy res sy'"
  using assms
  by (auto simp: dispatch_ok_def handed_over_def turned_back_def shed_away_def stays_def same_io_def same_jobs_def
      split: sum.splits bool.splits)

lemma shed_dispatch_ok:
  assumes "store_inv (sy_db sy)" "find_row r_id (j_id job) (jobs (sy_db sy)) = Some row"
    "shed_rate_limited js h sc job reason claimed sy = (r, sy')"
  shows "dispatch_ok sc row job holder sy (case r of Inl e \<Rightarrow> Inl e | Inr _ \<Rightarrow> Inr True) sy'"
  using shed_outcome [OF assms] by (auto simp: dispatch_ok_def split: sum.splits)

lemma gate_and_dispatch_outcome:
  assumes "store_inv (sy_db sy)" "find_row r_id (j_id job) (jobs (sy_db sy)) = Some row"
    "r_status row = status_code Running" "job_in_namespace (r_namespace row) (sc_namespace sc)"
    "map_of (by_job (sy_in_flight sy)) (j_id job) = None" "holder = claim_holder (sy_db sy) (j_id job)"
  shows "case gate_and_dispatch js h sc now job counts sy of (res, _, sy') \<Rightarrow> dispatch_ok sc row job holder sy res sy'"
proof -
  obtain g sy1 where g: "check_pre_claim_gates h sc job sy = (g, sy1)" by fastforce
  have db1: "sy_db sy1 = sy_db sy" using sy_db_simps(8) [of h sc job sy] by (simp add: g)
  have io1: "same_io sy sy1" using same_io_steps(2) [of sy h sc job] by (simp add: g)
  have nofl: "map_of (by_job (sy_in_flight sy1)) (j_id job) = None" using assms(5) io1 by (simp add: same_io_def)
  have same: "same_jobs (sy_db sy) (sy_db sy1)" by (simp add: db1 same_jobs_def)
  have from1: "dispatch_ok sc row job hd sy r s" if "dispatch_ok sc row job hd sy1 r s" for hd r s
    using that io1 same by (rule dispatch_ok_from) (simp add: db1)
  have rid: "r_id row = j_id job" using find_row_SomeD [OF assms(2)] by simp
  show ?thesis
  proof (cases g)
    case (DeferFor delay)
    let ?t = "wrapping_add now (desync_delay (rnd h 0) delay)"
    obtain d' where "reschedule (j_id job) ?t (sy_db sy1) = (Inr (), d')"
        "find_row r_id (j_id job) (jobs d') = Some (pending_again ?t row)" "execution_claims d' = execution_claims (sy_db sy1)"
      using reschedule_row [of "j_id job" "sy_db sy1" row ?t] assms(2) db1 by auto
    then show ?thesis
      using DeferFor rid io1 assms(6)
      by (auto simp: gate_and_dispatch_def g Let_def dispatch_ok_def turned_back_def stays_def set_db_def same_io_def
          claim_holder_def db1)
  next
    case (Shed reason)
    obtain r s where rs: "shed_rate_limited js h sc job reason False sy1 = (r, s)" by fastforce
    have "dispatch_ok sc row job holder sy1 (case r of Inl e \<Rightarrow> Inl e | Inr _ \<Rightarrow> Inr True) s"
      by (rule shed_dispatch_ok [OF _ _ rs]) (simp_all add: db1 assms(1,2))
    from from1 [OF this] show ?thesis
      using Shed rs by (cases r) (auto simp: gate_and_dispatch_def g Let_def)
  next
    case Proceed
    obtain c sy2 where c: "claim_for_dispatch h sc job sy1 = (c, sy2)" by fastforce
    show ?thesis
    proof (cases holder)
      case None
      then have c': "c = Claimed" "sy2 = set_db (sy_db sy\<lparr>execution_claims := execution_claims (sy_db sy) @
          [\<lparr>c_job_id = j_id job, c_worker_id = sc_claim_owner sc, c_claimed_at = clk h 5\<rparr>]\<rparr>) sy1"
        using c assms(6) by (auto simp: claim_for_dispatch_def claim_execution_eq db1)
      obtain r c2 s where fin: "finish_dispatch h sc now job counts sy2 = (r, c2, s)" by (metis prod.collapse)
      have "claim_holder (sy_db sy) (j_id job) = None" using None assms(6) by simp
      then have "claim_holder (sy_db sy2) (j_id job) = Some (sc_claim_owner sc)"
        by (simp add: c' claim_holder_def find_row_append)
      then have "dispatch_ok sc row job holder sy2 r s"
        by (intro finish_dispatch_outcome [OF _ assms(4,3) _ _ fin]) (use assms(2) nofl in \<open>simp_all add: c' set_db_def\<close>)
      then have "dispatch_ok sc row job holder sy r s"
        by (rule dispatch_ok_from) (use io1 None in \<open>simp_all add: c' same_jobs_def\<close>)
      then show ?thesis using Proceed c c'(1) fin by (simp add: gate_and_dispatch_def g Let_def)
    next
      case (Some w)
      then have "c = AlreadyClaimed" "sy2 = set_db (sy_db sy) sy1"
        using c assms(6) by (auto simp: claim_for_dispatch_def claim_execution_eq db1)
      then show ?thesis
        using Proceed c Some io1
        by (simp add: gate_and_dispatch_def g Let_def dispatch_ok_def same_io_stays [of sy] stays_def same_io_def set_db_def)
    qed
  qed
qed

lemma dispatch_claimed_outcome:
  assumes "store_inv (sy_db sy)" "find_row r_id (j_id job) (jobs (sy_db sy)) = Some row"
    "r_status row = status_code Running" "job_in_namespace (r_namespace row) (sc_namespace sc)"
    "map_of (by_job (sy_in_flight sy)) (j_id job) = None" "claim_holder (sy_db sy) (j_id job) = Some (sc_claim_owner sc)"
  shows "case dispatch_claimed js h sc now job counts sy of (res, _, sy') \<Rightarrow> dispatch_ok sc row job None sy res sy'"
proof -
  obtain g sy1 where g: "check_pre_claim_gates h sc job sy = (g, sy1)" by fastforce
  have db1: "sy_db sy1 = sy_db sy" using sy_db_simps(8) [of h sc job sy] by (simp add: g)
  have io1: "same_io sy sy1" using same_io_steps(2) [of sy h sc job] by (simp add: g)
  have nofl: "map_of (by_job (sy_in_flight sy1)) (j_id job) = None" using assms(5) io1 by (simp add: same_io_def)
  have same: "same_jobs (sy_db sy) (sy_db sy1)" by (simp add: db1 same_jobs_def)
  have from1: "dispatch_ok sc row job hd sy r s" if "dispatch_ok sc row job hd sy1 r s" for hd r s
    using that io1 same by (rule dispatch_ok_from) (simp add: db1)
  show ?thesis
  proof (cases g)
    case (DeferFor delay)
    obtain r c2 s where pb: "put_back sc h now delay job counts sy1 = (r, c2, s)" by (metis prod.collapse)
    have "r = Inr False \<and> turned_back row None sy1 s"
      by (rule put_back_outcome [OF _ assms(4) pb]) (simp add: db1 assms(2))
    then have "dispatch_ok sc row job None sy1 r s" by (simp add: dispatch_ok_def)
    from from1 [OF this] show ?thesis using DeferFor pb by (simp add: dispatch_claimed_def g)
  next
    case (Shed reason)
    obtain r s where rs: "shed_rate_limited js h sc job reason True sy1 = (r, s)" by fastforce
    have "dispatch_ok sc row job None sy1 (case r of Inl e \<Rightarrow> Inl e | Inr _ \<Rightarrow> Inr True) s"
      by (rule shed_dispatch_ok [OF _ _ rs]) (simp_all add: db1 assms(1,2))
    from from1 [OF this] show ?thesis
      using Shed rs by (cases r) (auto simp: dispatch_claimed_def g Let_def)
  next
    case Proceed
    obtain r c2 s where fin: "finish_dispatch h sc now job counts sy1 = (r, c2, s)" by (metis prod.collapse)
    have "dispatch_ok sc row job None sy1 r s"
      by (rule finish_dispatch_outcome [OF _ assms(4,3) _ nofl fin]) (use assms(2,6) in \<open>simp_all add: db1\<close>)
    from from1 [OF this] show ?thesis using Proceed fin by (simp add: dispatch_claimed_def g)
  qed
qed

text \<open>
  C7: what becomes of a job taken from the queue. \<open>Ok(true)\<close> means it was handed to the
  workers, running, claimed by this scheduler and tracked under the attempt its result will be
  fenced with, or shed to the dead-letter queue and archived as dead. \<open>Ok(false)\<close> means it is
  pending again with its row otherwise unchanged, the attempt count included, and no claim of this
  scheduler left, or that another scheduler holds its claim and nothing was written. An error leaves
  the jobs as they were. This holds for the single path, and for the batch path, where the claim
  was taken beforehand.
\<close>

theorem dispatch_outcome:
  assumes "store_inv (sy_db sy)" "find_row r_id (j_id job) (jobs (sy_db sy)) = Some row"
    "r_status row = status_code Running" "job_in_namespace (r_namespace row) (sc_namespace sc)"
    "map_of (by_job (sy_in_flight sy)) (j_id job) = None" "holder = claim_holder (sy_db sy) (j_id job)"
  shows "(case gate_and_dispatch js h sc now job counts sy of (res, _, sy') \<Rightarrow> dispatch_ok sc row job holder sy res sy') \<and>
    (holder = Some (sc_claim_owner sc) \<longrightarrow>
      (case dispatch_claimed js h sc now job counts sy of (res, _, sy') \<Rightarrow> dispatch_ok sc row job None sy res sy'))"
  using gate_and_dispatch_outcome [OF assms] dispatch_claimed_outcome [OF assms(1-5)] assms(6) by simp

section \<open>Witnesses\<close>

definition idle_system :: "db \<Rightarrow> system" where
  "idle_system d = (demo_system d)\<lparr>sy_in_flight := in_flight_default\<rparr>"

lemma idle_system_sel [simp]:
  "sy_db (idle_system d) = d" "sy_in_flight (idle_system d) = in_flight_default" "sy_channel (idle_system d) = []"
  by (simp_all add: idle_system_def demo_system_def)

lemma caps_ok_idle: "caps_ok demo_scheduler (idle_system d)"
  by (auto simp: caps_ok_def in_flight_default_def in_flight_len_def count_for_def unwrap_or_def)


theorem dispatch_outcome_witness:
  "case gate_and_dispatch no_json demo_host demo_scheduler 20 (job_of_row (claimed_row 6 (sample_row ''a'' 0)))
       gate_counts_default (idle_system running_db) of
     (res, _, sy') \<Rightarrow> res = Inr True \<and> length (sy_channel sy') = 1 \<and>
       handed_over demo_scheduler (job_of_row (claimed_row 6 (sample_row ''a'' 0))) (idle_system running_db) sy'"
proof -
  let ?row = "claimed_row 6 (sample_row ''a'' 0)" and ?sy = "idle_system running_db"
  obtain res c sy' where r: "gate_and_dispatch no_json demo_host demo_scheduler 20 (job_of_row ?row) gate_counts_default ?sy = (res, c, sy')"
    by (metis prod.collapse)
  have "fst (gate_and_dispatch no_json demo_host demo_scheduler 20 (job_of_row ?row) gate_counts_default ?sy) = Inr True
      \<and> length (sy_channel (snd (snd (gate_and_dispatch no_json demo_host demo_scheduler 20 (job_of_row ?row) gate_counts_default ?sy)))) = 1"
    by code_simp
  then have e: "res = Inr True" "length (sy_channel sy') = 1" by (simp_all add: r)
  have id: "j_id (job_of_row ?row) = ''a''" by (simp add: job_of_row_def from_narrow_def claimed_row_def)
  have row: "find_row r_id (j_id (job_of_row ?row)) (jobs (sy_db ?sy)) = Some ?row"
    by (simp add: id running_db_def sample_db_def claimed_row_def)
  have hyps: "store_inv (sy_db ?sy)" "r_status ?row = status_code Running"
    "job_in_namespace (r_namespace ?row) (sc_namespace demo_scheduler)"
    "map_of (by_job (sy_in_flight ?sy)) (j_id (job_of_row ?row)) = None"
    using store_inv_running
    by (simp_all add: claimed_row_def job_in_namespace_def demo_scheduler_def in_flight_default_def)
  have "dispatch_ok demo_scheduler ?row (job_of_row ?row) (claim_holder (sy_db ?sy) (j_id (job_of_row ?row))) ?sy res sy'"
    using dispatch_outcome [OF hyps(1) row hyps(2-4) refl, of no_json demo_host 20 gate_counts_default]
    unfolding r by simp
  then show ?thesis
    using e by (auto simp: r dispatch_ok_def shed_away_def stays_def)
qed

end
