(* ===== verification/Pubsub.thy ===== *)
theory Pubsub
  imports Dead_Letter Claims "HOL-Library.AList"
begin

text \<open>
  Topics and subscriptions: \<open>pubsub.rs\<close> (publishing, fan-out and the salted idempotency
  keys), \<open>storage/diesel_common/pubsub.rs\<close> and \<open>storage/sqlite/pubsub.rs\<close> (the
  subscription registry, the message log with its read cursors, leased deliveries and compaction).
  The four topic tables are the record \<open>topic_log\<close>; a publish works on them and on the job
  store. Where the code iterates over a hash map, the order in which it yields its keys is the
  parameter \<open>ord\<close>.
\<close>

section \<open>Tables\<close>

datatype subscription_mode = Fanout | LogMode

definition mode_str :: "subscription_mode \<Rightarrow> string" where
  "mode_str m = (case m of Fanout \<Rightarrow> ''fanout'' | LogMode \<Rightarrow> ''log'')"

definition mode_from_wire :: "string \<Rightarrow> subscription_mode" where
  "mode_from_wire wire = (if wire = ''log'' then LogMode else Fanout)"

definition mode_parse :: "string \<Rightarrow> subscription_mode option" where
  "mode_parse wire = (if wire = ''fanout'' then Some Fanout else if wire = ''log'' then Some LogMode else None)"

record sub_row =
  u_topic :: string
  u_name :: string
  u_task_name :: string
  u_queue :: string
  u_active :: bool
  u_durable :: bool
  u_owner :: "string option"
  u_created_at :: int
  u_priority :: "int option"
  u_max_retries :: "int option"
  u_timeout_ms :: "int option"
  u_mode :: string
  u_cursor :: "string option"

record message_row =
  tm_id :: string
  tm_topic :: string
  tm_payload :: bytes
  tm_metadata :: "string option"
  tm_notes :: "string option"
  tm_created_at :: int
  tm_expires_at :: "int option"

record delivery_row =
  v_topic :: string
  v_sub :: string
  v_message_id :: string
  v_acked :: bool
  v_attempts :: int
  v_lease_expires_at :: int
  v_delivered_at :: int

record topic_row =
  t_name :: string
  t_mode :: string
  t_retention_ms :: "int option"
  t_created_at :: int

record topic_log =
  subscriptions :: "sub_row list"
  messages :: "message_row list"
  deliveries :: "delivery_row list"
  topics :: "topic_row list"

definition sub_key :: "sub_row \<Rightarrow> string \<times> string" where
  "sub_key s = (u_topic s, u_name s)"

definition delivery_key :: "delivery_row \<Rightarrow> string \<times> string \<times> string" where
  "delivery_key v = (v_topic v, v_sub v, v_message_id v)"

definition is_log :: "sub_row \<Rightarrow> bool" where
  "is_log s \<longleftrightarrow> u_mode s = mode_str LogMode"

section \<open>The registry\<close>

record new_subscription =
  ns_topic :: string
  ns_name :: string
  ns_task_name :: string
  ns_queue :: string
  ns_active :: bool
  ns_durable :: bool
  ns_owner :: "string option"
  ns_created_at :: int
  ns_priority :: "int option"
  ns_max_retries :: "int option"
  ns_timeout_ms :: "int option"
  ns_mode :: subscription_mode

definition fresh_sub :: "new_subscription \<Rightarrow> sub_row" where
  "fresh_sub s = \<lparr>u_topic = ns_topic s, u_name = ns_name s, u_task_name = ns_task_name s, u_queue = ns_queue s,
     u_active = ns_active s, u_durable = ns_durable s, u_owner = ns_owner s, u_created_at = ns_created_at s,
     u_priority = ns_priority s, u_max_retries = ns_max_retries s, u_timeout_ms = ns_timeout_ms s,
     u_mode = mode_str (ns_mode s), u_cursor = None\<rparr>"

definition redeclared :: "new_subscription \<Rightarrow> sub_row \<Rightarrow> sub_row" where
  "redeclared s row = row\<lparr>u_task_name := ns_task_name s, u_queue := ns_queue s, u_durable := ns_durable s,
     u_owner := ns_owner s, u_priority := ns_priority s, u_max_retries := ns_max_retries s,
     u_timeout_ms := ns_timeout_ms s, u_mode := mode_str (ns_mode s)\<rparr>"

definition register_subscription :: "new_subscription \<Rightarrow> topic_log \<Rightarrow> topic_log" where
  "register_subscription s tp =
     (if find_row sub_key (ns_topic s, ns_name s) (subscriptions tp) = None
      then tp\<lparr>subscriptions := subscriptions tp @ [fresh_sub s]\<rparr>
      else tp\<lparr>subscriptions :=
        update_where (\<lambda>r. sub_key r = (ns_topic s, ns_name s)) (redeclared s) (subscriptions tp)\<rparr>)"

definition registration_le :: "sub_row \<Rightarrow> sub_row \<Rightarrow> bool" where
  "registration_le s s' \<longleftrightarrow> u_created_at s < u_created_at s' \<or> u_created_at s = u_created_at s' \<and> u_name s \<le> u_name s'"

definition list_subscriptions_for_topic :: "string \<Rightarrow> topic_log \<Rightarrow> sub_row list" where
  "list_subscriptions_for_topic topic tp =
     order_by registration_le (filter (\<lambda>s. u_topic s = topic \<and> u_active s) (subscriptions tp))"

definition unsubscribe :: "string \<Rightarrow> string \<Rightarrow> topic_log \<Rightarrow> bool \<times> topic_log" where
  "unsubscribe topic name tp =
     (0 < count_where (\<lambda>s. sub_key s = (topic, name)) (subscriptions tp),
      tp\<lparr>subscriptions := delete_where (\<lambda>s. sub_key s = (topic, name)) (subscriptions tp)\<rparr>)"

definition set_subscription_active :: "string \<Rightarrow> string \<Rightarrow> bool \<Rightarrow> topic_log \<Rightarrow> bool \<times> topic_log" where
  "set_subscription_active topic name active tp =
     (0 < count_where (\<lambda>s. sub_key s = (topic, name)) (subscriptions tp),
      tp\<lparr>subscriptions := update_where (\<lambda>s. sub_key s = (topic, name)) (\<lambda>s. s\<lparr>u_active := active\<rparr>)
          (subscriptions tp)\<rparr>)"

definition EPHEMERAL_SUBSCRIPTION_GRACE_MS :: int where
  "EPHEMERAL_SUBSCRIPTION_GRACE_MS = 2 * DEAD_WORKER_THRESHOLD_MS"

definition orphaned :: "string list \<Rightarrow> int \<Rightarrow> sub_row \<Rightarrow> bool" where
  "orphaned alive before s \<longleftrightarrow>
     (case u_owner s of None \<Rightarrow> False | Some w \<Rightarrow> w \<notin> set alive) \<and> u_created_at s < before"

definition reap_ephemeral_subscriptions :: "int \<Rightarrow> string list \<Rightarrow> topic_log \<Rightarrow> nat \<times> topic_log" where
  "reap_ephemeral_subscriptions now live_worker_ids tp =
     (let before = wrapping_i64 (now - EPHEMERAL_SUBSCRIPTION_GRACE_MS)
      in (count_where (orphaned live_worker_ids before) (subscriptions tp),
          tp\<lparr>subscriptions := delete_where (orphaned live_worker_ids before) (subscriptions tp)\<rparr>))"

definition sweep_ephemeral_subscriptions ::
    "int \<Rightarrow> int \<Rightarrow> int \<Rightarrow> int \<Rightarrow> (db \<Rightarrow> db) \<Rightarrow> string option \<Rightarrow> worker_row list \<Rightarrow> db \<times> topic_log
     \<Rightarrow> nat result \<times> db \<times> topic_log" where
  "sweep_ephemeral_subscriptions now now' now'' now''' env elected_owner ws s =
     (case s of (d, tp) \<Rightarrow>
       let (led, d1) = (case elected_owner of
                          None \<Rightarrow> (Inr True, d)
                        | Some owner \<Rightarrow> try_lead now now' env REAPER_LOCK owner REAPER_LOCK_TTL_MS d)
       in case led of
            Inl e \<Rightarrow> (Inl e, d1, tp)
          | Inr False \<Rightarrow> (Inr 0, d1, tp)
          | Inr True \<Rightarrow>
              (case reap_ephemeral_subscriptions now''' (list_live_worker_ids (dead_worker_cutoff now'') ws) tp of
                 (n, tp') \<Rightarrow> (Inr n, d1, tp')))"

definition validate_topic_declaration :: "subscription_mode \<Rightarrow> int option \<Rightarrow> unit result" where
  "validate_topic_declaration mode retention_ms =
     (if mode \<noteq> LogMode
      then Inl (Config (''only '' @ [CHR 0x22] @ ''log'' @ [CHR 0x22] @ '' topics are declarable, got ''
             @ (case mode of Fanout \<Rightarrow> ''Fanout'' | LogMode \<Rightarrow> ''Log'')))
      else if (case retention_ms of None \<Rightarrow> False | Some ms \<Rightarrow> ms < 0)
      then Inl (Config ''topic retention_ms must be non-negative'')
      else Inr ())"

definition declare_topic :: "int \<Rightarrow> string \<Rightarrow> subscription_mode \<Rightarrow> int option \<Rightarrow> topic_log \<Rightarrow> unit result \<times> topic_log" where
  "declare_topic now name mode retention_ms tp =
     (case validate_topic_declaration mode retention_ms of
        Inl e \<Rightarrow> (Inl e, tp)
      | Inr _ \<Rightarrow>
          (Inr (),
           if find_row t_name name (topics tp) = None
           then tp\<lparr>topics := topics tp @ [\<lparr>t_name = name, t_mode = mode_str mode,
                  t_retention_ms = retention_ms, t_created_at = now\<rparr>]\<rparr>
           else tp\<lparr>topics := update_where (\<lambda>t. t_name t = name)
                  (\<lambda>t. t\<lparr>t_mode := mode_str mode, t_retention_ms := retention_ms\<rparr>) (topics tp)\<rparr>))"

definition get_topic :: "string \<Rightarrow> topic_log \<Rightarrow> topic_row option" where
  "get_topic name tp = find_row t_name name (topics tp)"

section \<open>The log\<close>

definition publish_message ::
    "string \<Rightarrow> int \<Rightarrow> string \<Rightarrow> bytes \<Rightarrow> string option \<Rightarrow> string option \<Rightarrow> int option \<Rightarrow> topic_log \<Rightarrow>
     message_row result \<times> topic_log" where
  "publish_message uid created_at topic payload metadata notes expires_at tp =
     (let row = \<lparr>tm_id = uid, tm_topic = topic, tm_payload = payload, tm_metadata = metadata, tm_notes = notes,
                 tm_created_at = created_at, tm_expires_at = expires_at\<rparr>
      in case insert_row tm_id row (messages tp) of
           None \<Rightarrow> (Inl (Storage UniqueViolation), tp)
         | Some rows \<Rightarrow> (Inr row, tp\<lparr>messages := rows\<rparr>))"

definition log_sub :: "string \<Rightarrow> string \<Rightarrow> sub_row \<Rightarrow> bool" where
  "log_sub topic name s \<longleftrightarrow> u_topic s = topic \<and> u_name s = name \<and> is_log s"

definition after_cursor :: "string option \<Rightarrow> message_row \<Rightarrow> bool" where
  "after_cursor cursor m = (case cursor of None \<Rightarrow> True | Some c \<Rightarrow> c < tm_id m)"

definition by_id :: "message_row \<Rightarrow> message_row \<Rightarrow> bool" where
  "by_id m m' \<longleftrightarrow> tm_id m \<le> tm_id m'"

definition unread :: "string \<Rightarrow> string option \<Rightarrow> topic_log \<Rightarrow> message_row list" where
  "unread topic cursor tp = filter (\<lambda>m. tm_topic m = topic \<and> after_cursor cursor m) (messages tp)"

definition read_topic_messages :: "string \<Rightarrow> string \<Rightarrow> int \<Rightarrow> topic_log \<Rightarrow> message_row list" where
  "read_topic_messages topic name limit tp =
     (if limit \<le> 0 then []
      else case find (log_sub topic name) (subscriptions tp) of
             None \<Rightarrow> []
           | Some s \<Rightarrow> sql_limit limit (order_by by_id (unread topic (u_cursor s) tp)))"

definition can_ack :: "string \<Rightarrow> string \<Rightarrow> string \<Rightarrow> sub_row \<Rightarrow> bool" where
  "can_ack topic name cursor s \<longleftrightarrow>
     log_sub topic name s \<and> (case u_cursor s of None \<Rightarrow> True | Some c \<Rightarrow> c < cursor)"

definition ack_topic_cursor :: "string \<Rightarrow> string \<Rightarrow> string \<Rightarrow> topic_log \<Rightarrow> bool \<times> topic_log" where
  "ack_topic_cursor topic name cursor tp =
     (0 < count_where (can_ack topic name cursor) (subscriptions tp),
      tp\<lparr>subscriptions := update_where (can_ack topic name cursor) (\<lambda>s. s\<lparr>u_cursor := Some cursor\<rparr>)
          (subscriptions tp)\<rparr>)"

record topic_log_stats =
  ls_topic :: string
  ls_name :: string
  ls_cursor :: "string option"
  ls_lag :: nat
  ls_oldest_unacked_age_ms :: "int option"

definition min_opt :: "int list \<Rightarrow> int option" where
  "min_opt xs = (if xs = [] then None else Some (Min (set xs)))"

definition topic_log_stats_of :: "int \<Rightarrow> topic_log \<Rightarrow> topic_log_stats list" where
  "topic_log_stats_of now tp =
     map (\<lambda>s. let rows = unread (u_topic s) (u_cursor s) tp
              in \<lparr>ls_topic = u_topic s, ls_name = u_name s, ls_cursor = u_cursor s, ls_lag = length rows,
                  ls_oldest_unacked_age_ms =
                    map_option (\<lambda>c. max (wrapping_i64 (now - c)) 0) (min_opt (map tm_created_at rows))\<rparr>)
       (filter is_log (subscriptions tp))"

section \<open>Leased deliveries\<close>

definition delivery_of :: "string \<Rightarrow> string \<Rightarrow> topic_log \<Rightarrow> string \<Rightarrow> delivery_row option" where
  "delivery_of topic name tp mid = find_row delivery_key (topic, name, mid) (deliveries tp)"

definition available :: "string \<Rightarrow> string \<Rightarrow> int \<Rightarrow> topic_log \<Rightarrow> message_row \<Rightarrow> bool" where
  "available topic name now tp m \<longleftrightarrow> tm_topic m = topic \<and>
     (case delivery_of topic name tp (tm_id m) of
        None \<Rightarrow> True | Some v \<Rightarrow> \<not> v_acked v \<and> v_lease_expires_at v \<le> now)"

definition upsert_lease :: "string \<Rightarrow> string \<Rightarrow> int \<Rightarrow> int \<Rightarrow> string \<Rightarrow> topic_log \<Rightarrow> topic_log" where
  "upsert_lease topic name lease_until now mid tp =
     (if delivery_of topic name tp mid = None
      then tp\<lparr>deliveries := deliveries tp @ [\<lparr>v_topic = topic, v_sub = name, v_message_id = mid, v_acked = False,
             v_attempts = 1, v_lease_expires_at = lease_until, v_delivered_at = now\<rparr>]\<rparr>
      else tp\<lparr>deliveries := update_where (\<lambda>v. delivery_key v = (topic, name, mid))
             (\<lambda>v. v\<lparr>v_acked := False, v_attempts := v_attempts v + 1, v_lease_expires_at := lease_until,
                  v_delivered_at := now\<rparr>) (deliveries tp)\<rparr>)"

definition lease_topic_messages ::
    "string \<Rightarrow> string \<Rightarrow> int \<Rightarrow> int \<Rightarrow> int \<Rightarrow> topic_log \<Rightarrow> message_row list \<times> topic_log" where
  "lease_topic_messages topic name limit visibility_ms now tp =
     (if limit \<le> 0 then ([], tp)
      else if find (log_sub topic name) (subscriptions tp) = None then ([], tp)
      else let rows = sql_limit limit (order_by by_id (filter (available topic name now tp) (messages tp)))
           in (rows, fold (upsert_lease topic name (wrapping_add now visibility_ms) now) (map tm_id rows) tp))"

definition open_delivery :: "string \<Rightarrow> string \<Rightarrow> string \<Rightarrow> delivery_row \<Rightarrow> bool" where
  "open_delivery topic name mid v \<longleftrightarrow> delivery_key v = (topic, name, mid) \<and> \<not> v_acked v"

definition ack_message :: "string \<Rightarrow> string \<Rightarrow> string \<Rightarrow> topic_log \<Rightarrow> bool \<times> topic_log" where
  "ack_message topic name mid tp =
     (0 < count_where (open_delivery topic name mid) (deliveries tp),
      tp\<lparr>deliveries := update_where (open_delivery topic name mid) (\<lambda>v. v\<lparr>v_acked := True\<rparr>) (deliveries tp)\<rparr>)"

definition nack_message :: "string \<Rightarrow> string \<Rightarrow> string \<Rightarrow> topic_log \<Rightarrow> bool \<times> topic_log" where
  "nack_message topic name mid tp =
     (0 < count_where (open_delivery topic name mid) (deliveries tp),
      tp\<lparr>deliveries := update_where (open_delivery topic name mid) (\<lambda>v. v\<lparr>v_lease_expires_at := 0\<rparr>)
          (deliveries tp)\<rparr>)"

section \<open>Compaction\<close>

text \<open>The smallest cursor of a topic's log subscriptions, \<open>None\<close> once one of them has read nothing.\<close>

definition merge_floor :: "string option \<Rightarrow> string option \<Rightarrow> string option" where
  "merge_floor current cursor = (case (current, cursor) of (Some a, Some c) \<Rightarrow> Some (min a c) | _ \<Rightarrow> None)"

definition add_floor :: "sub_row \<Rightarrow> (string \<times> string option) list \<Rightarrow> (string \<times> string option) list" where
  "add_floor s m = (case map_of m (u_topic s) of
     None \<Rightarrow> AList.update (u_topic s) (u_cursor s) m
   | Some current \<Rightarrow> AList.update (u_topic s) (merge_floor current (u_cursor s)) m)"

definition floors :: "topic_log \<Rightarrow> (string \<times> string option) list" where
  "floors tp = fold add_floor (filter is_log (subscriptions tp)) []"

definition expired_message :: "int \<Rightarrow> message_row \<Rightarrow> bool" where
  "expired_message now m = (case tm_expires_at m of None \<Rightarrow> False | Some t \<Rightarrow> t \<le> now)"

definition room :: "int \<Rightarrow> string list \<Rightarrow> int" where
  "room limit ids = limit - int (length ids)"

fun collect_acked :: "int \<Rightarrow> topic_log \<Rightarrow> (string \<times> string option) list \<Rightarrow> string list \<Rightarrow> string list \<Rightarrow> string list" where
  "collect_acked limit tp fl [] ids = ids"
| "collect_acked limit tp fl (topic # ts) ids =
     (case map_of fl topic of
        Some (Some c) \<Rightarrow>
          if room limit ids \<le> 0 then ids
          else collect_acked limit tp fl ts (ids @ map tm_id
            (sql_limit (room limit ids) (filter (\<lambda>m. tm_topic m = topic \<and> tm_id m \<le> c) (messages tp))))
      | _ \<Rightarrow> collect_acked limit tp fl ts ids)"

definition pm_names :: "topic_log \<Rightarrow> string \<Rightarrow> string list" where
  "pm_names tp topic = remdups (map v_sub (filter (\<lambda>v. v_topic v = topic) (deliveries tp)))"

definition log_names :: "topic_log \<Rightarrow> string \<Rightarrow> string list" where
  "log_names tp topic = map u_name (filter (\<lambda>s. is_log s \<and> u_topic s = topic) (subscriptions tp))"

definition acked_count :: "topic_log \<Rightarrow> string \<Rightarrow> string \<Rightarrow> nat" where
  "acked_count tp topic mid =
     count_where (\<lambda>v. v_topic v = topic \<and> v_message_id v = mid \<and> v_acked v) (deliveries tp)"

fun collect_delivered :: "int \<Rightarrow> topic_log \<Rightarrow> string list \<Rightarrow> string list \<Rightarrow> string list" where
  "collect_delivered limit tp [] ids = ids"
| "collect_delivered limit tp (topic # ts) ids =
     (if room limit ids \<le> 0 then ids
      else if list_ex (\<lambda>n. n \<notin> set (pm_names tp topic)) (log_names tp topic) then collect_delivered limit tp ts ids
      else let candidates = map tm_id (sql_limit (room limit ids)
                 (order_by by_id (filter (\<lambda>m. tm_topic m = topic) (messages tp))))
           in collect_delivered limit tp ts
                (ids @ filter (\<lambda>mid. acked_count tp topic mid = length (pm_names tp topic)) candidates))"

definition purge_ids :: "(string list \<Rightarrow> string list) \<Rightarrow> int \<Rightarrow> int \<Rightarrow> topic_log \<Rightarrow> string list" where
  "purge_ids ord now limit tp =
     (let fl = floors tp;
          ids0 = map tm_id (sql_limit limit (filter (expired_message now) (messages tp)));
          ids1 = collect_acked limit tp fl (ord (map fst fl)) ids0
      in if room limit ids1 \<le> 0 then ids1
         else collect_delivered limit tp (ord (remdups (map v_topic (deliveries tp)))) ids1)"

definition purge_topic_messages ::
    "(string list \<Rightarrow> string list) \<Rightarrow> int \<Rightarrow> int \<Rightarrow> topic_log \<Rightarrow> nat \<times> topic_log" where
  "purge_topic_messages ord now limit tp =
     (if limit \<le> 0 then (0, tp)
      else let ids = purge_ids ord now limit tp
           in if ids = [] then (0, tp)
              else (count_where (\<lambda>m. tm_id m \<in> set ids) (messages tp),
                    tp\<lparr>messages := delete_where (\<lambda>m. tm_id m \<in> set ids) (messages tp),
                       deliveries := delete_where (\<lambda>v. v_message_id v \<in> set ids) (deliveries tp)\<rparr>))"

section \<open>Publishing\<close>

record delivery_defaults =
  dd_priority :: int
  dd_max_retries :: int
  dd_timeout_ms :: int

record publish_request =
  pr_topic :: string
  pr_payload :: bytes
  pr_idempotency_key :: "string option"
  pr_metadata :: "string option"
  pr_notes :: "string option"
  pr_priority :: "int option"
  pr_scheduled_at :: int
  pr_max_retries :: "int option"
  pr_timeout_ms :: "int option"
  pr_expires_at :: "int option"
  pr_result_ttl_ms :: "int option"
  pr_namespace :: "string option"
  pr_queue_defaults :: delivery_defaults

definition salted_unique_key :: "string \<Rightarrow> string \<Rightarrow> string \<Rightarrow> string" where
  "salted_unique_key k topic name =
     k @ ''::'' @ string_of_nat (length topic) @ '':'' @ string_of_nat (length name) @ '':'' @ topic @ name"

definition override :: "'a option \<Rightarrow> 'a option \<Rightarrow> 'a \<Rightarrow> 'a" where
  "override a b c = (case or_else a b of Some v \<Rightarrow> v | None \<Rightarrow> c)"

definition delivery_notes :: "json_lib \<Rightarrow> publish_request \<Rightarrow> sub_row \<Rightarrow> string" where
  "delivery_notes js r s =
     (let notes = (case Option.bind (pr_notes r) (parse_map js) of Some m \<Rightarrow> m | None \<Rightarrow> [])
      in to_string js (JObject (map_insert ''subscription'' (JString (u_name s))
           (map_insert ''topic'' (JString (pr_topic r)) notes))))"

definition delivery_job :: "json_lib \<Rightarrow> publish_request \<Rightarrow> sub_row \<Rightarrow> new_job" where
  "delivery_job js r s =
     \<lparr>n_queue = u_queue s, n_task_name = u_task_name s, n_payload = pr_payload r,
      n_priority = override (pr_priority r) (u_priority s) (dd_priority (pr_queue_defaults r)),
      n_scheduled_at = pr_scheduled_at r,
      n_max_retries = override (pr_max_retries r) (u_max_retries s) (dd_max_retries (pr_queue_defaults r)),
      n_timeout_ms = override (pr_timeout_ms r) (u_timeout_ms s) (dd_timeout_ms (pr_queue_defaults r)),
      n_unique_key = map_option (\<lambda>k. salted_unique_key k (pr_topic r) (u_name s)) (pr_idempotency_key r),
      n_metadata = pr_metadata r, n_notes = Some (delivery_notes js r s), n_depends_on = [],
      n_expires_at = pr_expires_at r, n_result_ttl_ms = pr_result_ttl_ms r, n_namespace = pr_namespace r,
      n_debounce_key = None\<rparr>"

text \<open>\<open>Some e\<close>: a log row is written, expiring at \<open>e\<close>.\<close>

definition log_expires :: "int \<Rightarrow> publish_request \<Rightarrow> topic_log \<Rightarrow> int option option" where
  "log_expires now r tp =
     (if list_ex is_log (list_subscriptions_for_topic (pr_topic r) tp) then Some (pr_expires_at r)
      else case get_topic (pr_topic r) tp of
             None \<Rightarrow> None
           | Some t \<Rightarrow>
               if mode_from_wire (t_mode t) = LogMode
               then Some (or_else (pr_expires_at r) (map_option (wrapping_add now) (t_retention_ms t)))
               else None)"

definition publish_to_topic ::
    "json_lib \<Rightarrow> string \<Rightarrow> int \<Rightarrow> int \<Rightarrow> (nat \<Rightarrow> string) \<Rightarrow> (nat \<Rightarrow> int) \<Rightarrow> (nat \<Rightarrow> db \<Rightarrow> db) \<Rightarrow> publish_request
     \<Rightarrow> db \<times> topic_log \<Rightarrow> job list result \<times> db \<times> topic_log" where
  "publish_to_topic js uid now now' ids clock env r s =
     (case s of (d, tp) \<Rightarrow>
       let subs = list_subscriptions_for_topic (pr_topic r) tp;
           (logged, tp1) = (case log_expires now r tp of
              None \<Rightarrow> (Inr (), tp)
            | Some e \<Rightarrow> (case publish_message uid now' (pr_topic r) (pr_payload r) (pr_metadata r) (pr_notes r) e tp of
                          (Inl err, tp') \<Rightarrow> (Inl err, tp') | (Inr _, tp') \<Rightarrow> (Inr (), tp')));
           batch = map (delivery_job js r) (filter (\<lambda>s. mode_from_wire (u_mode s) \<noteq> LogMode) subs)
       in case logged of
            Inl err \<Rightarrow> (Inl err, d, tp1)
          | Inr _ \<Rightarrow>
              if batch = [] then (Inr [], d, tp1)
              else case (if pr_idempotency_key r = None then enqueue_batch js ids clock batch d
                         else enqueue_unique_batch js ids clock env batch d) of
                     (res, d') \<Rightarrow> (res, d', tp1))"

section \<open>Backlog\<close>

record backlog_stats =
  bk_topic :: string
  bk_name :: string
  bk_task_name :: string
  bk_queue :: string
  bk_active :: bool
  bk_durable :: bool
  bk_pending :: int
  bk_running :: int
  bk_dead :: int
  bk_oldest_pending_age_ms :: "int option"

definition no_backlog :: "sub_row \<Rightarrow> backlog_stats" where
  "no_backlog s = \<lparr>bk_topic = u_topic s, bk_name = u_name s, bk_task_name = u_task_name s, bk_queue = u_queue s,
     bk_active = u_active s, bk_durable = u_durable s, bk_pending = 0, bk_running = 0, bk_dead = 0,
     bk_oldest_pending_age_ms = None\<rparr>"

type_synonym backlog_map = "((string \<times> string) \<times> backlog_stats) list"

text \<open>\<open>get_mut\<close> on the map by subscription, followed by an update in place.\<close>

definition adjust :: "string \<times> string \<Rightarrow> (backlog_stats \<Rightarrow> backlog_stats) \<Rightarrow> backlog_map \<Rightarrow> backlog_map" where
  "adjust k f m = map (\<lambda>(k', s). (k', if k' = k then f s else s)) m"

definition add_status_count :: "(string \<times> string) \<times> int \<Rightarrow> int \<Rightarrow> backlog_map \<Rightarrow> backlog_map" where
  "add_status_count ks n = (case ks of (k, status) \<Rightarrow> adjust k (\<lambda>s.
     if status = status_code Pending then s\<lparr>bk_pending := n\<rparr>
     else if status = status_code Running then s\<lparr>bk_running := n\<rparr> else s))"

definition merge_backlog_stats ::
    "int \<Rightarrow> sub_row list \<Rightarrow> (((string \<times> string) \<times> int) \<times> int) list \<Rightarrow> ((string \<times> string) \<times> int option) list
     \<Rightarrow> ((string \<times> string) \<times> int) list \<Rightarrow> backlog_stats list" where
  "merge_backlog_stats now subs counts oldest dead =
     (let m0 = map (\<lambda>s. (sub_key s, no_backlog s)) subs;
          m1 = fold (\<lambda>(ks, n). add_status_count ks n) counts m0;
          m2 = fold (\<lambda>(k, c). case c of None \<Rightarrow> id
                 | Some t \<Rightarrow> adjust k (\<lambda>s. s\<lparr>bk_oldest_pending_age_ms := Some (max (wrapping_i64 (now - t)) 0)\<rparr>)) oldest m1
      in map snd (fold (\<lambda>(k, n). adjust k (\<lambda>s. s\<lparr>bk_dead := n\<rparr>)) dead m2))"

definition tag :: "string option \<Rightarrow> string option \<Rightarrow> string \<times> string" where
  "tag topic name = (case (topic, name) of (Some t, Some n) \<Rightarrow> (t, n) | _ \<Rightarrow> ([], []))"

definition topic_backlog_stats :: "int \<Rightarrow> db \<times> topic_log \<Rightarrow> backlog_stats list" where
  "topic_backlog_stats now s = (case s of (d, tp) \<Rightarrow>
     let tagged = filter (\<lambda>r. r_subscription_name r \<noteq> None) (jobs d);
         k = (\<lambda>r. tag (r_topic r) (r_subscription_name r));
         pending = filter (\<lambda>r. r_status r = status_code Pending) tagged;
         counts = group_count (\<lambda>r. (k r, r_status r))
           (filter (\<lambda>r. r_status r = status_code Pending \<or> r_status r = status_code Running) tagged);
         oldest = map (\<lambda>t. (t, min_opt (map r_created_at (filter (\<lambda>r. k r = t) pending)))) (remdups (map k pending));
         dead = group_count (\<lambda>r. tag (d_topic r) (d_subscription_name r))
           (filter (\<lambda>r. d_subscription_name r \<noteq> None) (dead_letter d))
     in merge_backlog_stats now (subscriptions tp) counts oldest dead)"

section \<open>Compaction spares what is still to be read\<close>

definition topics_ok :: "topic_log \<Rightarrow> bool" where
  "topics_ok tp \<longleftrightarrow> distinct (map sub_key (subscriptions tp)) \<and> distinct (map tm_id (messages tp)) \<and>
     distinct (map delivery_key (deliveries tp))"

text \<open>A subscription is done with a message: its cursor is past it, or it acked the delivery.\<close>

definition done_with :: "topic_log \<Rightarrow> message_row \<Rightarrow> sub_row \<Rightarrow> bool" where
  "done_with tp m s \<longleftrightarrow> (\<exists>c. u_cursor s = Some c \<and> tm_id m \<le> c) \<or>
     (\<exists>v \<in> set (deliveries tp). delivery_key v = (tm_topic m, u_name s, tm_id m) \<and> v_acked v)"

definition floor_ok :: "sub_row list \<Rightarrow> string \<Rightarrow> string option option \<Rightarrow> bool" where
  "floor_ok xs t fl = (case fl of
     None \<Rightarrow> \<forall>s \<in> set xs. u_topic s \<noteq> t
   | Some None \<Rightarrow> True
   | Some (Some c) \<Rightarrow> \<forall>s \<in> set xs. u_topic s = t \<longrightarrow> (\<exists>k. u_cursor s = Some k \<and> c \<le> k))"

lemma floor_ok_add:
  assumes "floor_ok xs (u_topic s) (map_of m (u_topic s))"
  shows "floor_ok (xs @ [s]) (u_topic s) (map_of (add_floor s m) (u_topic s))"
proof (cases "map_of m (u_topic s)")
  case None
  then show ?thesis using assms by (cases "u_cursor s") (auto simp: floor_ok_def add_floor_def update_conv')
next
  case (Some fl)
  show ?thesis
  proof (cases "merge_floor fl (u_cursor s)")
    case None
    then show ?thesis using Some by (simp add: floor_ok_def add_floor_def update_conv')
  next
    case merged: (Some c)
    then obtain a k where "fl = Some a" "u_cursor s = Some k" "c = min a k"
      by (auto simp: merge_floor_def split: option.splits)
    then show ?thesis
      using assms Some merged by (auto simp: floor_ok_def add_floor_def update_conv' min_le_iff_disj)
  qed
qed

lemma fold_add_floor: "floor_ok xs t (map_of (fold add_floor xs []) t)"
proof (induction xs rule: rev_induct)
  case (snoc s xs)
  show ?case
  proof (cases "u_topic s = t")
    case True
    then show ?thesis using floor_ok_add [of xs s] snoc by simp
  next
    case False
    then have "map_of (add_floor s m) t = map_of m t" for m
      by (simp add: add_floor_def update_conv' split: option.split)
    then show ?thesis using snoc False by (simp add: floor_ok_def split: option.splits)
  qed
qed (simp add: floor_ok_def)

lemma floors_below:
  assumes "map_of (floors tp) t = Some (Some c)" "s \<in> set (subscriptions tp)" "is_log s" "u_topic s = t"
  shows "\<exists>k. u_cursor s = Some k \<and> c \<le> k"
  using fold_add_floor [of "filter is_log (subscriptions tp)" t] assms by (simp add: floors_def floor_ok_def)

lemma collect_acked_sound:
  "mid \<in> set (collect_acked limit tp fl ts ids) \<Longrightarrow> mid \<notin> set ids \<Longrightarrow>
   \<exists>m c. m \<in> set (messages tp) \<and> tm_id m = mid \<and> map_of fl (tm_topic m) = Some (Some c) \<and> mid \<le> c"
proof (induction ts arbitrary: ids)
  case (Cons topic ts)
  show ?case
  proof (cases "\<exists>c. map_of fl topic = Some (Some c) \<and> \<not> room limit ids \<le> 0")
    case True
    then obtain c where c: "map_of fl topic = Some (Some c)" "\<not> room limit ids \<le> 0" by blast
    let ?new = "map tm_id (sql_limit (room limit ids) (filter (\<lambda>m. tm_topic m = topic \<and> tm_id m \<le> c) (messages tp)))"
    have mem: "mid \<in> set (collect_acked limit tp fl ts (ids @ ?new))" using Cons.prems(1) c by simp
    show ?thesis
    proof (cases "mid \<in> set ?new")
      case True
      then show ?thesis using c(1) set_sql_limit [of "room limit ids"] by fastforce
    next
      case False
      then show ?thesis using Cons.IH [OF mem] Cons.prems(2) by simp
    qed
  qed (use Cons in \<open>auto split: option.splits if_splits\<close>)
qed simp

lemma acked_by_all:
  assumes "distinct (map delivery_key (deliveries tp))" "acked_count tp topic mid = length (pm_names tp topic)"
    "n \<in> set (pm_names tp topic)"
  shows "\<exists>v \<in> set (deliveries tp). delivery_key v = (topic, n, mid) \<and> v_acked v"
proof -
  let ?P = "\<lambda>v. v_topic v = topic \<and> v_message_id v = mid \<and> v_acked v"
  let ?vs = "filter ?P (deliveries tp)"
  have d: "distinct ?vs" "inj_on delivery_key (set ?vs)"
    using distinct_map_filter [OF assms(1), of ?P] by (simp_all only: distinct_map)
  have "inj_on v_sub (set ?vs)"
    by (rule inj_onI, rule inj_onD [OF d(2)]) (simp_all add: delivery_key_def)
  then have "card (v_sub ` set ?vs) = acked_count tp topic mid"
    using distinct_card [OF d(1)] by (simp add: card_image acked_count_def count_where_def del: set_filter)
  moreover have "card (set (pm_names tp topic)) = length (pm_names tp topic)"
    by (simp add: pm_names_def length_remdups_card_conv)
  moreover have "v_sub ` set ?vs \<subseteq> set (pm_names tp topic)" by (auto simp: pm_names_def)
  ultimately have "v_sub ` set ?vs = set (pm_names tp topic)"
    using assms(2) by (intro card_subset_eq finite_set) simp_all
  then have "n \<in> v_sub ` set ?vs" using assms(3) by (simp only:)
  then show ?thesis by (auto simp: delivery_key_def)
qed

lemma collect_delivered_sound:
  "mid \<in> set (collect_delivered limit tp ts ids) \<Longrightarrow> mid \<notin> set ids \<Longrightarrow>
   \<exists>m. m \<in> set (messages tp) \<and> tm_id m = mid \<and> acked_count tp (tm_topic m) mid = length (pm_names tp (tm_topic m)) \<and>
     set (log_names tp (tm_topic m)) \<subseteq> set (pm_names tp (tm_topic m))"
proof (induction ts arbitrary: ids)
  case (Cons topic ts)
  show ?case
  proof (cases "room limit ids \<le> 0 \<or> list_ex (\<lambda>n. n \<notin> set (pm_names tp topic)) (log_names tp topic)")
    case False
    let ?new = "filter (\<lambda>mid. acked_count tp topic mid = length (pm_names tp topic))
      (map tm_id (sql_limit (room limit ids) (order_by by_id (filter (\<lambda>m. tm_topic m = topic) (messages tp)))))"
    have mem: "mid \<in> set (collect_delivered limit tp ts (ids @ ?new))" using Cons.prems(1) False by (simp add: Let_def)
    show ?thesis
    proof (cases "mid \<in> set ?new")
      case True
      then obtain m where "m \<in> set (sql_limit (room limit ids) (order_by by_id (filter (\<lambda>m. tm_topic m = topic) (messages tp))))"
          "tm_id m = mid" "acked_count tp topic mid = length (pm_names tp topic)" by auto
      moreover have "m \<in> set (messages tp) \<and> tm_topic m = topic"
        using set_sql_limit calculation(1) by fastforce
      ultimately show ?thesis using False by (auto simp: list_ex_iff)
    next
      case False
      then show ?thesis using Cons.IH [OF mem] Cons.prems(2) by simp
    qed
  qed (use Cons in \<open>auto split: if_splits\<close>)
qed simp

lemma purge_ids_sound:
  assumes "topics_ok tp" "m \<in> set (messages tp)" "tm_id m \<in> set (purge_ids ord now limit tp)" "\<not> expired_message now m"
    "s \<in> set (subscriptions tp)" "is_log s" "u_topic s = tm_topic m"
  shows "done_with tp m s"
proof -
  let ?ids0 = "map tm_id (sql_limit limit (filter (expired_message now) (messages tp)))"
  let ?ids1 = "collect_acked limit tp (floors tp) (ord (map fst (floors tp))) ?ids0"
  have inj: "inj_on tm_id (set (messages tp))" using assms(1) by (simp add: topics_ok_def distinct_map)
  have uniq: "m' = m" if "m' \<in> set (messages tp)" "tm_id m' = tm_id m" for m'
    by (rule inj_onD [OF inj that(2,1) assms(2)])
  have not0: "tm_id m \<notin> set ?ids0"
    using assms(4) uniq set_sql_limit [of limit "filter (expired_message now) (messages tp)"] by fastforce
  show ?thesis
  proof (cases "tm_id m \<in> set ?ids1")
    case True
    from collect_acked_sound [OF this not0] obtain c where
      c: "map_of (floors tp) (tm_topic m) = Some (Some c)" "tm_id m \<le> c" using uniq by blast
    from floors_below [OF c(1) assms(5,6,7)] obtain k where "u_cursor s = Some k" "c \<le> k" by blast
    with order_trans [OF c(2)] show ?thesis by (simp add: done_with_def)
  next
    case False
    then have "tm_id m \<in> set (collect_delivered limit tp (ord (remdups (map v_topic (deliveries tp)))) ?ids1)"
      using assms(3) by (auto simp: purge_ids_def Let_def split: if_splits)
    from collect_delivered_sound [OF this False]
    have n: "acked_count tp (tm_topic m) (tm_id m) = length (pm_names tp (tm_topic m))"
      "set (log_names tp (tm_topic m)) \<subseteq> set (pm_names tp (tm_topic m))" using uniq by blast+
    have "u_name s \<in> set (log_names tp (tm_topic m))" using assms(5-7) by (auto simp: log_names_def)
    then have "u_name s \<in> set (pm_names tp (tm_topic m))" using n(2) by blast
    from acked_by_all [OF _ n(1) this] assms(1) show ?thesis by (auto simp: topics_ok_def done_with_def)
  qed
qed

lemma collect_lengths:
  "int (length ids) \<le> limit \<Longrightarrow> int (length (collect_acked limit tp fl ts ids)) \<le> limit"
  "int (length ids) \<le> limit \<Longrightarrow> int (length (collect_delivered limit tp ts ids)) \<le> limit"
proof (induction ts arbitrary: ids)
  case (Cons topic ts)
  have len: "int (length (ids @ filter Q (map f (sql_limit (room limit ids) rows)))) \<le> limit"
    if "\<not> room limit ids \<le> 0" for Q :: "string \<Rightarrow> bool" and f :: "message_row \<Rightarrow> string" and rows ids
  proof -
    have "int (length (sql_limit (room limit ids) rows)) \<le> room limit ids"
      using that length_sql_limit [of "room limit ids" rows] by simp
    moreover have "length (filter Q (map f (sql_limit (room limit ids) rows))) \<le> length (sql_limit (room limit ids) rows)"
      using length_filter_le [of Q "map f (sql_limit (room limit ids) rows)"] by (simp only: length_map)
    ultimately show ?thesis unfolding room_def length_append by linarith
  qed
  { case 1
    have "int (length (collect_acked limit tp fl ts (ids @ map tm_id (sql_limit (room limit ids) rows)))) \<le> limit"
      if "\<not> room limit ids \<le> 0" for rows :: "message_row list"
      by (rule Cons.IH(1)) (use len [OF that, of "\<lambda>_. True" tm_id rows] in simp)
    with 1 Cons.IH(1) show ?case by (simp split: option.split) }
  { case 2
    then show ?case by (auto simp: Let_def intro!: Cons.IH(2) len simp del: filter_map length_append) }
qed simp_all

lemma purge_ids_length: "0 < limit \<Longrightarrow> int (length (purge_ids ord now limit tp)) \<le> limit"
  unfolding purge_ids_def Let_def
  using length_sql_limit [of limit "filter (expired_message now) (messages tp)"]
  by (auto intro!: collect_lengths)

lemma topics_ok_purge:
  "topics_ok tp \<Longrightarrow> topics_ok (tp\<lparr>messages := delete_where P (messages tp), deliveries := delete_where Q (deliveries tp)\<rparr>)"
  by (simp add: topics_ok_def distinct_delete_where)

text \<open>
  C20: compaction never drops a message that somebody still has to read. Whatever order the hash
  maps yield their topics in, a message the sweep deletes has expired, or every log subscription of
  its topic is done with it: its cursor is past the message, or it acked its delivery. A sweep
  deletes at most \<open>limit\<close> messages, reports exactly how many, and leaves the subscriptions,
  their cursors included, alone.
\<close>

theorem compaction_spares_unread:
  assumes "topics_ok tp" "0 < limit" "purge_topic_messages ord now limit tp = (n, tp')"
  shows "topics_ok tp' \<and> subscriptions tp' = subscriptions tp \<and> int n \<le> limit \<and>
    n + length (messages tp') = length (messages tp) \<and>
    (\<forall>m \<in> set (messages tp). m \<notin> set (messages tp') \<longrightarrow> expired_message now m \<or>
      (\<forall>s \<in> set (subscriptions tp). is_log s \<and> u_topic s = tm_topic m \<longrightarrow> done_with tp m s))"
proof (cases "purge_ids ord now limit tp = []")
  case True
  then show ?thesis using assms by (auto simp: purge_topic_messages_def)
next
  case False
  let ?ids = "purge_ids ord now limit tp"
  have tp': "n = count_where (\<lambda>m. tm_id m \<in> set ?ids) (messages tp)"
    "tp' = tp\<lparr>messages := delete_where (\<lambda>m. tm_id m \<in> set ?ids) (messages tp),
       deliveries := delete_where (\<lambda>v. v_message_id v \<in> set ?ids) (deliveries tp)\<rparr>"
    using assms(2,3) False by (auto simp: purge_topic_messages_def Let_def)
  have "distinct (map tm_id (filter (\<lambda>m. tm_id m \<in> set ?ids) (messages tp)))"
    using assms(1) by (simp add: topics_ok_def distinct_map_filter)
  from distinct_card [OF this] have "n = card (tm_id ` set (filter (\<lambda>m. tm_id m \<in> set ?ids) (messages tp)))"
    by (simp add: tp'(1) count_where_def)
  also have "\<dots> \<le> card (set ?ids)" by (rule card_mono) auto
  also have "\<dots> \<le> length ?ids" by (rule card_length)
  finally have "int n \<le> limit" using purge_ids_length [OF assms(2), of ord now tp] by linarith
  moreover have "done_with tp m s" if "m \<in> set (messages tp)" "m \<notin> set (messages tp')" "\<not> expired_message now m"
      "s \<in> set (subscriptions tp)" "is_log s" "u_topic s = tm_topic m" for m s
    by (rule purge_ids_sound [OF assms(1) that(1) _ that(3-6)]) (use that(1,2) in \<open>auto simp: tp' set_delete_where\<close>)
  ultimately show ?thesis
    using topics_ok_purge [OF assms(1)] length_delete_where [of "\<lambda>m. tm_id m \<in> set ?ids" "messages tp"]
    by (auto simp: tp')
qed

section \<open>Reading the log through a cursor\<close>

context row_order
begin

lemma insert_by_front: "(\<And>y. y \<in> set ys \<Longrightarrow> le x y) \<Longrightarrow> insert_by le x ys = x # ys"
  by (cases ys) auto

lemma filter_insert_by:
  "sorted_wrt le ys \<Longrightarrow> filter P (insert_by le x ys) = (if P x then insert_by le x (filter P ys) else filter P ys)"
proof (induction ys)
  case (Cons y ys)
  show ?case
  proof (cases "le x y")
    case True
    have "le x z" if "z \<in> set (filter P (y # ys))" for z
      using that Cons.prems True le_trans [OF True] by (auto split: if_splits)
    then show ?thesis using insert_by_front [of "filter P (y # ys)" x] True by simp
  qed (use Cons in auto)
qed simp

lemma filter_order_by: "filter P (order_by le xs) = order_by le (filter P xs)"
  by (induction xs) (simp_all add: filter_insert_by sorted_order_by)

end

interpretation by_id: row_order by_id
  by unfold_locales (auto simp: by_id_def)

text \<open>A consumer reads a page, acks its last message, and goes on until a read is empty.\<close>

fun consume :: "nat \<Rightarrow> string \<Rightarrow> string \<Rightarrow> int \<Rightarrow> topic_log \<Rightarrow> message_row list \<times> topic_log" where
  "consume 0 topic name limit tp = ([], tp)"
| "consume (Suc n) topic name limit tp =
     (let batch = read_topic_messages topic name limit tp
      in if batch = [] then ([], tp)
         else let (rest, tp') = consume n topic name limit (snd (ack_topic_cursor topic name (tm_id (last batch)) tp))
              in (batch @ rest, tp'))"

definition sorted_log :: "string \<Rightarrow> topic_log \<Rightarrow> message_row list" where
  "sorted_log topic tp = order_by by_id (filter (\<lambda>m. tm_topic m = topic) (messages tp))"

lemma unread_sorted: "order_by by_id (unread topic c tp) = filter (after_cursor c) (sorted_log topic tp)"
  unfolding sorted_log_def by_id.filter_order_by unread_def by (simp add: conj_commute)

lemma strictly_sorted:
  "sorted_wrt by_id ms \<Longrightarrow> distinct (map tm_id ms) \<Longrightarrow> sorted_wrt (\<lambda>m m'. tm_id m < tm_id m') ms"
proof (induction ms)
  case (Cons m ms)
  have "tm_id m < tm_id x" if "x \<in> set ms" for x
  proof (rule order.not_eq_order_implies_strict)
    show "tm_id m \<noteq> tm_id x" using Cons.prems(2) that by auto
    show "tm_id m \<le> tm_id x" using Cons.prems(1) that by (simp add: by_id_def)
  qed
  then show ?case using Cons by simp
qed simp

lemma sorted_log_strict: "topics_ok tp \<Longrightarrow> sorted_wrt (\<lambda>m m'. tm_id m < tm_id m') (sorted_log topic tp)"
  by (rule strictly_sorted)
    (simp_all add: sorted_log_def by_id.sorted_order_by topics_ok_def distinct_map_filter)

lemma last_greatest: "sorted_wrt (\<lambda>m m'. tm_id m < tm_id m') ms \<Longrightarrow> m \<in> set ms \<Longrightarrow> \<not> tm_id (last ms) < tm_id m"
proof (induction ms)
  case (Cons m' ms)
  then show ?case by (cases "ms = []") (auto dest: less_asym last_in_set)
qed simp

lemma after_last_read:
  assumes "sorted_wrt (\<lambda>m m'. tm_id m < tm_id m') L" "rest = filter (after_cursor c) L" "0 < n" "rest \<noteq> []"
  shows "filter (after_cursor (Some (tm_id (last (take n rest))))) L = drop n rest"
proof -
  let ?k = "tm_id (last (take n rest))"
  have s: "sorted_wrt (\<lambda>m m'. tm_id m < tm_id m') (take n rest @ drop n rest)"
    using assms(1,2) by (simp add: sorted_wrt_filter)
  have ne: "take n rest \<noteq> []" using assms(3,4) by (cases rest) (auto simp: gr0_conv_Suc)
  have "last (take n rest) \<in> set rest" using last_in_set [OF ne] by (rule in_set_takeD)
  then have c: "after_cursor c (last (take n rest))" using assms(2) by simp
  have "sorted_wrt (\<lambda>m m'. tm_id m < tm_id m') (take n rest)" using s by (simp add: sorted_wrt_append)
  note low = last_greatest [OF this]
  have high: "?k < tm_id m" if "m \<in> set (drop n rest)" for m
    using s that last_in_set [OF ne] unfolding sorted_wrt_append by blast
  have "filter (after_cursor (Some ?k)) L = filter (after_cursor (Some ?k)) rest"
    unfolding assms(2) filter_filter
    by (rule filter_cong) (use c in \<open>auto simp: after_cursor_def assms(2) split: option.splits dest: less_trans\<close>)
  also have "\<dots> = filter (after_cursor (Some ?k)) (take n rest @ drop n rest)" by simp
  also have "\<dots> = drop n rest"
    unfolding filter_append using low high by (auto simp: filter_empty_conv filter_id_conv after_cursor_def)
  finally show ?thesis .
qed

lemma log_sub_cursor [simp]: "log_sub topic name (s\<lparr>u_cursor := c\<rparr>) = log_sub topic name s"
  by (simp add: log_sub_def is_log_def)

lemma sub_key_cursor [simp]: "sub_key (s\<lparr>u_cursor := c\<rparr>) = sub_key s"
  by (simp add: sub_key_def)

lemma can_ack_log: "can_ack topic name c s \<Longrightarrow> log_sub topic name s"
  by (simp add: can_ack_def)

lemma log_sub_key: "log_sub topic name s \<Longrightarrow> sub_key s = (topic, name)"
  by (simp add: log_sub_def sub_key_def)

lemma find_log_ack:
  "find (log_sub topic name) subs = Some s \<Longrightarrow> can_ack topic name c s \<Longrightarrow>
   find (log_sub topic name) (update_where (can_ack topic name c) (\<lambda>s. s\<lparr>u_cursor := Some c\<rparr>) subs) =
     Some (s\<lparr>u_cursor := Some c\<rparr>)"
proof (induction subs)
  case (Cons r subs)
  then show ?case by (cases "log_sub topic name r") (auto simp: update_where_def dest: can_ack_log)
qed simp

lemma others_ack:
  "filter (\<lambda>s. sub_key s \<noteq> (topic, name)) (update_where (can_ack topic name c) (\<lambda>s. s\<lparr>u_cursor := Some c\<rparr>) subs) =
   filter (\<lambda>s. sub_key s \<noteq> (topic, name)) subs"
proof (induction subs)
  case (Cons r subs)
  then show ?case by (auto simp: update_where_def dest: can_ack_log log_sub_key)
qed (simp add: update_where_def)

lemma keys_ack: "map sub_key (update_where P (\<lambda>s. s\<lparr>u_cursor := c\<rparr>) subs) = map sub_key subs"
  by (rule map_key_update_where) simp

lemma ack_frame [simp]:
  "messages (snd (ack_topic_cursor topic name c tp)) = messages tp"
  "deliveries (snd (ack_topic_cursor topic name c tp)) = deliveries tp"
  "sorted_log t (snd (ack_topic_cursor topic name c tp)) = sorted_log t tp"
  "topics_ok (snd (ack_topic_cursor topic name c tp)) = topics_ok tp"
  by (simp_all add: ack_topic_cursor_def sorted_log_def topics_ok_def keys_ack)

lemma read_eq:
  "0 < limit \<Longrightarrow> find (log_sub topic name) (subscriptions tp) = Some s \<Longrightarrow>
   read_topic_messages topic name limit tp = take (nat limit) (filter (after_cursor (u_cursor s)) (sorted_log topic tp))"
  by (simp add: read_topic_messages_def sql_limit_def unread_sorted)

lemma consume_all:
  assumes "topics_ok tp" "0 < limit" "find (log_sub topic name) (subscriptions tp) = Some s"
    "length (filter (after_cursor (u_cursor s)) (sorted_log topic tp)) \<le> fuel"
  shows "fst (consume fuel topic name limit tp) = filter (after_cursor (u_cursor s)) (sorted_log topic tp) \<and>
    read_topic_messages topic name limit (snd (consume fuel topic name limit tp)) = [] \<and>
    messages (snd (consume fuel topic name limit tp)) = messages tp \<and>
    filter (\<lambda>s. sub_key s \<noteq> (topic, name)) (subscriptions (snd (consume fuel topic name limit tp))) =
      filter (\<lambda>s. sub_key s \<noteq> (topic, name)) (subscriptions tp)"
  using assms(1,3,4)
proof (induction fuel arbitrary: tp s)
  case 0
  then show ?case by (simp add: read_eq [OF assms(2) "0.prems"(2)])
next
  case (Suc fuel)
  define rest where "rest = filter (after_cursor (u_cursor s)) (sorted_log topic tp)"
  let ?batch = "take (nat limit) rest"
  have read: "read_topic_messages topic name limit tp = ?batch"
    unfolding rest_def by (rule read_eq [OF assms(2) Suc.prems(2)])
  show ?case
  proof (cases "rest = []")
    case True
    then show ?thesis using read by (simp add: rest_def)
  next
    case False
    let ?c = "tm_id (last ?batch)"
    let ?tp1 = "snd (ack_topic_cursor topic name ?c tp)" and ?s1 = "s\<lparr>u_cursor := Some ?c\<rparr>"
    have n: "0 < nat limit" using assms(2) by simp
    have ne: "?batch \<noteq> []" using n False by simp
    have "last ?batch \<in> set rest" using last_in_set [OF ne] by (rule in_set_takeD)
    then have "after_cursor (u_cursor s) (last ?batch)" by (simp add: rest_def)
    moreover have "log_sub topic name s" using Suc.prems(2) by (auto simp: find_Some_iff)
    ultimately have "can_ack topic name ?c s" by (simp add: can_ack_def after_cursor_def split: option.splits)
    from find_log_ack [OF Suc.prems(2) this]
    have f1: "find (log_sub topic name) (subscriptions ?tp1) = Some ?s1" by (simp add: ack_topic_cursor_def)
    have r1: "filter (after_cursor (u_cursor ?s1)) (sorted_log topic ?tp1) = drop (nat limit) rest"
      using after_last_read [OF sorted_log_strict [OF Suc.prems(1)] rest_def n False] by simp
    have "length (drop (nat limit) rest) \<le> fuel" using Suc.prems(3) n False by (simp add: rest_def [symmetric])
    then have "length (filter (after_cursor (u_cursor ?s1)) (sorted_log topic ?tp1)) \<le> fuel" by (simp only: r1)
    from Suc.IH [OF _ f1 this] Suc.prems(1)
    have IH: "fst (consume fuel topic name limit ?tp1) = drop (nat limit) rest"
      "read_topic_messages topic name limit (snd (consume fuel topic name limit ?tp1)) = []"
      "messages (snd (consume fuel topic name limit ?tp1)) = messages tp"
      "filter (\<lambda>s. sub_key s \<noteq> (topic, name)) (subscriptions (snd (consume fuel topic name limit ?tp1))) =
        filter (\<lambda>s. sub_key s \<noteq> (topic, name)) (subscriptions ?tp1)"
      unfolding r1 by simp_all
    have o1: "filter (\<lambda>s. sub_key s \<noteq> (topic, name)) (subscriptions ?tp1) =
        filter (\<lambda>s. sub_key s \<noteq> (topic, name)) (subscriptions tp)"
      by (simp add: ack_topic_cursor_def others_ack)
    show ?thesis
      unfolding rest_def [symmetric] using ne IH o1 by (simp add: read Let_def case_prod_unfold)
  qed
qed

text \<open>
  C22: a consumer that reads pages of any size and acks the last message of each sees every message
  of its topic after its cursor exactly once, in the order of their ids; then it has caught up. No
  other subscription's cursor moves and nothing is deleted.
\<close>

theorem log_read_complete:
  assumes "topics_ok tp" "0 < limit" "find (log_sub topic name) (subscriptions tp) = Some s"
    "length (unread topic (u_cursor s) tp) \<le> fuel" "consume fuel topic name limit tp = (seen, tp')"
  shows "mset seen = mset (unread topic (u_cursor s) tp) \<and> sorted_wrt (\<lambda>m m'. tm_id m < tm_id m') seen \<and>
    read_topic_messages topic name limit tp' = [] \<and> messages tp' = messages tp \<and>
    filter (\<lambda>s. sub_key s \<noteq> (topic, name)) (subscriptions tp') = filter (\<lambda>s. sub_key s \<noteq> (topic, name)) (subscriptions tp)"
proof -
  have "length (filter (after_cursor (u_cursor s)) (sorted_log topic tp)) \<le> fuel"
    using assms(4) by (metis unread_sorted length_order_by)
  from consume_all [OF assms(1-3) this] have "seen = filter (after_cursor (u_cursor s)) (sorted_log topic tp)"
    "read_topic_messages topic name limit tp' = []" "messages tp' = messages tp"
    "filter (\<lambda>s. sub_key s \<noteq> (topic, name)) (subscriptions tp') = filter (\<lambda>s. sub_key s \<noteq> (topic, name)) (subscriptions tp)"
    by (simp_all add: assms(5))
  moreover have "mset (filter (after_cursor (u_cursor s)) (sorted_log topic tp)) = mset (unread topic (u_cursor s) tp)"
    by (metis unread_sorted mset_order_by)
  ultimately show ?thesis using sorted_log_strict [OF assms(1)] by (simp add: sorted_wrt_filter)
qed

definition demo_sub :: "string \<Rightarrow> subscription_mode \<Rightarrow> string option \<Rightarrow> sub_row" where
  "demo_sub name mode cursor = \<lparr>u_topic = ''news'', u_name = name, u_task_name = ''mail'', u_queue = ''default'',
     u_active = True, u_durable = True, u_owner = None, u_created_at = 0, u_priority = None, u_max_retries = None,
     u_timeout_ms = None, u_mode = mode_str mode, u_cursor = cursor\<rparr>"

definition demo_message :: "string \<Rightarrow> message_row" where
  "demo_message mid = \<lparr>tm_id = mid, tm_topic = ''news'', tm_payload = [], tm_metadata = None, tm_notes = None,
     tm_created_at = 0, tm_expires_at = None\<rparr>"

definition demo_topics :: topic_log where
  "demo_topics = \<lparr>subscriptions = [demo_sub ''a'' LogMode (Some ''m1''), demo_sub ''b'' LogMode (Some ''m2''),
       demo_sub ''c'' Fanout None],
     messages = map demo_message [''m3'', ''m1'', ''m2''], deliveries = [], topics = []\<rparr>"

lemma topics_ok_demo: "topics_ok demo_topics"
  by (simp add: topics_ok_def demo_topics_def demo_sub_def demo_message_def sub_key_def)

theorem compaction_spares_unread_witness:
  "map tm_id (messages (snd (purge_topic_messages id 5 10 demo_topics))) = [''m3'', ''m2''] \<and>
   done_with demo_topics (demo_message ''m1'') (demo_sub ''a'' LogMode (Some ''m1'')) \<and>
   done_with demo_topics (demo_message ''m1'') (demo_sub ''b'' LogMode (Some ''m2'')) \<and>
   topics_ok (snd (purge_topic_messages id 5 10 demo_topics))"
proof -
  obtain n tp' where r: "purge_topic_messages id 5 10 demo_topics = (n, tp')" by fastforce
  have run: "map tm_id (messages (snd (purge_topic_messages id 5 10 demo_topics))) = [''m3'', ''m2'']"
    "demo_message ''m1'' \<in> set (messages demo_topics)"
    "demo_message ''m1'' \<notin> set (messages (snd (purge_topic_messages id 5 10 demo_topics)))"
    "\<not> expired_message 5 (demo_message ''m1'')"
    "demo_sub ''a'' LogMode (Some ''m1'') \<in> set (subscriptions demo_topics)" "is_log (demo_sub ''a'' LogMode (Some ''m1''))"
    "demo_sub ''b'' LogMode (Some ''m2'') \<in> set (subscriptions demo_topics)" "is_log (demo_sub ''b'' LogMode (Some ''m2''))"
    by code_simp+
  have t: "u_topic (demo_sub n md c) = tm_topic (demo_message m)" for n md c m
    by (simp add: demo_sub_def demo_message_def)
  have c: "topics_ok tp'" "\<forall>m \<in> set (messages demo_topics). m \<notin> set (messages tp') \<longrightarrow> expired_message 5 m \<or>
      (\<forall>s \<in> set (subscriptions demo_topics). is_log s \<and> u_topic s = tm_topic m \<longrightarrow> done_with demo_topics m s)"
    using compaction_spares_unread [OF topics_ok_demo _ r] by simp_all
  show ?thesis using c run t unfolding r snd_conv by blast
qed

theorem log_read_complete_witness:
  "map tm_id (fst (consume 2 ''news'' ''a'' 1 demo_topics)) = [''m2'', ''m3''] \<and>
   mset (fst (consume 2 ''news'' ''a'' 1 demo_topics)) = mset (unread ''news'' (Some ''m1'') demo_topics)"
proof -
  obtain seen tp' where r: "consume 2 ''news'' ''a'' 1 demo_topics = (seen, tp')" by fastforce
  have f: "find (log_sub ''news'' ''a'') (subscriptions demo_topics) = Some (demo_sub ''a'' LogMode (Some ''m1''))"
    by code_simp
  have l: "length (unread ''news'' (u_cursor (demo_sub ''a'' LogMode (Some ''m1''))) demo_topics) \<le> 2"
    by code_simp
  have "mset seen = mset (unread ''news'' (u_cursor (demo_sub ''a'' LogMode (Some ''m1''))) demo_topics)"
    using log_read_complete [OF topics_ok_demo _ f l r] by simp
  moreover have "map tm_id (fst (consume 2 ''news'' ''a'' 1 demo_topics)) = [''m2'', ''m3'']" by code_simp
  ultimately show ?thesis by (simp add: r demo_sub_def)
qed

end
