(* ===== verification/Settings.thy ===== *)
theory Settings
  imports Dead_Letter Shedding Breaker
begin

text \<open>
  The settings table of \<open>storage/diesel_common/dashboard_settings.rs\<close> and what the program
  keeps in it: the reserved key prefixes of \<open>settings.rs\<close>, the contract floor of
  \<open>contract.rs\<close>, the retention report and previews of \<open>scheduler/retention.rs\<close>, and the
  JSON documents that the dashboard's stores edit through \<open>dashboard/stores/kv.rs\<close>. How a
  document is written as JSON is a parameter, a \<open>doc_codec\<close>; \<open>debug\<close> is the quoted form of a
  string in an error text.
\<close>

section \<open>The table\<close>

record setting_row =
  ss_key :: string
  ss_value :: string
  ss_updated_at :: int

type_synonym settings = "setting_row list"

definition get_setting :: "string \<Rightarrow> settings \<Rightarrow> string option" where
  "get_setting key rows = map_option ss_value (find_row ss_key key rows)"

definition set_setting :: "int \<Rightarrow> string \<Rightarrow> string \<Rightarrow> settings \<Rightarrow> settings" where
  "set_setting now key v rows =
     (if find_row ss_key key rows = None
      then rows @ [\<lparr>ss_key = key, ss_value = v, ss_updated_at = now\<rparr>]
      else update_where (\<lambda>r. ss_key r = key) (\<lambda>r. r\<lparr>ss_value := v, ss_updated_at := now\<rparr>) rows)"

definition set_setting_if :: "int \<Rightarrow> string \<Rightarrow> string option \<Rightarrow> string \<Rightarrow> settings \<Rightarrow> bool \<times> settings" where
  "set_setting_if now key expected v rows =
     (case expected of
        Some e \<Rightarrow>
          (0 < count_where (\<lambda>r. ss_key r = key \<and> ss_value r = e) rows,
           update_where (\<lambda>r. ss_key r = key \<and> ss_value r = e)
             (\<lambda>r. r\<lparr>ss_value := v, ss_updated_at := now\<rparr>) rows)
      | None \<Rightarrow>
          if find_row ss_key key rows = None
          then (True, rows @ [\<lparr>ss_key = key, ss_value = v, ss_updated_at = now\<rparr>])
          else (False, rows))"

definition delete_setting :: "string \<Rightarrow> settings \<Rightarrow> bool \<times> settings" where
  "delete_setting key rows =
     (0 < count_where (\<lambda>r. ss_key r = key) rows, delete_where (\<lambda>r. ss_key r = key) rows)"

definition list_settings :: "settings \<Rightarrow> (string \<times> string) list" where
  "list_settings rows = map (\<lambda>r. (ss_key r, ss_value r)) rows"

section \<open>Reserved keys\<close>

definition RESERVED_SETTING_PREFIXES :: "string list" where
  "RESERVED_SETTING_PREFIXES = [''auth:'', ''contract:'', ''middleware:disabled:'', ''retention:'',
     ''flexiq.webhooks'', ''webhook:'', ''webhooks:'']"

definition is_reserved_setting_key :: "string \<Rightarrow> bool" where
  "is_reserved_setting_key key \<longleftrightarrow> list_ex (starts_with key) RESERVED_SETTING_PREFIXES"

section \<open>The contract floor\<close>

definition CONTRACT_VERSION :: nat where
  "CONTRACT_VERSION = 1"

definition MIN_CONTRACT_VERSION :: nat where
  "MIN_CONTRACT_VERSION = 1"

definition CONTRACT_FLOOR_SETTING :: string where
  "CONTRACT_FLOOR_SETTING = ''contract:min_sdk''"

text \<open>\<open>str::trim\<close>: the UTF-8 forms of the characters with the property White_Space.\<close>

definition WHITE_SPACE :: "string list" where
  "WHITE_SPACE = [[CHR 0x09], [CHR 0x0A], [CHR 0x0B], [CHR 0x0C], [CHR 0x0D], [CHR 0x20],
     [CHR 0xC2, CHR 0x85], [CHR 0xC2, CHR 0xA0], [CHR 0xE1, CHR 0x9A, CHR 0x80],
     [CHR 0xE2, CHR 0x80, CHR 0x80], [CHR 0xE2, CHR 0x80, CHR 0x81], [CHR 0xE2, CHR 0x80, CHR 0x82],
     [CHR 0xE2, CHR 0x80, CHR 0x83], [CHR 0xE2, CHR 0x80, CHR 0x84], [CHR 0xE2, CHR 0x80, CHR 0x85],
     [CHR 0xE2, CHR 0x80, CHR 0x86], [CHR 0xE2, CHR 0x80, CHR 0x87], [CHR 0xE2, CHR 0x80, CHR 0x88],
     [CHR 0xE2, CHR 0x80, CHR 0x89], [CHR 0xE2, CHR 0x80, CHR 0x8A], [CHR 0xE2, CHR 0x80, CHR 0xA8],
     [CHR 0xE2, CHR 0x80, CHR 0xA9], [CHR 0xE2, CHR 0x80, CHR 0xAF], [CHR 0xE2, CHR 0x81, CHR 0x9F],
     [CHR 0xE3, CHR 0x80, CHR 0x80]]"

fun strip_all :: "string list \<Rightarrow> string \<Rightarrow> string" where
  "strip_all ws s =
     (case find (starts_with s) ws of
        None \<Rightarrow> s
      | Some w \<Rightarrow> if w = [] \<or> s = [] then s else strip_all ws (drop (length w) s))"

declare strip_all.simps [simp del]

definition trim :: "string \<Rightarrow> string" where
  "trim s = rev (strip_all (map rev WHITE_SPACE) (rev (strip_all WHITE_SPACE s)))"

definition parse_u32 :: "string \<Rightarrow> nat option" where
  "parse_u32 s =
     (let digits = (case s of c # cs \<Rightarrow> if c = CHR ''+'' then cs else s | [] \<Rightarrow> [])
      in if digits = [] then None
         else case parse_digits 0 digits of None \<Rightarrow> None | Some n \<Rightarrow> if n < 2 ^ 32 then Some n else None)"

definition min_contract :: "(string \<Rightarrow> string) \<Rightarrow> settings \<Rightarrow> nat result" where
  "min_contract debug rows =
     (case get_setting CONTRACT_FLOOR_SETTING rows of
        None \<Rightarrow> Inr MIN_CONTRACT_VERSION
      | Some raw \<Rightarrow>
          (case parse_u32 (trim raw) of
             Some level \<Rightarrow> Inr level
           | None \<Rightarrow> Inl (Config (CONTRACT_FLOOR_SETTING @ '' holds '' @ debug raw @
               '', which is not a contract level;              set it to a whole number to repair the floor''))))"

definition set_min_contract :: "int \<Rightarrow> nat \<Rightarrow> settings \<Rightarrow> unit result \<times> settings" where
  "set_min_contract now level rows =
     (if CONTRACT_VERSION < level
      then (Inl (Config (''cannot require contract '' @ string_of_nat level @ '': this build speaks contract '' @
             string_of_nat CONTRACT_VERSION @ '', so the write would lock it out of its own storage'')), rows)
      else if level < MIN_CONTRACT_VERSION
      then (Inl (Config (''cannot require contract '' @ string_of_nat level @ '': '' @ string_of_nat MIN_CONTRACT_VERSION @
             '' is the oldest level any build speaks, so a lower floor admits nothing extra and only obscures the dial'')), rows)
      else (Inr (), set_setting now CONTRACT_FLOOR_SETTING (string_of_nat level) rows))"

definition ensure_contract_supported :: "(string \<Rightarrow> string) \<Rightarrow> settings \<Rightarrow> unit result" where
  "ensure_contract_supported debug rows =
     and_then (min_contract debug rows) (\<lambda>required.
       if CONTRACT_VERSION < required then Inl (ContractTooOld CONTRACT_VERSION required) else Inr ())"

section \<open>Documents\<close>

text \<open>\<open>serde_json::from_str\<close> and \<open>to_string\<close> of a document type, with its default.\<close>

record 'a doc_codec =
  decode :: "string \<Rightarrow> 'a option"
  encode :: "'a \<Rightarrow> string result"
  doc_default :: 'a

definition MAX_ATTEMPTS :: nat where
  "MAX_ATTEMPTS = 25"

definition kv_parse :: "'a doc_codec \<Rightarrow> string option \<Rightarrow> 'a" where
  "kv_parse c raw =
     (case raw of
        None \<Rightarrow> doc_default c
      | Some s \<Rightarrow> (case decode c s of Some doc \<Rightarrow> doc | None \<Rightarrow> doc_default c))"

definition kv_read :: "'a doc_codec \<Rightarrow> string \<Rightarrow> settings \<Rightarrow> 'a" where
  "kv_read c key rows = kv_parse c (get_setting key rows)"

definition kv_write :: "int \<Rightarrow> 'a doc_codec \<Rightarrow> string \<Rightarrow> 'a \<Rightarrow> settings \<Rightarrow> unit result \<times> settings" where
  "kv_write now c key v rows =
     (case encode c v of Inl e \<Rightarrow> (Inl e, rows) | Inr s \<Rightarrow> (Inr (), set_setting now key s rows))"

text \<open>
  The read and the conditional write of an attempt are two statements; \<open>env i\<close> is what other
  connections commit before the \<open>i\<close>-th statement.
\<close>

fun kv_loop ::
    "nat \<Rightarrow> nat \<Rightarrow> (nat \<Rightarrow> int) \<Rightarrow> (nat \<Rightarrow> settings \<Rightarrow> settings) \<Rightarrow> 'a doc_codec \<Rightarrow> string \<Rightarrow> ('a \<Rightarrow> 'r \<times> 'a) \<Rightarrow>
     settings \<Rightarrow> 'r result \<times> settings" where
  "kv_loop 0 i clock env c key mutate rows = (Inl (SettingConflict key), rows)"
| "kv_loop (Suc n) i clock env c key mutate rows =
     (let rows1 = env i rows;
          stored = get_setting key rows1;
          document = kv_parse c stored;
          (out, document') = mutate document
      in case encode c document of
           Inl e \<Rightarrow> (Inl e, rows1)
         | Inr before \<Rightarrow>
             (case encode c document' of
                Inl e \<Rightarrow> (Inl e, rows1)
              | Inr encoded \<Rightarrow>
                  if encoded = before then (Inr out, rows1)
                  else case set_setting_if (clock i) key stored encoded (env (Suc i) rows1) of
                         (True, rows2) \<Rightarrow> (Inr out, rows2)
                       | (False, rows2) \<Rightarrow> kv_loop n (Suc (Suc i)) clock env c key mutate rows2))"

definition kv_update ::
    "(nat \<Rightarrow> int) \<Rightarrow> (nat \<Rightarrow> settings \<Rightarrow> settings) \<Rightarrow> 'a doc_codec \<Rightarrow> string \<Rightarrow> ('a \<Rightarrow> 'r \<times> 'a) \<Rightarrow>
     settings \<Rightarrow> 'r result \<times> settings" where
  "kv_update clock env c key mutate rows = kv_loop MAX_ATTEMPTS 0 clock env c key mutate rows"

definition strip_prefix :: "string \<Rightarrow> string \<Rightarrow> string option" where
  "strip_prefix p s = (if starts_with s p then Some (drop (length p) s) else None)"

definition scan_prefix :: "string \<Rightarrow> settings \<Rightarrow> (string \<times> string) list" where
  "scan_prefix p rows = order_by (\<lambda>a b. fst a \<le> fst b)
     (List.map_filter (\<lambda>(key, v). map_option (\<lambda>suffix. (suffix, v)) (strip_prefix p key)) (list_settings rows))"

section \<open>The retention report\<close>

record effective_retention =
  ef_enabled :: bool
  ef_defaulted :: bool
  ef_namespace :: string
  ef_reported_at :: int
  ef_windows :: retention_config

record retention_preview =
  rp_enabled :: bool
  rp_defaulted :: bool
  rp_namespace :: string
  rp_reference_time :: int
  rp_windows :: retention_config
  rp_counts :: retention_counts
  rp_total :: nat

definition DEFAULT_NAMESPACE :: string where
  "DEFAULT_NAMESPACE = ''default''"

definition RETENTION_SETTING_PREFIX :: string where
  "RETENTION_SETTING_PREFIX = ''retention:effective:''"

definition retention_setting_key :: "string option \<Rightarrow> string" where
  "retention_setting_key namespace = RETENTION_SETTING_PREFIX @ unwrap_or namespace DEFAULT_NAMESPACE"

definition publish_effective_retention ::
    "int \<Rightarrow> effective_retention doc_codec \<Rightarrow> string option \<Rightarrow> effective_retention \<Rightarrow> settings \<Rightarrow> unit result \<times> settings" where
  "publish_effective_retention now c namespace snapshot rows =
     (case encode c snapshot of
        Inl e \<Rightarrow> (Inl e, rows)
      | Inr json \<Rightarrow> (Inr (), set_setting now (retention_setting_key namespace) json rows))"

definition read_effective_retention ::
    "effective_retention doc_codec \<Rightarrow> string option \<Rightarrow> settings \<Rightarrow> effective_retention option" where
  "read_effective_retention c namespace rows =
     Option.bind (get_setting (retention_setting_key namespace) rows) (decode c)"

definition preview_of :: "string option \<Rightarrow> int \<Rightarrow> bool \<Rightarrow> retention_config \<Rightarrow> db \<Rightarrow> retention_preview" where
  "preview_of namespace now defaulted windows d =
     (let counts = count_expired_rows (cutoffs windows now) now d
      in \<lparr>rp_enabled = \<not> is_empty_config windows, rp_defaulted = defaulted,
          rp_namespace = unwrap_or namespace DEFAULT_NAMESPACE, rp_reference_time = now, rp_windows = windows,
          rp_counts = counts, rp_total = total_rows counts\<rparr>)"

definition dry_run :: "retention_config option \<Rightarrow> int option \<Rightarrow> string option \<Rightarrow> int \<Rightarrow> db \<Rightarrow> retention_preview" where
  "dry_run retention result_ttl_ms namespace now d =
     preview_of namespace now (is_retention_defaulted retention result_ttl_ms)
       (resolve_effective_retention retention result_ttl_ms) d"

definition dry_run_reported ::
    "effective_retention doc_codec \<Rightarrow> string option \<Rightarrow> int \<Rightarrow> settings \<Rightarrow> db \<Rightarrow> retention_preview" where
  "dry_run_reported c namespace now rows d =
     (case read_effective_retention c namespace rows of
        None \<Rightarrow> dry_run None None namespace now d
      | Some published \<Rightarrow> preview_of namespace now (ef_defaulted published) (sanitized (ef_windows published)) d)"

section \<open>Laws of the table\<close>

definition settings_ok :: "settings \<Rightarrow> bool" where
  "settings_ok rows \<longleftrightarrow> distinct (map ss_key rows)"

lemma get_set_setting: "get_setting k (set_setting now key v rows) = (if k = key then Some v else get_setting k rows)"
proof (cases "find_row ss_key k rows")
  case None
  then show ?thesis
    by (auto simp: get_setting_def set_setting_def find_row_append find_row_update_where)
next
  case (Some r)
  then have "ss_key r = k" by (auto dest: find_row_SomeD)
  then show ?thesis using Some
    by (auto simp: get_setting_def set_setting_def find_row_append find_row_update_where)
qed

text \<open>The conditional write is a compare-and-set on the stored value.\<close>

lemma set_setting_if_cas:
  assumes "settings_ok rows"
  shows "set_setting_if now key expected v rows =
    (if get_setting key rows = expected then (True, set_setting now key v rows) else (False, rows))"
proof (cases "find_row ss_key key rows")
  case None
  then have "\<not> ss_key r = key" if "r \<in> set rows" for r using that by (auto simp: find_row_None_iff)
  then show ?thesis using None
    by (auto simp: set_setting_if_def set_setting_def get_setting_def count_where_0_iff update_where_id
        split: option.split)
next
  case (Some row)
  then have only: "r = row" if "r \<in> set rows" "ss_key r = key" for r
    using that assms by (simp add: settings_ok_def find_row_Some_iff) (metis find_row_Some_iff option.inject)
  have mem: "row \<in> set rows" "ss_key row = key" using Some by (auto dest: find_row_SomeD)
  show ?thesis
  proof (cases expected)
    case None
    then show ?thesis using Some by (simp add: set_setting_if_def get_setting_def)
  next
    case (Some e)
    show ?thesis
    proof (cases "ss_value row = e")
      case True
      then have "update_where (\<lambda>r. ss_key r = key \<and> ss_value r = e) f rows = update_where (\<lambda>r. ss_key r = key) f rows" for f
        unfolding update_where_def using only by (intro map_cong) auto
      moreover have "0 < count_where (\<lambda>r. ss_key r = key \<and> ss_value r = e) rows"
        using mem True by (metis (mono_tags, lifting) count_where_0_iff gr0I)
      ultimately show ?thesis
        using Some \<open>find_row ss_key key rows = Some row\<close> True by (simp add: set_setting_if_def set_setting_def get_setting_def)
    next
      case False
      then have "\<not> (ss_key r = key \<and> ss_value r = e)" if "r \<in> set rows" for r using only [OF that] by auto
      then show ?thesis
        using Some \<open>find_row ss_key key rows = Some row\<close> False
        by (simp add: set_setting_if_def get_setting_def count_where_0_iff update_where_id)
    qed
  qed
qed

lemma settings_ok_set [simp]: "settings_ok rows \<Longrightarrow> settings_ok (set_setting now key v rows)"
  by (auto simp: settings_ok_def set_setting_def map_key_update_where find_row_None_iff)

section \<open>An update is atomic\<close>

text \<open>The update as one indivisible step.\<close>

definition kv_atomic ::
    "int \<Rightarrow> 'a doc_codec \<Rightarrow> string \<Rightarrow> ('a \<Rightarrow> 'r \<times> 'a) \<Rightarrow> settings \<Rightarrow> 'r result \<times> settings" where
  "kv_atomic now c key mutate rows =
     (let document = kv_read c key rows;
          (out, document') = mutate document
      in case encode c document of
           Inl e \<Rightarrow> (Inl e, rows)
         | Inr before \<Rightarrow>
             (case encode c document' of
                Inl e \<Rightarrow> (Inl e, rows)
              | Inr encoded \<Rightarrow>
                  (Inr out, if encoded = before then rows else set_setting now key encoded rows)))"

text \<open>What the other connections commit before the statements \<open>i\<close> to \<open>j - 1\<close>.\<close>

definition others :: "(nat \<Rightarrow> settings \<Rightarrow> settings) \<Rightarrow> nat \<Rightarrow> nat \<Rightarrow> settings \<Rightarrow> settings" where
  "others env i j rows = fold env [i..<j] rows"

lemma others_Suc: "i < j \<Longrightarrow> others env (Suc i) j (env i rows) = others env i j rows"
  by (simp add: others_def upt_conv_Cons)

lemma others_one: "others env i (Suc i) rows = env i rows"
  by (simp add: others_def)

lemma others_two: "Suc i < j \<Longrightarrow> others env (Suc (Suc i)) j (env (Suc i) (env i rows)) = others env i j rows"
  by (simp add: others_Suc)

lemma kv_attempt:
  assumes "settings_ok (env (Suc i) (env i rows))"
  shows "kv_loop (Suc n) i clock env c key mutate rows = kv_atomic (clock i) c key mutate (others env i (Suc i) rows) \<or>
    kv_loop (Suc n) i clock env c key mutate rows = kv_atomic (clock i) c key mutate (others env i (Suc (Suc i)) rows) \<or>
    kv_loop (Suc n) i clock env c key mutate rows =
      kv_loop n (Suc (Suc i)) clock env c key mutate (env (Suc i) (env i rows))"
  using assms
  by (auto simp: kv_atomic_def kv_read_def Let_def case_prod_unfold set_setting_if_cas others_def split: sum.splits)

lemma kv_alone:
  "settings_ok rows \<Longrightarrow> kv_loop (Suc n) i clock (\<lambda>_ r. r) c key mutate rows = kv_atomic (clock i) c key mutate rows"
  by (auto simp: kv_atomic_def kv_read_def Let_def case_prod_unfold set_setting_if_cas split: sum.splits)

lemma kv_loop_linear:
  assumes env: "\<And>i r. settings_ok r \<Longrightarrow> settings_ok (env i r)"
  shows "settings_ok rows \<Longrightarrow>
    (\<exists>m t. m \<le> i + 2 * n \<and> kv_loop n i clock env c key mutate rows = kv_atomic (clock t) c key mutate (others env i m rows)) \<or>
    kv_loop n i clock env c key mutate rows = (Inl (SettingConflict key), others env i (i + 2 * n) rows)"
proof (induction n arbitrary: i rows)
  case 0
  then show ?case by (simp add: others_def)
next
  case (Suc n)
  have ok: "settings_ok (env (Suc i) (env i rows))" by (intro env Suc.prems)
  note IH = Suc.IH [OF ok, of "Suc (Suc i)"]
  from kv_attempt [of env i rows, OF ok, of n clock c key mutate] show ?case
  proof (elim disjE)
    assume "kv_loop (Suc n) i clock env c key mutate rows = kv_atomic (clock i) c key mutate (others env i (Suc i) rows)"
    then show ?thesis by (intro disjI1 exI [of _ "Suc i"] exI [of _ i]) simp
  next
    assume "kv_loop (Suc n) i clock env c key mutate rows = kv_atomic (clock i) c key mutate (others env i (Suc (Suc i)) rows)"
    then show ?thesis by (intro disjI1 exI [of _ "Suc (Suc i)"] exI [of _ i]) simp
  next
    assume eq: "kv_loop (Suc n) i clock env c key mutate rows =
      kv_loop n (Suc (Suc i)) clock env c key mutate (env (Suc i) (env i rows))"
    show ?thesis
      using IH
    proof (elim disjE exE conjE)
      fix m t assume m: "m \<le> Suc (Suc i) + 2 * n" and r: "kv_loop n (Suc (Suc i)) clock env c key mutate (env (Suc i) (env i rows)) =
          kv_atomic (clock t) c key mutate (others env (Suc (Suc i)) m (env (Suc i) (env i rows)))"
      show ?thesis
      proof (cases "Suc i < m")
        case True
        then show ?thesis using m r eq by (intro disjI1 exI [of _ m] exI [of _ t]) (simp add: others_two)
      next
        case False
        then have "others env (Suc (Suc i)) m (env (Suc i) (env i rows)) = others env i (Suc (Suc i)) rows"
          by (simp add: others_def)
        then show ?thesis using r eq by (intro disjI1 exI [of _ "Suc (Suc i)"] exI [of _ t]) simp
      qed
    next
      assume "kv_loop n (Suc (Suc i)) clock env c key mutate (env (Suc i) (env i rows)) =
          (Inl (SettingConflict key), others env (Suc (Suc i)) (Suc (Suc i) + 2 * n) (env (Suc i) (env i rows)))"
      then show ?thesis using eq by (simp add: others_two)
    qed
  qed
qed

text \<open>
  C11: editing a settings document never loses a concurrent edit. Whatever the other connections
  commit between its reads and its writes, an update either takes effect in one indivisible step,
  on the document as it stood at that point, or gives up after 25 lost races having written
  nothing. Alone, it always takes effect.
\<close>

theorem kv_update_linearizable:
  assumes "settings_ok rows" "\<And>i r. settings_ok r \<Longrightarrow> settings_ok (env i r)"
  shows "((\<exists>m t. m \<le> 50 \<and> kv_update clock env c key mutate rows = kv_atomic (clock t) c key mutate (others env 0 m rows)) \<or>
     kv_update clock env c key mutate rows = (Inl (SettingConflict key), others env 0 50 rows)) \<and>
    kv_update clock (\<lambda>_ r. r) c key mutate rows = kv_atomic (clock 0) c key mutate rows"
proof (rule conjI)
  show "(\<exists>m t. m \<le> 50 \<and> kv_update clock env c key mutate rows = kv_atomic (clock t) c key mutate (others env 0 m rows)) \<or>
     kv_update clock env c key mutate rows = (Inl (SettingConflict key), others env 0 50 rows)"
    using kv_loop_linear [of env rows 0 25 clock c key mutate, OF assms(2,1)]
    by (simp add: kv_update_def MAX_ATTEMPTS_def)
  show "kv_update clock (\<lambda>_ r. r) c key mutate rows = kv_atomic (clock 0) c key mutate rows"
    using kv_alone [OF assms(1), of 24] by (simp add: kv_update_def MAX_ATTEMPTS_def)
qed

section \<open>The floor holds\<close>

lemma strip_all_id: "find (starts_with s) ws = None \<Longrightarrow> strip_all ws s = s"
  by (subst strip_all.simps) simp

lemma digit_no_white_space:
  assumes "k < 10" "w \<in> set WHITE_SPACE"
  shows "hd w \<noteq> digit_char k \<and> last w \<noteq> digit_char k \<and> w \<noteq> []"
proof -
  have "list_all (\<lambda>w. digit_val (hd w) = None \<and> digit_val (last w) = None \<and> w \<noteq> []) WHITE_SPACE" by code_simp
  then show ?thesis using assms digit_val_char [of k] by (auto simp: list_all_iff simp del: digit_char.simps)
qed

lemma trim_string_of_nat: "trim (string_of_nat n) = string_of_nat n"
proof -
  let ?s = "string_of_nat n"
  have ne: "?s \<noteq> []" and digit: "\<And>c. c \<in> set ?s \<Longrightarrow> \<exists>k < 10. c = digit_char k"
    using string_of_nat_digits [of n] by auto
  obtain c where c: "c < 10" "hd ?s = digit_char c" using digit [OF hd_in_set [OF ne]] by auto
  obtain e where e: "e < 10" "last ?s = digit_char e" using digit [OF last_in_set [OF ne]] by auto
  have "\<not> starts_with ?s w" if w: "w \<in> set WHITE_SPACE" for w
  proof
    assume "starts_with ?s w"
    then have "hd w = hd ?s" using digit_no_white_space [OF c(1) w] ne
      by (cases w; cases ?s) (auto simp: starts_with_def)
    with c digit_no_white_space [OF c(1) w] show False by simp
  qed
  then have one: "strip_all WHITE_SPACE ?s = ?s" by (intro strip_all_id) (simp add: find_None_iff)
  have "\<not> starts_with (rev ?s) (rev w)" if w: "w \<in> set WHITE_SPACE" for w
  proof
    assume a: "starts_with (rev ?s) (rev w)"
    have "hd (rev w) = hd (rev ?s)" using a digit_no_white_space [OF e(1) w] ne
      by (cases "rev w"; cases "rev ?s") (auto simp: starts_with_def)
    then have "last w = last ?s" using ne digit_no_white_space [OF e(1) w] by (simp add: hd_rev)
    with e digit_no_white_space [OF e(1) w] show False by simp
  qed
  then have "strip_all (map rev WHITE_SPACE) (rev ?s) = rev ?s" by (intro strip_all_id) (auto simp: find_None_iff)
  then show ?thesis by (simp add: trim_def one)
qed

lemma parse_u32_string_of_nat: "n < 2 ^ 32 \<Longrightarrow> parse_u32 (string_of_nat n) = Some n"
proof -
  assume n: "n < 2 ^ 32"
  obtain c cs where s: "string_of_nat n = c # cs" using string_of_nat_digits [of n] by (cases "string_of_nat n") auto
  then have "c \<noteq> CHR ''+''" using string_of_nat_digits [of n] digit_char_ne by (metis insertCI list.set_intros(1))
  then show ?thesis
    using n parse_string_of_nat [of n] s by (simp add: parse_u32_def del: parse_digits.simps)
qed

text \<open>
  The contract floor cannot lock out the build that sets it, and fails closed. A level the
  build accepts is the level every later open reads, and the build still opens; a refused level
  writes nothing; a stored value that is not a number refuses every open instead of reading as no
  floor; and an open succeeds exactly when the floor is at most the level this build speaks.
\<close>

lemma contract_floor_guards:
  "(case set_min_contract now level rows of
      (Inr _, rows') \<Rightarrow> min_contract debug rows' = Inr level \<and> ensure_contract_supported debug rows' = Inr ()
    | (Inl _, rows') \<Rightarrow> rows' = rows \<and> (level < MIN_CONTRACT_VERSION \<or> CONTRACT_VERSION < level)) \<and>
   (ensure_contract_supported debug rows = Inr () \<longleftrightarrow>
     (case get_setting CONTRACT_FLOOR_SETTING rows of
        None \<Rightarrow> True
      | Some raw \<Rightarrow> (case parse_u32 (trim raw) of None \<Rightarrow> False | Some lowest \<Rightarrow> lowest \<le> CONTRACT_VERSION)))"
proof (rule conjI)
  show "case set_min_contract now level rows of
      (Inr _, rows') \<Rightarrow> min_contract debug rows' = Inr level \<and> ensure_contract_supported debug rows' = Inr ()
    | (Inl _, rows') \<Rightarrow> rows' = rows \<and> (level < MIN_CONTRACT_VERSION \<or> CONTRACT_VERSION < level)"
  proof (cases "level = 1")
    case True
    then show ?thesis
      by (simp add: set_min_contract_def CONTRACT_VERSION_def MIN_CONTRACT_VERSION_def min_contract_def
          ensure_contract_supported_def get_set_setting trim_string_of_nat parse_u32_string_of_nat)
  next
    case False
    then show ?thesis by (auto simp: set_min_contract_def CONTRACT_VERSION_def MIN_CONTRACT_VERSION_def)
  qed
  show "ensure_contract_supported debug rows = Inr () \<longleftrightarrow>
     (case get_setting CONTRACT_FLOOR_SETTING rows of
        None \<Rightarrow> True
      | Some raw \<Rightarrow> (case parse_u32 (trim raw) of None \<Rightarrow> False | Some lowest \<Rightarrow> lowest \<le> CONTRACT_VERSION))"
    by (auto simp: ensure_contract_supported_def min_contract_def CONTRACT_VERSION_def MIN_CONTRACT_VERSION_def
        and_then_def split: option.splits if_splits)
qed

text \<open>The runtime's own keys are hidden from the generic settings surface.\<close>

lemma retention_key_reserved: "is_reserved_setting_key (retention_setting_key namespace)"
  by (simp add: is_reserved_setting_key_def RESERVED_SETTING_PREFIXES_def retention_setting_key_def
      RETENTION_SETTING_PREFIX_def starts_with_def)

lemma contract_key_reserved: "is_reserved_setting_key CONTRACT_FLOOR_SETTING"
  by (simp add: is_reserved_setting_key_def RESERVED_SETTING_PREFIXES_def CONTRACT_FLOOR_SETTING_def starts_with_def)

section \<open>Witness\<close>

definition plain_codec :: "string doc_codec" where
  "plain_codec = \<lparr>decode = Some, encode = Inr, doc_default = []\<rparr>"

text \<open>Another writer changes the document between the first read and the first write.\<close>

definition rival :: "nat \<Rightarrow> settings \<Rightarrow> settings" where
  "rival i rows = (if i = 1 then set_setting 3 ''k'' ''b'' rows else rows)"

lemma settings_ok_rival: "settings_ok r \<Longrightarrow> settings_ok (rival i r)"
  by (simp add: rival_def)

theorem kv_update_linearizable_witness:
  "get_setting ''k'' (snd (kv_update (\<lambda>_. 7) rival plain_codec ''k'' (\<lambda>s. ((), s @ ''!'')) [])) = Some ''b!'' \<and>
   kv_update (\<lambda>_. 7) (\<lambda>_ r. r) plain_codec ''k'' (\<lambda>s. ((), s @ ''!'')) [] =
     kv_atomic 7 plain_codec ''k'' (\<lambda>s. ((), s @ ''!'')) []"
proof (rule conjI)
  show "get_setting ''k'' (snd (kv_update (\<lambda>_. 7) rival plain_codec ''k'' (\<lambda>s. ((), s @ ''!'')) [])) = Some ''b!''"
    by code_simp
  have "settings_ok []" by (simp add: settings_ok_def)
  from kv_update_linearizable [OF this settings_ok_rival, where clock = "\<lambda>_. 7" and c = plain_codec and key = "''k''"
      and mutate = "\<lambda>s. ((), s @ ''!'')"]
  show "kv_update (\<lambda>_. 7) (\<lambda>_ r. r) plain_codec ''k'' (\<lambda>s. ((), s @ ''!'')) [] =
     kv_atomic 7 plain_codec ''k'' (\<lambda>s. ((), s @ ''!'')) []"
    by (rule conjunct2)
qed

end
