(* ===== verification/Periodic.thy ===== *)
theory Periodic
  imports Lifecycle
begin

text \<open>
  Periodic tasks: the schedule table of \<open>storage/sqlite/periodic.rs\<close> and the cron computation of
  \<open>periodic.rs\<close>. The crates that parse cron expressions and time zones are the parameter
  \<open>cron_lib\<close>; \<open>cron_forward\<close> is what the code relies on, that the next occurrence after an
  instant is a later one.
\<close>

record periodic_row =
  p_name :: string
  p_task_name :: string
  p_cron_expr :: string
  p_args :: "bytes option"
  p_kwargs :: "bytes option"
  p_queue :: string
  p_enabled :: bool
  p_last_run :: "int option"
  p_next_run :: int
  p_timezone :: "string option"

record new_periodic =
  np_name :: string
  np_task_name :: string
  np_cron_expr :: string
  np_args :: "bytes option"
  np_kwargs :: "bytes option"
  np_queue :: string
  np_enabled :: bool
  np_next_run :: int
  np_timezone :: "string option"

section \<open>The table\<close>

text \<open>\<open>REPLACE INTO\<close> deletes the row of that name and inserts a new one, without a last run.\<close>

definition register_periodic :: "new_periodic \<Rightarrow> periodic_row list \<Rightarrow> periodic_row list" where
  "register_periodic t rows =
     delete_where (\<lambda>r. p_name r = np_name t) rows @
     [\<lparr>p_name = np_name t, p_task_name = np_task_name t, p_cron_expr = np_cron_expr t, p_args = np_args t,
       p_kwargs = np_kwargs t, p_queue = np_queue t, p_enabled = np_enabled t, p_last_run = None,
       p_next_run = np_next_run t, p_timezone = np_timezone t\<rparr>]"

definition periodic_due :: "int \<Rightarrow> periodic_row \<Rightarrow> bool" where
  "periodic_due now r \<longleftrightarrow> p_enabled r \<and> p_next_run r \<le> now"

definition get_due_periodic :: "int \<Rightarrow> periodic_row list \<Rightarrow> periodic_row list" where
  "get_due_periodic now rows = filter (periodic_due now) rows"

definition update_periodic_schedule :: "string \<Rightarrow> int \<Rightarrow> int \<Rightarrow> periodic_row list \<Rightarrow> periodic_row list" where
  "update_periodic_schedule name last_run next_run rows =
     update_where (\<lambda>r. p_name r = name) (\<lambda>r. r\<lparr>p_last_run := Some last_run, p_next_run := next_run\<rparr>) rows"

definition delete_periodic :: "string \<Rightarrow> periodic_row list \<Rightarrow> bool \<times> periodic_row list" where
  "delete_periodic name rows =
     (0 < count_where (\<lambda>r. p_name r = name) rows, delete_where (\<lambda>r. p_name r = name) rows)"

definition set_periodic_enabled :: "string \<Rightarrow> bool \<Rightarrow> periodic_row list \<Rightarrow> bool \<times> periodic_row list" where
  "set_periodic_enabled name enabled rows =
     (0 < count_where (\<lambda>r. p_name r = name) rows,
      update_where (\<lambda>r. p_name r = name) (\<lambda>r. r\<lparr>p_enabled := enabled\<rparr>) rows)"

section \<open>Cron\<close>

record cron_lib =
  cron_error :: "string \<Rightarrow> string option"
  cron_after :: "string \<Rightarrow> int \<Rightarrow> int option"
  cron_after_tz :: "string \<Rightarrow> string \<Rightarrow> int \<Rightarrow> int option"
  tz_known :: "string \<Rightarrow> bool"
  in_calendar :: "int \<Rightarrow> bool"

text \<open>Both read the clock when the instant is outside the calendar.\<close>

definition next_cron_time :: "cron_lib \<Rightarrow> int \<Rightarrow> string \<Rightarrow> int \<Rightarrow> int result" where
  "next_cron_time cl clock cron_expr after_ms =
     (case cron_error cl cron_expr of
        Some e \<Rightarrow> Inl (Config (''invalid cron expression '' @ [CHR 0x27] @ cron_expr @ [CHR 0x27] @ '': '' @ e))
      | None \<Rightarrow>
          (case cron_after cl cron_expr (if in_calendar cl after_ms then after_ms else clock) of
             None \<Rightarrow> Inl (Config (''no next run time for '' @ [CHR 0x27] @ cron_expr @ [CHR 0x27]))
           | Some t \<Rightarrow> Inr t))"

definition next_cron_time_tz :: "cron_lib \<Rightarrow> int \<Rightarrow> string \<Rightarrow> int \<Rightarrow> string \<Rightarrow> int result" where
  "next_cron_time_tz cl clock cron_expr after_ms timezone =
     (if \<not> tz_known cl timezone then Inl (Config (''invalid timezone '' @ [CHR 0x27] @ timezone @ [CHR 0x27]))
      else case cron_error cl cron_expr of
             Some e \<Rightarrow> Inl (Config (''invalid cron expression '' @ [CHR 0x27] @ cron_expr @ [CHR 0x27] @ '': '' @ e))
           | None \<Rightarrow>
               (case cron_after_tz cl cron_expr timezone (if in_calendar cl after_ms then after_ms else clock) of
                  None \<Rightarrow> Inl (Config (''no next run time for '' @ [CHR 0x27] @ cron_expr @ [CHR 0x27]))
                | Some t \<Rightarrow> Inr t))"

definition next_run_of :: "cron_lib \<Rightarrow> int \<Rightarrow> periodic_row \<Rightarrow> int \<Rightarrow> int result" where
  "next_run_of cl clock r now =
     (case p_timezone r of
        Some tz \<Rightarrow> next_cron_time_tz cl clock (p_cron_expr r) now tz
      | None \<Rightarrow> next_cron_time cl clock (p_cron_expr r) now)"

definition cron_forward :: "cron_lib \<Rightarrow> bool" where
  "cron_forward cl \<longleftrightarrow> (\<forall>e t n. cron_after cl e t = Some n \<longrightarrow> t < n) \<and>
     (\<forall>e z t n. cron_after_tz cl e z t = Some n \<longrightarrow> t < n)"

lemma next_run_later:
  "cron_forward cl \<Longrightarrow> in_calendar cl now \<Longrightarrow> next_run_of cl clock r now = Inr t \<Longrightarrow> now < t"
  by (auto simp: cron_forward_def next_run_of_def next_cron_time_def next_cron_time_tz_def split: option.splits if_splits)

section \<open>Laws of the table\<close>

definition periodic_ok :: "periodic_row list \<Rightarrow> bool" where
  "periodic_ok rows \<longleftrightarrow> distinct (map p_name rows)"

lemma periodic_ok_register: "periodic_ok rows \<Longrightarrow> periodic_ok (register_periodic t rows)"
  by (auto simp: periodic_ok_def register_periodic_def delete_where_def distinct_map_filter)

lemma periodic_ok_schedule [simp]: "periodic_ok (update_periodic_schedule name l n rows) = periodic_ok rows"
  by (simp add: periodic_ok_def update_periodic_schedule_def map_key_update_where)

lemma periodic_ok_enabled: "periodic_ok (snd (set_periodic_enabled name b rows)) = periodic_ok rows"
  by (simp add: periodic_ok_def set_periodic_enabled_def map_key_update_where)

lemma periodic_ok_delete: "periodic_ok rows \<Longrightarrow> periodic_ok (snd (delete_periodic name rows))"
  by (simp add: periodic_ok_def delete_periodic_def delete_where_def distinct_map_filter)

end
