(* ===== verification/Maintenance.thy ===== *)
theory Maintenance
  imports Dispatching Pubsub Settings Periodic
begin

text \<open>
  The scheduler's housekeeping of \<open>scheduler/maintenance.rs\<close>: reaping stale and orphaned jobs,
  the leader-elected retention sweep, firing periodic tasks and retrying dead letters, and the tick
  of \<open>scheduler/mod.rs\<close> that runs them on their cadences next to a round of dispatch. A
  \<open>cluster\<close> is the scheduler's \<open>system\<close> with the tables these sweeps share with other nodes.
  \<open>h\<close> is the host of a sweep itself, \<open>hs i\<close> the host of the work on its \<open>i\<close>-th item.
  Log output is left out.
\<close>

section \<open>State and configuration\<close>

record cluster =
  cl_sys :: system
  cl_workers :: "worker_row list"
  cl_topics :: topic_log
  cl_periodic :: "periodic_row list"
  cl_settings :: settings

record scheduler_config =
  cf_reap_interval :: nat
  cf_periodic_check_interval :: nat
  cf_cleanup_interval :: nat
  cf_result_ttl_ms :: "int option"
  cf_retention :: "retention_config option"
  cf_dlq_auto_retry_delay_ms :: "int option"
  cf_dlq_auto_retry_max :: int
  cf_dlq_auto_retry_interval :: nat

record tick_counters =
  tk_reap :: nat
  tk_periodic :: nat
  tk_cleanup :: nat
  tk_dlq_auto_retry :: nat

definition effective_windows :: "scheduler_config \<Rightarrow> retention_config" where
  "effective_windows cf = resolve_effective_retention (cf_retention cf) (cf_result_ttl_ms cf)"

definition retention_is_defaulted :: "scheduler_config \<Rightarrow> bool" where
  "retention_is_defaulted cf = is_retention_defaulted (cf_retention cf) (cf_result_ttl_ms cf)"

definition cl_db :: "cluster \<Rightarrow> db" where
  "cl_db cl = sy_db (cl_sys cl)"

definition set_cl_db :: "db \<Rightarrow> cluster \<Rightarrow> cluster" where
  "set_cl_db d cl = cl\<lparr>cl_sys := set_db d (cl_sys cl)\<rparr>"

section \<open>Reaping\<close>

definition timeout_failure :: "job \<Rightarrow> job_result" where
  "timeout_failure job = JobFailure (j_id job) (''job timed out after '' @ string_of_int (j_timeout_ms job) @ ''ms'')
     (j_retry_count job) (j_max_retries job) (j_task_name job) 0 True True"

definition orphan_failure :: "string \<Rightarrow> job \<Rightarrow> job_result" where
  "orphan_failure dead_owner job =
     JobFailure (j_id job) (''worker '' @ dead_owner @ '' died; recovering in-flight job'')
       (j_retry_count job) (j_max_retries job) (j_task_name job) 0 True False"

fun fail_stale :: "json_lib \<Rightarrow> (nat \<Rightarrow> host) \<Rightarrow> nat \<Rightarrow> scheduler \<Rightarrow> job list \<Rightarrow> system \<Rightarrow> unit result \<times> system" where
  "fail_stale js hs i sc [] sy = (Inr (), sy)"
| "fail_stale js hs i sc (job # rest) sy =
     (case handle_result js (hs i) sc (timeout_failure job) sy of
        (Inl e, sy') \<Rightarrow> (Inl e, sy')
      | (Inr _, sy') \<Rightarrow> fail_stale js hs (Suc i) sc rest sy')"

definition rescue :: "json_lib \<Rightarrow> host \<Rightarrow> scheduler \<Rightarrow> job \<times> string \<Rightarrow> system \<Rightarrow> system" where
  "rescue js h sc = (\<lambda>(job, dead_owner) sy.
     case reclaim_execution (clk h 10) (j_id job) dead_owner (sc_claim_owner sc) (sy_db sy) of
       (Inr True, d) \<Rightarrow>
         snd (handle_result js h sc (orphan_failure dead_owner job)
           (track_in_flight sc (j_id job) (j_task_name job) (j_retry_count job) (set_db d sy)))
     | (_, d) \<Rightarrow> set_db d sy)"

definition recover_orphaned_jobs :: "json_lib \<Rightarrow> (nat \<Rightarrow> host) \<Rightarrow> int \<Rightarrow> scheduler \<Rightarrow> worker_row list \<Rightarrow> system \<Rightarrow> system" where
  "recover_orphaned_jobs js hs now sc ws sy =
     (let live = list_live_worker_ids (dead_worker_cutoff now) ws @ [sc_claim_owner sc]
      in fold (\<lambda>(i, p). rescue js (hs i) sc p)
           (enumerate 0 (reap_orphaned_jobs live (sc_namespace sc) (sy_db sy))) sy)"

definition CLAIM_MAX_AGE_MS :: int where
  "CLAIM_MAX_AGE_MS = 3600000"

definition reap_stale ::
    "json_lib \<Rightarrow> host \<Rightarrow> (nat \<Rightarrow> host) \<Rightarrow> (nat \<Rightarrow> host) \<Rightarrow> scheduler \<Rightarrow> cluster \<Rightarrow> unit result \<times> cluster" where
  "reap_stale js h hs hr sc cl =
     (let now = clk h 0;
          d1 = snd (expire_pending_jobs now (cl_db cl));
          d2 = snd (reap_expired_locks now d1);
          d3 = snd (purge_execution_claims (saturating_sub now CLAIM_MAX_AGE_MS) d2);
          sy = set_db d3 (cl_sys cl)
      in case fail_stale js hs 0 sc (reap_stale_jobs now (sc_namespace sc) d3) sy of
           (Inl e, sy') \<Rightarrow> (Inl e, cl\<lparr>cl_sys := sy'\<rparr>)
         | (Inr _, sy') \<Rightarrow> (Inr (), cl\<lparr>cl_sys := recover_orphaned_jobs js hr now sc (cl_workers cl) sy'\<rparr>))"

section \<open>Retention\<close>

definition RETENTION_LOCK :: string where
  "RETENTION_LOCK = ''flexiq:retention''"

definition RETENTION_LOCK_TTL_MS :: int where
  "RETENTION_LOCK_TTL_MS = 300000"

definition TOPIC_MESSAGE_PURGE_LIMIT :: int where
  "TOPIC_MESSAGE_PURGE_LIMIT = 10000"

definition publish_retention ::
    "effective_retention doc_codec \<Rightarrow> int \<Rightarrow> scheduler_config \<Rightarrow> scheduler \<Rightarrow> retention_config \<Rightarrow> int \<Rightarrow> settings
     \<Rightarrow> unit result \<times> settings" where
  "publish_retention rc clock cf sc windows now rows =
     publish_effective_retention clock rc (sc_namespace sc)
       \<lparr>ef_enabled = \<not> is_empty_config windows, ef_defaulted = retention_is_defaulted cf,
        ef_namespace = unwrap_or (sc_namespace sc) DEFAULT_NAMESPACE, ef_reported_at = now, ef_windows = windows\<rparr> rows"

text \<open>Every sweep is logged and skipped when it fails, so only what it leaves behind matters here.\<close>

definition retention_sweeps :: "host \<Rightarrow> int \<Rightarrow> retention_config \<Rightarrow> db \<Rightarrow> db" where
  "retention_sweeps h now windows d =
     (let d1 = snd (purge_completed_with_ttl (clk h 3) (cutoff now (archived_jobs_ttl_ms windows)) d);
          d2 = snd (purge_dead_with_ttl (clk h 4) (cutoff now (dead_letter_ttl_ms windows)) d1);
          d3 = snd (optional_sweep (cutoff now (job_errors_ttl_ms windows)) purge_job_errors d2);
          d4 = snd (optional_sweep (cutoff now (task_metrics_ttl_ms windows)) purge_metrics d3)
      in snd (optional_sweep (cutoff now (task_logs_ttl_ms windows)) purge_task_logs d4))"

definition auto_cleanup ::
    "effective_retention doc_codec \<Rightarrow> (string list \<Rightarrow> string list) \<Rightarrow> (db \<Rightarrow> db) \<Rightarrow> host \<Rightarrow> scheduler_config \<Rightarrow>
     scheduler \<Rightarrow> cluster \<Rightarrow> cluster" where
  "auto_cleanup rc ord env h cf sc cl =
     (let (led, d) = try_lead (clk h 0) (clk h 1) env RETENTION_LOCK (sc_claim_owner sc) RETENTION_LOCK_TTL_MS (cl_db cl);
          cl1 = set_cl_db d cl;
          now = clk h 2;
          windows = effective_windows cf
      in if led \<noteq> Inr True then cl1
         else cl1\<lparr>cl_settings := snd (publish_retention rc (clk h 5) cf sc windows now (cl_settings cl)),
                  cl_sys := set_db (retention_sweeps h now windows d) (cl_sys cl),
                  cl_topics := snd (purge_topic_messages ord now TOPIC_MESSAGE_PURGE_LIMIT (cl_topics cl))\<rparr>)"

section \<open>Periodic tasks\<close>

definition PERIODIC_DEFAULT_MAX_RETRIES :: int where
  "PERIODIC_DEFAULT_MAX_RETRIES = 3"

definition PERIODIC_DEFAULT_TIMEOUT_MS :: int where
  "PERIODIC_DEFAULT_TIMEOUT_MS = 300000"

definition build_periodic_payload :: "bytes option \<Rightarrow> bytes" where
  "build_periodic_payload args = unwrap_or args []"

definition periodic_key :: "string \<Rightarrow> int \<Rightarrow> string" where
  "periodic_key name now = ''periodic:'' @ name @ '':'' @ string_of_int now"

definition periodic_job :: "scheduler \<Rightarrow> int \<Rightarrow> periodic_row \<Rightarrow> new_job" where
  "periodic_job sc now task =
     \<lparr>n_queue = p_queue task, n_task_name = p_task_name task, n_payload = build_periodic_payload (p_args task),
      n_priority = 0, n_scheduled_at = now, n_max_retries = PERIODIC_DEFAULT_MAX_RETRIES,
      n_timeout_ms = PERIODIC_DEFAULT_TIMEOUT_MS, n_unique_key = Some (periodic_key (p_name task) now),
      n_metadata = None, n_notes = None, n_depends_on = [], n_expires_at = None, n_result_ttl_ms = None,
      n_namespace = sc_namespace sc, n_debounce_key = None\<rparr>"

definition fire_periodic ::
    "json_lib \<Rightarrow> cron_lib \<Rightarrow> scheduler \<Rightarrow> int \<Rightarrow> host \<Rightarrow> periodic_row \<Rightarrow> cluster \<Rightarrow> cluster" where
  "fire_periodic js cr sc now h task cl =
     (case enqueue_unique js (ids h) (clk h 0) (\<lambda>_ d. d) (periodic_job sc now task) (cl_db cl) of
        (Inl _, d) \<Rightarrow> set_cl_db d cl
      | (Inr _, d) \<Rightarrow>
          (case next_run_of cr (clk h 1) task now of
             Inl _ \<Rightarrow> set_cl_db d cl
           | Inr next_run \<Rightarrow>
               set_cl_db d (cl\<lparr>cl_periodic := update_periodic_schedule (p_name task) now next_run (cl_periodic cl)\<rparr>)))"

text \<open>\<open>env\<close> is what other nodes commit between the read of the due tasks and the first firing.\<close>

definition check_periodic ::
    "json_lib \<Rightarrow> cron_lib \<Rightarrow> (cluster \<Rightarrow> cluster) \<Rightarrow> scheduler \<Rightarrow> int \<Rightarrow> (nat \<Rightarrow> host) \<Rightarrow> cluster \<Rightarrow> cluster" where
  "check_periodic js cr env sc now hs cl =
     fold (\<lambda>(i, task). fire_periodic js cr sc now (hs i) task)
       (enumerate 0 (get_due_periodic now (cl_periodic cl))) (env cl)"

section \<open>Dead letters\<close>

definition DLQ_RETRY_CANDIDATES :: int where
  "DLQ_RETRY_CANDIDATES = 50"

definition auto_retry_dlq ::
    "json_lib \<Rightarrow> bool \<Rightarrow> (nat \<Rightarrow> host) \<Rightarrow> scheduler_config \<Rightarrow> scheduler \<Rightarrow> int \<Rightarrow> cluster \<Rightarrow> cluster" where
  "auto_retry_dlq js stale hs cf sc now cl =
     (case cf_dlq_auto_retry_delay_ms cf of
        None \<Rightarrow> cl
      | Some delay \<Rightarrow>
          let (queues, sy) = active_queues stale sc (cl_sys cl);
              candidates = list_dead_for_retry (saturating_sub now delay) (cf_dlq_auto_retry_max cf) (sc_namespace sc)
                queues DLQ_RETRY_CANDIDATES (sy_db sy)
          in cl\<lparr>cl_sys := fold (\<lambda>(i, entry) sy.
               if is_shed_reason (d_error entry) then sy
               else set_db (snd (retry_dead js (ids (hs i) 0) (clk (hs i) 0) (clk (hs i) 1) (\<lambda>d. d) (d_id entry)
                                   (sc_namespace sc) (sy_db sy))) sy)
               (enumerate 0 candidates) sy\<rparr>)"

section \<open>The tick\<close>

text \<open>The hosts and clocks of one maintenance tick, one field per sweep.\<close>

record tick_host =
  th_reap :: host
  th_reap_each :: "nat \<Rightarrow> host"
  th_rescue_each :: "nat \<Rightarrow> host"
  th_periodic_now :: int
  th_periodic_each :: "nat \<Rightarrow> host"
  th_cleanup :: host
  th_dlq_now :: int
  th_dlq_each :: "nat \<Rightarrow> host"
  th_stale :: bool

definition bump :: "nat \<Rightarrow> nat" where
  "bump n = (n + 1) mod 2 ^ 32"

definition tick_maintenance ::
    "json_lib \<Rightarrow> cron_lib \<Rightarrow> effective_retention doc_codec \<Rightarrow> (string list \<Rightarrow> string list) \<Rightarrow> tick_host \<Rightarrow> scheduler_config \<Rightarrow>
     scheduler \<Rightarrow> tick_counters \<times> cluster \<Rightarrow> bool \<times> tick_counters \<times> cluster" where
  "tick_maintenance js cr rc ord t cf sc = (\<lambda>(k, cl).
     let k = k\<lparr>tk_reap := bump (tk_reap k), tk_periodic := bump (tk_periodic k), tk_cleanup := bump (tk_cleanup k)\<rparr>;
         cl1 = (if cf_reap_interval cf dvd tk_reap k
                then snd (reap_stale js (th_reap t) (th_reap_each t) (th_rescue_each t) sc cl) else cl);
         fired = cf_periodic_check_interval cf dvd tk_periodic k;
         cl2 = (if fired then check_periodic js cr (\<lambda>c. c) sc (th_periodic_now t) (th_periodic_each t) cl1 else cl1);
         cl3 = (if cf_cleanup_interval cf dvd tk_cleanup k
                then auto_cleanup rc ord (\<lambda>d. d) (th_cleanup t) cf sc cl2 else cl2);
         k = k\<lparr>tk_dlq_auto_retry := bump (tk_dlq_auto_retry k)\<rparr>;
         cl4 = (if cf_dlq_auto_retry_interval cf dvd tk_dlq_auto_retry k
                then auto_retry_dlq js (th_stale t) (th_dlq_each t) cf sc (th_dlq_now t) cl3 else cl3)
     in (fired, k, cl4))"

definition tick ::
    "json_lib \<Rightarrow> cron_lib \<Rightarrow> effective_retention doc_codec \<Rightarrow> (string list \<Rightarrow> string list) \<Rightarrow> host \<Rightarrow> (nat \<Rightarrow> host) \<Rightarrow>
     (nat \<Rightarrow> host) \<Rightarrow> bool \<Rightarrow> int \<Rightarrow> int \<Rightarrow> tick_host \<Rightarrow> scheduler_config \<Rightarrow> scheduler \<Rightarrow> tick_counters \<times> cluster \<Rightarrow>
     bool \<times> tick_counters \<times> cluster" where
  "tick js cr rc ord h hs hc stale now claim_now t cf sc = (\<lambda>(k, cl).
     let (dispatched, sy) = tick_dispatch js h hs hc stale now claim_now sc (cl_sys cl);
         (maintained, k', cl') = tick_maintenance js cr rc ord t cf sc (k, cl\<lparr>cl_sys := sy\<rparr>)
     in (dispatched \<or> maintained, k', cl'))"

section \<open>A rescued orphan\<close>

lemma note_failure_dead_letter: "dead_letter (sy_db (note_failure h sc j n e t w sy)) = dead_letter (sy_db sy)"
  by (auto simp: note_failure_def Let_def record_metric_def record_error_def split: sum.splits
      dest!: insert_metricD insert_errorD)

lemma retry_succeeds:
  assumes "find_row r_id j (jobs d) = Some row" "in_scope ns row"
  shows "fst (retry j t ns d) = Inr ()"
proof -
  have "\<not> (\<forall>r \<in> set (jobs d). \<not> retry_target j ns r)"
    using assms by (auto simp: retry_target_def dest!: find_row_SomeD)
  then have "count_where (retry_target j ns) (jobs d) \<noteq> 0" by (simp add: count_where_0_iff)
  then show ?thesis by (simp add: retry_def write_transaction_def)
qed

lemma dlq_succeeds:
  assumes "store_inv (sy_db sy)" "ids h 2 \<notin> d_id ` set (dead_letter (sy_db sy))"
  shows "\<exists>sy'. and_outcome (dlq_or_clear js h sc j job e m sy) oc = (Inr oc, sy')"
  using dead_letter_job_eq(1) [OF assms refl]
  by (auto simp: and_outcome_def dlq_or_clear_def move_to_dlq_def split: option.splits)

text \<open>With a fresh entry id, the failure of a live job is always recorded one way or the other.\<close>

lemma failure_recorded:
  assumes "store_inv (sy_db sy)" "find_row r_id j (jobs (sy_db sy)) = Some row" "in_scope (sc_namespace sc) row"
    "ids h 2 \<notin> d_id ` set (dead_letter (sy_db sy))"
  obtains oc sy' where "handle_failure js h sc j e n mx t w rt tm sy = (Inr oc, sy')"
    "(\<exists>q. oc = OutRetry j t q e n tm w) \<and> n < mx \<or> (\<exists>q. oc = OutDeadLettered j t q e tm w)"
proof -
  define sy1 where "sy1 = note_failure h sc j n e t w sy"
  have same: "same_jobs (sy_db sy) (sy_db sy1)" unfolding sy1_def by (rule note_failure_same)
  have inv1: "store_inv (sy_db sy1)" using keeps_sys_inv [OF keeps_note_failure [OF assms(1)]] by (simp add: sy1_def)
  obtain b sy2 where rb: "retry_budget_allows h sc t sy1 = (b, sy2)" by fastforce
  have db2: "sy_db sy2 = sy_db sy1" using sy_db_simps(6) [of h sc t sy1] by (simp add: rb)
  have dead: "\<exists>sy'. and_outcome (dlq_or_clear js h sc j job e m s) oc = (Inr oc, sy')" if "sy_db s = sy_db sy1" for job m s oc
    by (rule dlq_succeeds) (use that inv1 assms(4) in \<open>simp_all add: sy1_def note_failure_dead_letter\<close>)
  have "find_row r_id j (jobs (sy_db sy1)) = Some row" using same assms(2) by (simp add: same_jobs_def)
  note ok = retry_succeeds [OF this assms(3)]
  show thesis
  proof (cases "rt \<and> n < mx \<and> b")
    case True
    let ?at = "next_retry_at (rnd h 0) (clk h 6) (case map_of (sc_task_configs sc) t of
        Some c \<Rightarrow> tc_retry_policy c | None \<Rightarrow> default_retry_policy) n"
    obtain d where "retry j ?at (sc_namespace sc) (sy_db sy1) = (Inr (), d)" using ok [of ?at] by (cases "retry j ?at (sc_namespace sc) (sy_db sy1)") auto
    then show ?thesis using True that by (auto simp: handle_failure_def Let_def sy1_def [symmetric] rb db2)
  next
    case False
    let ?job = "get_job j (sc_namespace sc) (sy_db sy1)"
    let ?oc = "OutDeadLettered j t (case ?job of Some j \<Rightarrow> j_queue j | None \<Rightarrow> []) e tm w"
    obtain m s where run: "handle_failure js h sc j e n mx t w rt tm sy = and_outcome (dlq_or_clear js h sc j ?job e m s) ?oc"
      and s: "sy_db s = sy_db sy1"
    proof (cases "rt \<and> n < mx")
      case True
      with False have "\<not> b" by simp
      with True show ?thesis
        by (intro that [of "Some RETRY_BUDGET_EXHAUSTED" sy2]) (simp_all add: handle_failure_def Let_def sy1_def [symmetric] rb db2)
    next
      case False
      then show ?thesis
        by (intro that [of None sy1]) (auto simp: handle_failure_def Let_def sy1_def [symmetric])
    qed
    obtain sy' where "and_outcome (dlq_or_clear js h sc j ?job e m s) ?oc = (Inr ?oc, sy')" using dead [OF s] by blast
    with run show ?thesis by (intro that [of ?oc sy']) simp_all
  qed
qed

lemma fence_passes:
  assumes "find_row r_id j (jobs d) = Some row" "r_status row = status_code Running" "job_in_namespace (r_namespace row) ns"
    "claim_holder d j = Some w"
  shows "authorize_attempt j w (r_retry_count row) ns d = Inr Authorized"
  using assms by (auto simp: authorize_attempt_def resolve_step_fence_def claim_holder_def)

lemma rescued_authorized:
  assumes "find_row r_id j (jobs (sy_db sy)) = Some row" "r_status row = status_code Running"
    "job_in_namespace (r_namespace row) (sc_namespace sc)" "claim_holder (sy_db sy) j = Some (sc_claim_owner sc)"
  shows "fst (authorize_finished sc j (track_in_flight sc j t (r_retry_count row) sy)) = True"
proof -
  have "map_of (by_job (in_flight_insert j r f)) j = Some r" for r f
    by (simp add: in_flight_insert_def Let_def update_conv')
  then show ?thesis
    using fence_passes [OF assms]
    by (simp add: authorize_finished_def release_in_flight_def track_in_flight_def in_flight_remove_def Let_def
        split: option.splits)
qed

text \<open>
  C10: an orphaned job does not stay stuck. When the worker that claimed a running job is gone, the
  survivor that takes the claim over gets the synthesised failure past its own fence, and the job is
  either pending again, with one more attempt counted and its claim released, or, once its retries
  or the retry budget are spent, archived as dead with an entry in the dead-letter queue.
\<close>

theorem orphan_recovered:
  assumes "store_inv (sy_db sy)" "find_row r_id (j_id job) (jobs (sy_db sy)) = Some row"
    "r_status row = status_code Running" "job_in_namespace (r_namespace row) (sc_namespace sc)"
    "j_retry_count job = r_retry_count row" "claim_holder (sy_db sy) (j_id job) = Some dead"
    "ids h 2 \<notin> d_id ` set (dead_letter (sy_db sy))"
  shows "let d' = sy_db (rescue js h sc (job, dead) sy)
    in store_inv d' \<and>
       (status_of d' (j_id job) = Some Pending \<and> claim_holder d' (j_id job) = None \<and> r_retry_count row < j_max_retries job \<and>
          (\<exists>row'. find_row r_id (j_id job) (jobs d') = Some row' \<and> r_retry_count row' = r_retry_count row + 1) \<or>
        status_of d' (j_id job) = Some Dead \<and> (\<exists>r \<in> set (dead_letter d'). d_original_job_id r = j_id job))"
proof -
  let ?j = "j_id job" and ?me = "sc_claim_owner sc"
  obtain d1 where d1: "reclaim_execution (clk h 10) ?j dead ?me (sy_db sy) = (Inr True, d1)"
    using reclaim_count [OF store_claim_keys [OF assms(1)], of ?j dead] assms(6) by (simp add: reclaim_execution_def)
  define sy1 where "sy1 = track_in_flight sc ?j (j_task_name job) (j_retry_count job) (set_db d1 sy)"
  have same: "jobs d1 = jobs (sy_db sy)" "dead_letter d1 = dead_letter (sy_db sy)"
    using d1 by (auto simp: reclaim_execution_def)
  have inv1: "store_inv d1"
    using keeps_inv [OF keeps_claim_ops(3) [OF assms(1)], of "clk h 10" ?j dead ?me] d1 by simp
  have holder: "claim_holder d1 ?j = Some ?me"
    using reclaim_holder [of "clk h 10" ?j dead ?me "sy_db sy" ?j] assms(6) d1 by simp
  have row1: "find_row r_id ?j (jobs d1) = Some row" using assms(2) same by simp
  have sy1: "sy_db sy1 = d1" by (simp add: sy1_def)
  obtain sy2 where a: "authorize_finished sc ?j sy1 = (True, sy2)"
    using rescued_authorized [of ?j "set_db d1 sy" row sc "j_task_name job"] row1 holder assms(3-5)
    by (cases "authorize_finished sc ?j sy1") (simp add: sy1_def)
  have sy2: "sy_db sy2 = d1" using sy_db_simps(5) [of sc ?j sy1] a sy1 by simp
  let ?e = "''worker '' @ dead @ '' died; recovering in-flight job''"
  have scope: "in_scope (sc_namespace sc) row" using assms(4) by (simp add: in_scope_def job_in_namespace_def split: option.splits)
  obtain oc sy' where f: "handle_failure js h sc ?j ?e (j_retry_count job) (j_max_retries job) (j_task_name job) 0 True False sy2 = (Inr oc, sy')"
      and oc: "(\<exists>q. oc = OutRetry ?j (j_task_name job) q ?e (j_retry_count job) False 0) \<and> j_retry_count job < j_max_retries job \<or>
        (\<exists>q. oc = OutDeadLettered ?j (j_task_name job) q ?e False 0)"
    by (rule failure_recorded [of sy2 ?j row sc h js ?e "j_retry_count job" "j_max_retries job" "j_task_name job" 0 True False])
      (use inv1 row1 scope assms(7) in \<open>simp_all add: sy2 same\<close>)
  have res: "rescue js h sc (job, dead) sy = sy'"
    using a f by (simp add: rescue_def d1 handle_result_def orphan_failure_def sy1_def [symmetric])
  have "truthful (sc_namespace sc) (orphan_failure dead job) d1 (sy_db sy') oc"
    using failure_truthful [OF _ f, of "orphan_failure dead job"] inv1 by (simp add: orphan_failure_def sy2)
  moreover have "store_inv (sy_db sy')"
    using keeps_sys_inv [OF keeps_handle_failure [of sy2]] inv1 f by (metis snd_conv sy2)
  moreover have "?j \<in> live_ids d1 \<and> get_job ?j (sc_namespace sc) d1 \<noteq> None"
    using find_live [OF row1] row1 assms(4) by (simp add: get_job_def)
  ultimately show ?thesis
    using oc row1 assms(5)
    by (auto simp: res truthful_def orphan_failure_def claim_holder_def find_row_None_iff)
qed

section \<open>Firing periodic tasks\<close>

lemma enqueue_unique_new:
  assumes "store_inv d" "\<not> key_active (n_unique_key nj) d" "us 0 \<notin> live_ids d" "n_depends_on nj = []"
  shows "enqueue_unique js us now (\<lambda>_ d. d) nj d =
    (Inr (into_job (us 0) now nj), d\<lparr>jobs := jobs d @ [new_job_row js (into_job (us 0) now nj)]\<rparr>)"
proof -
  let ?job = "into_job (us 0) now nj"
  have none: "find_active_unique (j_unique_key ?job) d = None"
    using assms(2) by (auto simp: find_active_unique_def key_active_def find_None_iff split: option.split)
  have "\<not> unique_key_taken (new_job_row js ?job) (jobs d)"
    using unique_key_taken_iff [OF assms(1), of "new_job_row js ?job"] assms(2) by simp
  then have "insert_job (new_job_row js ?job) d = Inr (d\<lparr>jobs := jobs d @ [new_job_row js ?job]\<rparr>)"
    using assms(3) by (simp add: insert_job_def insert_row_def live_ids_def)
  then have "insert_new_job js (\<lambda>i. us (1 + i)) ?job [] d = Inr (d\<lparr>jobs := jobs d @ [new_job_row js ?job]\<rparr>)"
    by (simp add: insert_new_job_def validate_dependencies_def insert_dependency_rows_def)
  then show ?thesis
    using none by (simp add: enqueue_unique_def MAX_ENQUEUE_ATTEMPTS_def numeral_eq_Suc assms(4) unique_body_def write_transaction_def)
qed

definition periodic_into_job :: "scheduler \<Rightarrow> int \<Rightarrow> (nat \<Rightarrow> host) \<Rightarrow> nat \<times> periodic_row \<Rightarrow> job" where
  "periodic_into_job sc now hs p = into_job (ids (hs (fst p)) 0) (clk (hs (fst p)) 0) (periodic_job sc now (snd p))"

lemma fire_one:
  assumes "store_inv (cl_db cl)" "\<not> key_active (Some (periodic_key (p_name t) now)) (cl_db cl)"
    "ids (hs i) 0 \<notin> live_ids (cl_db cl)" "next_run_of cr (clk (hs i) 1) t now = Inr nr"
  shows "fire_periodic js cr sc now (hs i) t cl =
    set_cl_db ((cl_db cl)\<lparr>jobs := jobs (cl_db cl) @ [new_job_row js (periodic_into_job sc now hs (i, t))]\<rparr>)
      (cl\<lparr>cl_periodic := update_periodic_schedule (p_name t) now nr (cl_periodic cl)\<rparr>)"
  using enqueue_unique_new [OF assms(1), of "periodic_job sc now t" "ids (hs i)" js "clk (hs i) 0"] assms(2-4)
  by (simp add: fire_periodic_def periodic_job_def periodic_into_job_def)

lemma cl_db_set [simp]:
  "cl_db (set_cl_db d cl) = d" "cl_periodic (set_cl_db d cl) = cl_periodic cl" "cl_db (cl\<lparr>cl_periodic := p\<rparr>) = cl_db cl"
  "cl_topics (set_cl_db d cl) = cl_topics cl" "cl_settings (set_cl_db d cl) = cl_settings cl"
  "cl_workers (set_cl_db d cl) = cl_workers cl"
  by (simp_all add: cl_db_def set_cl_db_def set_db_def)

lemma periodic_key_inj: "periodic_key m now = periodic_key n now \<longleftrightarrow> m = n"
  by (simp add: periodic_key_def)

text \<open>What the firings rely on: the tasks have their own names and keys, the ids are new.\<close>

definition fireable :: "int \<Rightarrow> (nat \<Rightarrow> host) \<Rightarrow> cron_lib \<Rightarrow> (nat \<times> periodic_row) list \<Rightarrow> db \<Rightarrow> bool" where
  "fireable now hs cr ps d \<longleftrightarrow> store_inv d \<and> distinct (map (p_name \<circ> snd) ps) \<and>
     distinct (map (\<lambda>p. ids (hs (fst p)) 0) ps) \<and>
     (\<forall>p \<in> set ps. \<not> key_active (Some (periodic_key (p_name (snd p)) now)) d \<and>
        ids (hs (fst p)) 0 \<notin> live_ids d \<union> archived_ids d \<and> (\<exists>nr. next_run_of cr (clk (hs (fst p)) 1) (snd p) now = Inr nr))"

lemma periodic_into_job_sel [simp]:
  "j_id (periodic_into_job sc now hs p) = ids (hs (fst p)) 0" "j_status (periodic_into_job sc now hs p) = Pending"
  "j_unique_key (periodic_into_job sc now hs p) = Some (periodic_key (p_name (snd p)) now)"
  by (simp_all add: periodic_into_job_def into_job_def periodic_job_def)

lemma fireable_step:
  assumes "fireable now hs cr (p # ps) d"
  shows "fireable now hs cr ps (d\<lparr>jobs := jobs d @ [new_job_row js (periodic_into_job sc now hs p)]\<rparr>)"
proof -
  let ?row = "new_job_row js (periodic_into_job sc now hs p)"
  have inv: "store_inv d" "r_id ?row \<notin> live_ids d" "r_id ?row \<notin> archived_ids d"
    "\<not> unique_key_taken ?row (jobs d)"
    using assms unique_key_taken_iff [of d ?row] by (auto simp: fireable_def)
  then have "insert_job ?row d = Inr (d\<lparr>jobs := jobs d @ [?row]\<rparr>)" by (simp add: insert_job_def insert_row_def live_ids_def)
  from insert_job_inv [OF inv(1) this] inv(3) have "store_inv (d\<lparr>jobs := jobs d @ [?row]\<rparr>)" by simp
  moreover have "ids (hs (fst q)) 0 \<noteq> ids (hs (fst p)) 0" "p_name (snd q) \<noteq> p_name (snd p)" if "q \<in> set ps" for q
    using assms that unfolding fireable_def by (auto simp: image_iff)
  ultimately show ?thesis
    using assms unfolding fireable_def key_active_def by (auto simp: live_ids_def archived_ids_def periodic_key_inj)
qed

definition reschedule_all :: "int \<Rightarrow> (periodic_row \<times> int) list \<Rightarrow> periodic_row list \<Rightarrow> periodic_row list" where
  "reschedule_all now = fold (\<lambda>(t, nr). update_periodic_schedule (p_name t) now nr)"

lemma reschedule_all_Cons:
  "reschedule_all now ((t, nr) # ps) rows = reschedule_all now ps (update_periodic_schedule (p_name t) now nr rows)"
  by (simp add: reschedule_all_def)

lemma rescheduled_later:
  "r' \<in> set (reschedule_all now ps rows) \<Longrightarrow> \<forall>(t, nr) \<in> set ps. now < nr \<Longrightarrow>
    now < p_next_run r' \<or> r' \<in> set rows \<and> p_name r' \<notin> (p_name \<circ> fst) ` set ps"
proof (induction ps arbitrary: rows)
  case (Cons p ps)
  obtain t nr where p: "p = (t, nr)" by fastforce
  have "now < p_next_run r' \<or> r' \<in> set (update_periodic_schedule (p_name t) now nr rows) \<and> p_name r' \<notin> (p_name \<circ> fst) ` set ps"
    using Cons.IH Cons.prems by (simp add: p reschedule_all_def)
  then show ?case using Cons.prems(2) by (auto simp: p update_periodic_schedule_def set_update_where)
qed (simp add: reschedule_all_def)

lemma rescheduled_others:
  "r \<in> set rows \<Longrightarrow> p_name r \<notin> (p_name \<circ> fst) ` set ps \<Longrightarrow> r \<in> set (reschedule_all now ps rows)"
proof (induction ps arbitrary: rows)
  case (Cons p ps)
  obtain t nr where p: "p = (t, nr)" by fastforce
  have "r \<in> set (update_periodic_schedule (p_name t) now nr rows)"
    using Cons.prems by (auto simp: p update_periodic_schedule_def set_update_where)
  then show ?case using Cons.IH Cons.prems(2) by (simp add: p reschedule_all_def)
qed (simp add: reschedule_all_def)

definition next_of :: "cron_lib \<Rightarrow> (nat \<Rightarrow> host) \<Rightarrow> int \<Rightarrow> nat \<times> periodic_row \<Rightarrow> int" where
  "next_of cr hs now p = projr (next_run_of cr (clk (hs (fst p)) 1) (snd p) now)"

lemma fold_fire:
  assumes "fireable now hs cr ps (cl_db cl)"
  shows "let cl' = fold (\<lambda>(i, task). fire_periodic js cr sc now (hs i) task) ps cl;
      d' = (cl_db cl)\<lparr>jobs := jobs (cl_db cl) @ map (\<lambda>p. new_job_row js (periodic_into_job sc now hs p)) ps\<rparr>
    in cl_db cl' = d' \<and> store_inv d' \<and>
       cl_periodic cl' = reschedule_all now (map (\<lambda>p. (snd p, next_of cr hs now p)) ps) (cl_periodic cl)"
  using assms
proof (induction ps arbitrary: cl)
  case Nil
  then show ?case by (simp add: fireable_def reschedule_all_def)
next
  case (Cons p ps)
  obtain i t where p: "p = (i, t)" by fastforce
  let ?d = "(cl_db cl)\<lparr>jobs := jobs (cl_db cl) @ [new_job_row js (periodic_into_job sc now hs p)]\<rparr>"
  obtain nr where nr: "next_run_of cr (clk (hs i) 1) t now = Inr nr" using Cons.prems by (auto simp: p fireable_def)
  define cl1 where "cl1 = fire_periodic js cr sc now (hs i) t cl"
  have cl1: "cl1 = set_cl_db ?d (cl\<lparr>cl_periodic := update_periodic_schedule (p_name t) now nr (cl_periodic cl)\<rparr>)"
    unfolding cl1_def p by (rule fire_one) (use Cons.prems nr in \<open>auto simp: p fireable_def\<close>)
  have "fireable now hs cr ps (cl_db cl1)" using fireable_step [OF Cons.prems] by (simp add: cl1)
  moreover have "next_of cr hs now p = nr" using nr by (simp add: next_of_def p)
  then have nx: "(snd p, next_of cr hs now p) = (t, nr)" by (simp add: p)
  have run: "fold (\<lambda>(i, task). fire_periodic js cr sc now (hs i) task) (p # ps) cl =
      fold (\<lambda>(i, task). fire_periodic js cr sc now (hs i) task) ps cl1" by (simp add: p cl1_def)
  ultimately show ?case using Cons.IH [of cl1]
    by (simp add: Let_def reschedule_all_Cons nx run cl1)
qed

text \<open>
  C9: a periodic task fires exactly once per check, and only when it is due. With fresh ids and no
  active job of the same occurrence, a check creates one job per due task, with the task's own
  queue, name and arguments, in table order; every due task is rescheduled after the instant of the
  check, so nothing is due at that instant any more and a second check changes nothing; tasks that
  are paused or not yet due keep their rows.
\<close>

theorem periodic_fires_once:
  assumes "cron_forward cr" "in_calendar cr now" "tasks = get_due_periodic now (cl_periodic cl)"
    "fireable now hs cr (enumerate 0 tasks) (cl_db cl)" "cl' = check_periodic js cr (\<lambda>c. c) sc now hs cl"
  shows "(\<exists>rows. jobs (cl_db cl') = jobs (cl_db cl) @ rows \<and>
      map (\<lambda>r. (r_task_name r, r_queue r, r_payload r, r_status r, r_scheduled_at r)) rows =
      map (\<lambda>t. (p_task_name t, p_queue t, build_periodic_payload (p_args t), status_code Pending, now)) tasks) \<and>
    store_inv (cl_db cl') \<and> get_due_periodic now (cl_periodic cl') = [] \<and>
    (\<forall>r \<in> set (cl_periodic cl). p_name r \<notin> p_name ` set tasks \<longrightarrow> r \<in> set (cl_periodic cl')) \<and>
    check_periodic js cr (\<lambda>c. c) sc now hs cl' = cl'"
proof -
  let ?ps = "enumerate 0 tasks"
  let ?next = "map (\<lambda>p. (snd p, next_of cr hs now p)) ?ps"
  have f: "jobs (cl_db cl') = jobs (cl_db cl) @ map (\<lambda>p. new_job_row js (periodic_into_job sc now hs p)) ?ps"
    "store_inv (cl_db cl')" "cl_periodic cl' = reschedule_all now ?next (cl_periodic cl)"
    using fold_fire [OF assms(4), of js sc] by (simp_all add: assms(3,5) check_periodic_def Let_def)
  have later: "\<forall>(t, nr) \<in> set ?next. now < nr"
  proof safe
    fix t nr assume "(t, nr) \<in> set ?next"
    then obtain p where p: "p \<in> set ?ps" "nr = next_of cr hs now p" by auto
    then obtain n where "next_run_of cr (clk (hs (fst p)) 1) (snd p) now = Inr n" using assms(4) by (auto simp: fireable_def)
    then show "now < nr" using next_run_later [OF assms(1,2)] by (simp add: p(2) next_of_def)
  qed
  have "(p_name \<circ> fst) ` set ?next = p_name ` snd ` set ?ps" by (auto simp: image_image)
  then have names: "(p_name \<circ> fst) ` set ?next = p_name ` set tasks" by (metis map_snd_enumerate set_map)
  have none: "get_due_periodic now (cl_periodic cl') = []"
    unfolding get_due_periodic_def filter_empty_conv
  proof
    fix r assume "r \<in> set (cl_periodic cl')"
    then have "now < p_next_run r \<or> r \<in> set (cl_periodic cl) \<and> p_name r \<notin> p_name ` set tasks"
      using rescheduled_later [OF _ later, of r "cl_periodic cl"] names by (simp add: f(3))
    then show "\<not> periodic_due now r" using assms(3) by (auto simp: periodic_due_def get_due_periodic_def)
  qed
  have jobs: "map (\<lambda>r. (r_task_name r, r_queue r, r_payload r, r_status r, r_scheduled_at r))
      (map (\<lambda>p. new_job_row js (periodic_into_job sc now hs p)) ?ps) =
    map (\<lambda>t. (p_task_name t, p_queue t, build_periodic_payload (p_args t), status_code Pending, now)) tasks"
    by (rule nth_equalityI) (simp_all add: nth_enumerate_eq new_job_row_def Let_def periodic_into_job_def into_job_def periodic_job_def)
  have others: "r \<in> set (cl_periodic cl')" if "r \<in> set (cl_periodic cl)" "p_name r \<notin> p_name ` set tasks" for r
    unfolding f(3) using that names by (intro rescheduled_others) simp_all
  show ?thesis
    using f(1,2) jobs none others by (auto simp: check_periodic_def)
qed

subsection \<open>Two schedulers\<close>

lemma string_of_int_no_colon: "CHR '':'' \<notin> set (string_of_int k)"
proof -
  have "CHR '':'' \<notin> set (string_of_nat n)" for n using string_of_nat_digits [of n] digit_char_ne by (metis insertI1)
  then show ?thesis by (simp add: string_of_int_def)
qed

lemma string_of_int_inj:
  assumes "string_of_int a = string_of_int b" shows "a = b"
proof -
  have no: "string_of_nat m \<noteq> CHR ''-'' # xs" for m xs
    using string_of_nat_digits [of m] digit_char_ne by (metis insertCI list.set_intros(1))
  have inj: "m = n" if "string_of_nat m = string_of_nat n" for m n
    using that by (metis parse_string_of_nat option.inject)
  show ?thesis
    using assms no no [symmetric] by (auto simp: string_of_int_def split: if_splits dest!: inj)
qed

lemma periodic_key_now:
  assumes "periodic_key m a = periodic_key n b" shows "a = b"
proof -
  have "rev (string_of_int a) @ CHR '':'' # rev m = rev (string_of_int b) @ CHR '':'' # rev n"
    using arg_cong [OF assms, of rev] by (simp add: periodic_key_def)
  then have "rev (string_of_int a) = rev (string_of_int b)"
    by (metis split_once_append string_of_int_no_colon set_rev option.inject prod.inject)
  then show ?thesis using string_of_int_inj by simp
qed

lemma fireable_after_rival:
  assumes "fireable now hs cr ps d" "store_inv d'" "d' = d\<lparr>jobs := jobs d @ map (\<lambda>p. new_job_row js (periodic_into_job sc now' hs' p)) qs\<rparr>"
    "now' \<noteq> now" "\<And>p q. p \<in> set ps \<Longrightarrow> q \<in> set qs \<Longrightarrow> ids (hs (fst p)) 0 \<noteq> ids (hs' (fst q)) 0"
  shows "fireable now hs cr ps d'"
proof -
  have "periodic_key m now' \<noteq> periodic_key n now" for m n using periodic_key_now assms(4) by blast
  then have "\<not> key_active (Some (periodic_key (p_name (snd p)) now)) d'"
    if "\<not> key_active (Some (periodic_key (p_name (snd p)) now)) d" for p :: "nat \<times> periodic_row"
    using that by (auto simp: key_active_def assms(3))
  moreover have "ids (hs (fst p)) 0 \<notin> live_ids d' \<union> archived_ids d'"
    if "p \<in> set ps" "ids (hs (fst p)) 0 \<notin> live_ids d \<union> archived_ids d" for p
  proof -
    have "\<forall>q \<in> set qs. ids (hs (fst p)) 0 \<noteq> ids (hs' (fst q)) 0" using assms(5) [OF that(1)] by blast
    then show ?thesis using that(2) by (force simp: live_ids_def archived_ids_def assms(3))
  qed
  ultimately show ?thesis using assms(1,2) unfolding fireable_def by blast
qed

text \<open>
  C38: two schedulers can fire the same occurrence twice. When both read the schedule before either
  has moved it on, and their clocks do not show the same millisecond, each due task is enqueued once
  by each of them: the unique key of the job is made from the clock of the scheduler, not from the
  time the task was scheduled for.
\<close>

theorem periodic_race_duplicates:
  assumes "ps = enumerate 0 (get_due_periodic now (cl_periodic cl))"
    "get_due_periodic now' (cl_periodic cl) = get_due_periodic now (cl_periodic cl)" "now' \<noteq> now"
    "fireable now hs cr ps (cl_db cl)" "fireable now' hs' cr ps (cl_db cl)"
    "\<And>p q. p \<in> set ps \<Longrightarrow> q \<in> set ps \<Longrightarrow> ids (hs (fst p)) 0 \<noteq> ids (hs' (fst q)) 0"
  shows "jobs (cl_db (check_periodic js cr (check_periodic js cr (\<lambda>c. c) sc' now' hs') sc now hs cl)) =
    jobs (cl_db cl) @ map (\<lambda>p. new_job_row js (periodic_into_job sc' now' hs' p)) ps @
      map (\<lambda>p. new_job_row js (periodic_into_job sc now hs p)) ps"
proof -
  define cl1 where "cl1 = check_periodic js cr (\<lambda>c. c) sc' now' hs' cl"
  have one: "cl_db cl1 = (cl_db cl)\<lparr>jobs := jobs (cl_db cl) @ map (\<lambda>p. new_job_row js (periodic_into_job sc' now' hs' p)) ps\<rparr>"
      "store_inv (cl_db cl1)"
    using fold_fire [OF assms(5), of js sc'] by (simp_all add: cl1_def check_periodic_def assms(1,2) Let_def)
  have "fireable now hs cr ps (cl_db cl1)"
    by (rule fireable_after_rival [OF assms(4) one(2,1) assms(3)]) (rule assms(6))
  from fold_fire [OF this, of js sc] show ?thesis
    by (simp add: check_periodic_def [of _ _ "check_periodic js cr (\<lambda>c. c) sc' now' hs'"] cl1_def [symmetric]
        assms(1) [symmetric] Let_def one(1))
qed

section \<open>Witnesses\<close>

definition minute_cron :: cron_lib where
  "minute_cron = \<lparr>cron_error = (\<lambda>_. None), cron_after = (\<lambda>_ t. Some (t + 60000)), cron_after_tz = (\<lambda>_ _ t. Some (t + 60000)),
     tz_known = (\<lambda>_. True), in_calendar = (\<lambda>_. True)\<rparr>"

definition demo_periodic :: "string \<Rightarrow> bool \<Rightarrow> int \<Rightarrow> periodic_row" where
  "demo_periodic name enabled next_run = \<lparr>p_name = name, p_task_name = ''report'', p_cron_expr = ''0 * * * * *'', p_args = None,
     p_kwargs = None, p_queue = ''default'', p_enabled = enabled, p_last_run = None, p_next_run = next_run, p_timezone = None\<rparr>"

definition demo_cluster :: "db \<Rightarrow> cluster" where
  "demo_cluster d = \<lparr>cl_sys = idle_system d, cl_workers = [], cl_topics = demo_topics,
     cl_periodic = [demo_periodic ''nightly'' True 90, demo_periodic ''paused'' False 90, demo_periodic ''later'' True 500],
     cl_settings = []\<rparr>"

definition tagged_host :: "string \<Rightarrow> host" where
  "tagged_host pre = \<lparr>clk = (\<lambda>_. 100), ids = (\<lambda>n. pre @ string_of_nat n), rnd = (\<lambda>_. 0)\<rparr>"

lemma minute_cron_forward: "cron_forward minute_cron"
  by (simp add: cron_forward_def minute_cron_def)

lemma demo_due:
  "enumerate 0 (get_due_periodic 100 (cl_periodic (demo_cluster d))) = [(0, demo_periodic ''nightly'' True 90)]"
  "get_due_periodic 101 (cl_periodic (demo_cluster d)) = get_due_periodic 100 (cl_periodic (demo_cluster d))"
  by (simp_all add: demo_cluster_def get_due_periodic_def periodic_due_def demo_periodic_def)

lemma demo_fireable: "fireable now (\<lambda>_. tagged_host pre) minute_cron [(0, demo_periodic ''nightly'' True 90)] (cl_db (demo_cluster empty_db))"
  by (simp add: fireable_def demo_cluster_def cl_db_def key_active_def live_ids_def archived_ids_def next_run_of_def
      demo_periodic_def next_cron_time_def minute_cron_def)

theorem periodic_fires_once_witness:
  "let cl' = check_periodic no_json minute_cron (\<lambda>c. c) demo_scheduler 100 (\<lambda>_. tagged_host ''x'') (demo_cluster empty_db)
   in map r_task_name (jobs (cl_db cl')) = [''report''] \<and> get_due_periodic 100 (cl_periodic cl') = []"
proof -
  let ?cl' = "check_periodic no_json minute_cron (\<lambda>c. c) demo_scheduler 100 (\<lambda>_. tagged_host ''x'') (demo_cluster empty_db)"
  have "in_calendar minute_cron 100" by (simp add: minute_cron_def)
  from periodic_fires_once [OF minute_cron_forward this refl _ refl, of "\<lambda>_. tagged_host ''x''" "demo_cluster empty_db" no_json demo_scheduler]
  have "get_due_periodic 100 (cl_periodic ?cl') = []"
    unfolding demo_due(1) using demo_fireable by blast
  moreover have "map r_task_name (jobs (cl_db ?cl')) = [''report'']" by code_simp
  ultimately show ?thesis by (simp add: Let_def)
qed

theorem periodic_race_duplicates_witness:
  "map r_unique_key (jobs (cl_db (check_periodic no_json minute_cron
      (check_periodic no_json minute_cron (\<lambda>c. c) demo_scheduler 101 (\<lambda>_. tagged_host ''y''))
      demo_scheduler 100 (\<lambda>_. tagged_host ''x'') (demo_cluster empty_db)))) =
    [Some ''periodic:nightly:101'', Some ''periodic:nightly:100'']"
proof -
  let ?ps = "[(0, demo_periodic ''nightly'' True 90)]"
  have keys: "periodic_key ''nightly'' 101 = ''periodic:nightly:101''" "periodic_key ''nightly'' 100 = ''periodic:nightly:100''"
    by code_simp+
  have r: "jobs (cl_db (check_periodic no_json minute_cron
      (check_periodic no_json minute_cron (\<lambda>c. c) demo_scheduler 101 (\<lambda>_. tagged_host ''y''))
      demo_scheduler 100 (\<lambda>_. tagged_host ''x'') (demo_cluster empty_db))) =
    jobs (cl_db (demo_cluster empty_db)) @
      map (\<lambda>p. new_job_row no_json (periodic_into_job demo_scheduler 101 (\<lambda>_. tagged_host ''y'') p)) ?ps @
      map (\<lambda>p. new_job_row no_json (periodic_into_job demo_scheduler 100 (\<lambda>_. tagged_host ''x'') p)) ?ps"
    by (rule periodic_race_duplicates [OF demo_due(1) [symmetric] demo_due(2) _ demo_fireable demo_fireable])
      (simp_all add: tagged_host_def)
  show ?thesis unfolding r
    by (simp add: periodic_into_job_def into_job_def periodic_job_def demo_periodic_def keys demo_cluster_def cl_db_def)
qed

definition orphan_db :: db where
  "orphan_db = running_db\<lparr>execution_claims := [\<lparr>c_job_id = ''a'', c_worker_id = ''gone'', c_claimed_at = 6\<rparr>]\<rparr>"

theorem orphan_recovered_witness:
  "status_of (sy_db (rescue no_json demo_host demo_scheduler
     (job_of_row (claimed_row 6 (sample_row ''a'' 0)), ''gone'') (idle_system orphan_db))) ''a'' = Some Pending"
proof -
  let ?job = "job_of_row (claimed_row 6 (sample_row ''a'' 0))"
  have inv: "store_inv orphan_db" using store_inv_running by (simp add: orphan_db_def store_inv_def claim_keys_def)
  have h: "find_row r_id (j_id ?job) (jobs (sy_db (idle_system orphan_db))) = Some (claimed_row 6 (sample_row ''a'' 0))"
    "r_status (claimed_row 6 (sample_row ''a'' 0)) = status_code Running"
    "job_in_namespace (r_namespace (claimed_row 6 (sample_row ''a'' 0))) (sc_namespace demo_scheduler)"
    "j_retry_count ?job = r_retry_count (claimed_row 6 (sample_row ''a'' 0))"
    "claim_holder (sy_db (idle_system orphan_db)) (j_id ?job) = Some ''gone''"
    "ids demo_host 2 \<notin> d_id ` set (dead_letter (sy_db (idle_system orphan_db)))"
    "j_id ?job = ''a''" "status_of (sy_db (rescue no_json demo_host demo_scheduler (?job, ''gone'') (idle_system orphan_db))) ''a'' \<noteq> Some Dead"
    by code_simp+
  from orphan_recovered [OF _ h(1-6), of no_json] inv h(7,8) show ?thesis by (auto simp: Let_def)
qed

end
