(* ===== verification/Delivery.thy ===== *)
theory Delivery
  imports Pubsub
begin

text \<open>
  What the two kinds of subscription promise: a message leased to a consumer of a log is hidden
  until its lease runs out or it is settled, a publish hands exactly one job to each active fan-out
  subscription, and the message log loses a message that is published below a committed cursor.
\<close>

section \<open>Leases\<close>

definition leased_row :: "string \<Rightarrow> string \<Rightarrow> int \<Rightarrow> int \<Rightarrow> string \<Rightarrow> delivery_row option \<Rightarrow> delivery_row" where
  "leased_row topic name lease_until now mid v = \<lparr>v_topic = topic, v_sub = name, v_message_id = mid, v_acked = False,
     v_attempts = (case v of None \<Rightarrow> 1 | Some v \<Rightarrow> v_attempts v + 1), v_lease_expires_at = lease_until,
     v_delivered_at = now\<rparr>"

lemma delivery_key_lease [simp]:
  "delivery_key (v\<lparr>v_acked := a, v_attempts := n, v_lease_expires_at := e, v_delivered_at := t\<rparr>) = delivery_key v"
  "delivery_key (v\<lparr>v_acked := a\<rparr>) = delivery_key v" "delivery_key (v\<lparr>v_lease_expires_at := e\<rparr>) = delivery_key v"
  by (simp_all add: delivery_key_def)

lemma delivery_of_upsert:
  "delivery_of t n (upsert_lease topic name lu now mid tp) mid' =
    (if (t, n, mid') = (topic, name, mid) then Some (leased_row topic name lu now mid (delivery_of topic name tp mid))
     else delivery_of t n tp mid')"
proof (cases "delivery_of topic name tp mid")
  case None
  then show ?thesis
    by (auto simp: upsert_lease_def delivery_of_def find_row_append leased_row_def delivery_key_def split: option.split)
next
  case (Some v)
  have "v_topic v = topic" "v_sub v = name" "v_message_id v = mid"
    using Some by (auto simp: delivery_of_def delivery_key_def dest: find_row_SomeD)
  then have "v\<lparr>v_acked := False, v_attempts := v_attempts v + 1, v_lease_expires_at := lu, v_delivered_at := now\<rparr> =
      leased_row topic name lu now mid (Some v)" by (cases v) (simp add: leased_row_def)
  then show ?thesis using Some
    by (cases "find_row delivery_key (t, n, mid') (deliveries tp)")
      (auto simp: upsert_lease_def delivery_of_def find_row_update_where dest: find_row_SomeD)
qed

lemma delivery_of_leases:
  "distinct mids \<Longrightarrow> delivery_of t n (fold (upsert_lease topic name lu now) mids tp) mid' =
    (if t = topic \<and> n = name \<and> mid' \<in> set mids
     then Some (leased_row topic name lu now mid' (delivery_of topic name tp mid')) else delivery_of t n tp mid')"
  by (induction mids arbitrary: tp) (auto simp: delivery_of_upsert)

lemma upsert_lease_frame [simp]:
  "messages (upsert_lease topic name lu now mid tp) = messages tp"
  "subscriptions (upsert_lease topic name lu now mid tp) = subscriptions tp"
  "topics (upsert_lease topic name lu now mid tp) = topics tp"
  by (simp_all add: upsert_lease_def)

lemma topics_ok_lease [simp]: "topics_ok tp \<Longrightarrow> topics_ok (upsert_lease topic name lu now mid tp)"
  by (auto simp: topics_ok_def upsert_lease_def map_key_update_where delivery_of_def find_row_None_iff
      delivery_key_def image_iff)

lemma leases_frame [simp]:
  "messages (fold (upsert_lease topic name lu now) mids tp) = messages tp"
  "subscriptions (fold (upsert_lease topic name lu now) mids tp) = subscriptions tp"
  "topics_ok tp \<Longrightarrow> topics_ok (fold (upsert_lease topic name lu now) mids tp)"
  by (induction mids arbitrary: tp) simp_all

definition lease_rows :: "string \<Rightarrow> string \<Rightarrow> int \<Rightarrow> int \<Rightarrow> topic_log \<Rightarrow> message_row list" where
  "lease_rows topic name limit now tp =
     (if limit \<le> 0 \<or> find (log_sub topic name) (subscriptions tp) = None then []
      else sql_limit limit (order_by by_id (filter (available topic name now tp) (messages tp))))"

lemma lease_eq:
  "lease_topic_messages topic name limit vis now tp = (lease_rows topic name limit now tp,
    fold (upsert_lease topic name (wrapping_add now vis) now) (map tm_id (lease_rows topic name limit now tp)) tp)"
  by (simp add: lease_topic_messages_def lease_rows_def Let_def)

lemma distinct_lease_rows: "topics_ok tp \<Longrightarrow> distinct (map tm_id (lease_rows topic name limit now tp))"
  unfolding lease_rows_def sql_limit_def topics_ok_def
  by (simp add: distinct_map_filter distinct_take flip: take_map)

lemma lease_rowsD:
  "m \<in> set (lease_rows topic name limit now tp) \<Longrightarrow> m \<in> set (messages tp) \<and> available topic name now tp m"
  unfolding lease_rows_def using set_sql_limit by (fastforce split: if_splits)

lemma length_lease_rows: "0 < limit \<Longrightarrow> int (length (lease_rows topic name limit now tp)) \<le> limit"
  by (simp add: lease_rows_def length_sql_limit)

lemma sorted_lease_rows: "sorted_wrt by_id (lease_rows topic name limit now tp)"
  by (simp add: lease_rows_def sql_limit_def by_id.sorted_order_by sorted_wrt_take)

lemma delivery_of_lease:
  assumes "topics_ok tp" "lease_topic_messages topic name limit vis now tp = (rows, tp')"
  shows "delivery_of t n tp' mid = (if t = topic \<and> n = name \<and> mid \<in> tm_id ` set rows
       then Some (leased_row topic name (wrapping_add now vis) now mid (delivery_of topic name tp mid))
       else delivery_of t n tp mid)"
  using assms(2) distinct_lease_rows [OF assms(1)] by (auto simp: lease_eq delivery_of_leases)

lemma delivery_of_ack_message:
  "delivery_of t n (snd (ack_message topic name mid tp)) mid' =
    map_option (\<lambda>v. if open_delivery topic name mid v then v\<lparr>v_acked := True\<rparr> else v) (delivery_of t n tp mid')"
  by (simp add: delivery_of_def ack_message_def find_row_update_where)

lemma delivery_of_nack_message:
  "delivery_of t n (snd (nack_message topic name mid tp)) mid' =
    map_option (\<lambda>v. if open_delivery topic name mid v then v\<lparr>v_lease_expires_at := 0\<rparr> else v) (delivery_of t n tp mid')"
  by (simp add: delivery_of_def nack_message_def find_row_update_where)

text \<open>
  C21: a leased message is hidden from the other consumers of its subscription exactly until the
  lease runs out. No call to lease before that returns it again; from then on it is available; an
  ack hides it for good, a nack makes it available at once. Only messages that were available are
  leased, at most \<open>limit\<close> of them and in the order of their ids, and other subscriptions of the
  topic do not notice.
\<close>

theorem lease_visibility:
  assumes "topics_ok tp" "0 < limit" "lease_topic_messages topic name limit vis now tp = (rows, tp')"
  shows "int (length rows) \<le> limit \<and> sorted_wrt by_id rows \<and>
    (\<forall>m \<in> set rows. m \<in> set (messages tp) \<and> available topic name now tp m \<and>
      (\<forall>t limit' vis'. t < wrapping_add now vis \<longrightarrow> m \<notin> set (fst (lease_topic_messages topic name limit' vis' t tp'))) \<and>
      (\<forall>t. available topic name t tp' m \<longleftrightarrow> wrapping_add now vis \<le> t) \<and>
      (\<forall>t. \<not> available topic name t (snd (ack_message topic name (tm_id m) tp')) m) \<and>
      (\<forall>t. available topic name t (snd (nack_message topic name (tm_id m) tp')) m \<longleftrightarrow> 0 \<le> t)) \<and>
    (\<forall>t name' m. name' \<noteq> name \<longrightarrow> available topic name' t tp' m = available topic name' t tp m)"
proof -
  have rows: "rows = lease_rows topic name limit now tp" using assms(3) by (simp add: lease_eq)
  note l = lease_rowsD [of _ topic name limit now tp, folded rows] and d = delivery_of_lease [OF assms(1,3)]
  have row: "delivery_of topic name tp' (tm_id m) =
      Some (leased_row topic name (wrapping_add now vis) now (tm_id m) (delivery_of topic name tp (tm_id m)))"
    if "m \<in> set rows" for m using that by (simp add: d)
  have topic: "tm_topic m = topic" if "m \<in> set rows" for m using l [OF that] by (simp add: available_def)
  have av: "available topic name t tp' m \<longleftrightarrow> wrapping_add now vis \<le> t" if "m \<in> set rows" for m t
    using row [OF that] topic [OF that] by (simp add: available_def leased_row_def)
  have "m \<notin> set (fst (lease_topic_messages topic name limit' vis' t tp'))"
    if "m \<in> set rows" "t < wrapping_add now vis" for m t limit' vis'
    using av [OF that(1), of t] that(2) by (auto simp: lease_eq dest: lease_rowsD)
  moreover have "\<not> available topic name t (snd (ack_message topic name (tm_id m) tp')) m" if "m \<in> set rows" for m t
    using row [OF that] by (simp add: available_def delivery_of_ack_message leased_row_def open_delivery_def delivery_key_def)
  moreover have "available topic name t (snd (nack_message topic name (tm_id m) tp')) m \<longleftrightarrow> 0 \<le> t" if "m \<in> set rows" for m t
    using row [OF that] topic [OF that]
    by (simp add: available_def delivery_of_nack_message leased_row_def open_delivery_def delivery_key_def)
  moreover have "available topic name' t tp' m = available topic name' t tp m" if "name' \<noteq> name" for name' t m
    using that by (simp add: available_def d)
  ultimately show ?thesis using l av length_lease_rows [OF assms(2), of topic name now tp, folded rows]
      sorted_lease_rows [of topic name limit now tp, folded rows] by blast
qed

section \<open>Fan-out\<close>

definition fan_out :: "string \<Rightarrow> topic_log \<Rightarrow> sub_row list" where
  "fan_out topic tp = filter (\<lambda>s. mode_from_wire (u_mode s) \<noteq> LogMode) (list_subscriptions_for_topic topic tp)"

lemma fan_out_active: "set (fan_out topic tp) =
    {s \<in> set (subscriptions tp). u_topic s = topic \<and> u_active s \<and> mode_from_wire (u_mode s) \<noteq> LogMode}"
  by (auto simp: fan_out_def list_subscriptions_for_topic_def)

definition log_row :: "string \<Rightarrow> int \<Rightarrow> publish_request \<Rightarrow> int option \<Rightarrow> message_row" where
  "log_row uid now r e = \<lparr>tm_id = uid, tm_topic = pr_topic r, tm_payload = pr_payload r, tm_metadata = pr_metadata r,
     tm_notes = pr_notes r, tm_created_at = now, tm_expires_at = e\<rparr>"

definition log_rows :: "string \<Rightarrow> int \<Rightarrow> int \<Rightarrow> publish_request \<Rightarrow> topic_log \<Rightarrow> message_row list" where
  "log_rows uid now now' r tp = (case log_expires now r tp of None \<Rightarrow> [] | Some e \<Rightarrow> [log_row uid now' r e])"

lemma publish_message_eq:
  "publish_message uid now (pr_topic r) (pr_payload r) (pr_metadata r) (pr_notes r) e tp =
    (if uid \<in> tm_id ` set (messages tp) then (Inl (Storage UniqueViolation), tp)
     else (Inr (log_row uid now r e), tp\<lparr>messages := messages tp @ [log_row uid now r e]\<rparr>))"
  by (auto simp: publish_message_def insert_row_def log_row_def Let_def)

lemma publish_eq:
  "publish_to_topic js uid now now' ids clock env r (d, tp) =
    (if log_rows uid now now' r tp \<noteq> [] \<and> uid \<in> tm_id ` set (messages tp)
     then (Inl (Storage UniqueViolation), d, tp)
     else let tp1 = tp\<lparr>messages := messages tp @ log_rows uid now now' r tp\<rparr>;
              batch = map (delivery_job js r) (fan_out (pr_topic r) tp)
          in if batch = [] then (Inr [], d, tp1)
             else let (res, d') = (if pr_idempotency_key r = None then enqueue_batch js ids clock batch d
                                   else enqueue_unique_batch js ids clock env batch d)
                  in (res, d', tp1))"
  by (auto simp: publish_to_topic_def publish_message_eq log_rows_def fan_out_def Let_def
      split: option.splits prod.splits)

lemma into_jobs_nth:
  "i < length njs \<Longrightarrow> into_jobs ids clock njs ! i = into_job (ids i) (clock i) (njs ! i)"
  by (simp add: into_jobs_def nth_enumerate_eq)

text \<open>
  C19: an unkeyed publish creates exactly one pending job for each active fan-out subscription of
  the topic, in registration order, with the subscription's task and queue, the published payload
  and the first delivery setting given by the request, the subscription or the queue; on a topic
  with a log subscriber, or a declared log topic, it appends exactly one message to the log, and
  none otherwise. If it fails no job is created.
\<close>

theorem publish_fans_out:
  assumes "store_inv d" "fresh_ids ids d" "pr_idempotency_key r = None"
  shows "case publish_to_topic js uid now now' ids clock env r (d, tp) of
    (Inl e, d', tp') \<Rightarrow> d' = d
  | (Inr out, d', tp') \<Rightarrow> store_inv d' \<and> jobs d' = jobs d @ map (new_job_row js) out \<and>
      length out = length (fan_out (pr_topic r) tp) \<and>
      (\<forall>i < length out. let s = fan_out (pr_topic r) tp ! i; j = out ! i
        in j_id j = ids i \<and> j_status j = Pending \<and> j_task_name j = u_task_name s \<and> j_queue j = u_queue s \<and>
           j_payload j = pr_payload r \<and> j_unique_key j = None \<and>
           j_priority j = override (pr_priority r) (u_priority s) (dd_priority (pr_queue_defaults r)) \<and>
           j_max_retries j = override (pr_max_retries r) (u_max_retries s) (dd_max_retries (pr_queue_defaults r))) \<and>
      tp' = tp\<lparr>messages := messages tp @ log_rows uid now now' r tp\<rparr>"
proof -
  let ?batch = "map (delivery_job js r) (fan_out (pr_topic r) tp)"
  have e: "case enqueue_batch js ids clock ?batch d of (Inl e, d') \<Rightarrow> d' = d
    | (Inr out, d') \<Rightarrow> store_inv d' \<and> jobs d' = jobs d @ map (new_job_row js) out \<and> out = into_jobs ids clock ?batch"
    using enqueue_batch_correct [OF assms(1,2), where js = js and clock = clock and njs = ?batch] by (auto split: prod.splits sum.splits)
  have len: "length (into_jobs ids clock ?batch) = length (fan_out (pr_topic r) tp)"
    by (simp add: into_jobs_def)
  show ?thesis
    using e assms(1,3) len
    by (auto simp: publish_eq Let_def into_jobs_nth into_job_def delivery_job_def split: prod.splits sum.splits)
qed

section \<open>Keyed publishes\<close>

text \<open>The job a key is active on, as the dedup lookup reads it back.\<close>

definition active_job :: "string option \<Rightarrow> db \<Rightarrow> job option" where
  "active_job k d = map_option job_of_row (find_active_unique k d)"

lemma find_append: "find P (xs @ ys) = (case find P xs of None \<Rightarrow> find P ys | Some x \<Rightarrow> Some x)"
  by (induction xs) simp_all

lemma active_job_append:
  "find_active_unique k d = Some row \<Longrightarrow> jobs d' = jobs d @ rows \<Longrightarrow> find_active_unique k d' = Some row"
  by (auto simp: find_active_unique_def find_append split: option.splits)

lemma unique_body_active:
  assumes "unique_body js ids job deps d = Inr (j, d')" "j_unique_key job \<noteq> None" "j_status job = Pending"
    "job_of_row (new_job_row js job) = job"
  shows "active_job (j_unique_key job) d' = Some j \<and> (\<exists>rows. jobs d' = jobs d @ rows)"
proof (cases "find_active_unique (j_unique_key job) d")
  case (Some row)
  then show ?thesis using assms(1) by (auto simp: unique_body_def active_job_def)
next
  case None
  then have "insert_new_job js ids job deps d = Inr d'" "j = job"
    using assms(1) by (auto simp: unique_body_def and_then_Inr_iff)
  from insert_new_jobD [OF this(1)] have "jobs d' = jobs d @ [new_job_row js job]" by (simp add: new_job_effect_def)
  then show ?thesis
    using None assms(2-4) \<open>j = job\<close>
    by (auto simp: active_job_def find_active_unique_def find_append)
qed

lemma active_job_stays: "active_job k d = Some j \<Longrightarrow> jobs d' = jobs d @ rows \<Longrightarrow> active_job k d' = Some j"
  by (auto simp: active_job_def dest: active_job_append)

definition dedupable :: "json_lib \<Rightarrow> job \<times> string list \<Rightarrow> bool" where
  "dedupable js p \<longleftrightarrow> j_unique_key (fst p) \<noteq> None \<and> j_status (fst p) = Pending \<and>
     job_of_row (new_job_row js (fst p)) = fst p"

lemma unique_batch_active:
  "unique_batch_body js ids ps d = Inr (out, d') \<Longrightarrow> list_all (dedupable js) ps \<Longrightarrow>
    map (\<lambda>p. active_job (j_unique_key (fst p)) d') ps = map Some out \<and> (\<exists>rows. jobs d' = jobs d @ rows)"
proof (induction ps arbitrary: ids d out)
  case (Cons p ps)
  obtain job deps where p: "p = (job, deps)" by fastforce
  obtain j d1 out' where b: "unique_body js ids job deps d = Inr (j, d1)"
      "unique_batch_body js (\<lambda>i. ids (length deps + i)) ps d1 = Inr (out', d')" "out = j # out'"
    using Cons.prems(1) by (auto simp: p and_then_Inr_iff)
  obtain rows where one: "active_job (j_unique_key job) d1 = Some j" "jobs d1 = jobs d @ rows"
    using unique_body_active [OF b(1)] Cons.prems(2) by (auto simp: p dedupable_def)
  obtain rows' where rest: "map (\<lambda>p. active_job (j_unique_key (fst p)) d') ps = map Some out'" "jobs d' = jobs d1 @ rows'"
    using Cons.IH [OF b(2)] Cons.prems(2) by auto
  show ?case using rest active_job_stays [OF one(1) rest(2)] by (simp add: p b(3) one(2))
qed simp

lemma unique_batch_loop_active:
  "enqueue_unique_batch_loop n k js ids env ps d = (Inr out, d') \<Longrightarrow> list_all (dedupable js) ps \<Longrightarrow>
    map (\<lambda>p. active_job (j_unique_key (fst p)) d') ps = map Some out"
proof (induction n arbitrary: k ids d)
  case (Suc n)
  show ?case
  proof (cases "unique_batch_body js ids ps (env k d)")
    case (Inr r)
    then show ?thesis using Suc.prems unique_batch_active [of js ids ps "env k d"]
      by (auto simp: write_transaction_def split: prod.splits)
  next
    case (Inl e)
    then show ?thesis using Suc by (auto simp: write_transaction_def split: if_splits)
  qed
qed simp

lemma unique_batch_repeat:
  "map (\<lambda>p. active_job (j_unique_key (fst p)) d) ps = map Some out \<Longrightarrow> unique_batch_body js ids ps d = Inr (out, d)"
proof (induction ps arbitrary: ids out)
  case (Cons p ps)
  obtain job deps where p: "p = (job, deps)" by fastforce
  obtain j out' where out: "out = j # out'" using Cons.prems by (cases out) auto
  have "unique_body js ids job deps d = Inr (j, d)"
    using Cons.prems by (auto simp: p out unique_body_def active_job_def)
  then show ?case using Cons.IH [of out'] Cons.prems by (simp add: p out)
qed simp

lemma dedupable_deliveries:
  "pr_idempotency_key r \<noteq> None \<Longrightarrow>
   list_all (dedupable js) (zip (into_jobs ids clock (map (delivery_job js r) subs)) (map n_depends_on (map (delivery_job js r) subs)))"
  by (auto simp: list_all_length into_jobs_def nth_enumerate_eq dedupable_def into_job_def delivery_job_def job_of_new_job_row)

lemma delivery_keys:
  "map (\<lambda>p. f (j_unique_key (fst p)))
     (zip (into_jobs ids clock (map (delivery_job js r) subs)) (map n_depends_on (map (delivery_job js r) subs))) =
   map (\<lambda>s. f (map_option (\<lambda>k. salted_unique_key k (pr_topic r) (u_name s)) (pr_idempotency_key r))) subs"
  by (rule nth_equalityI) (auto simp: into_jobs_def nth_enumerate_eq into_job_def delivery_job_def)

text \<open>
  C23: publishing again under the same idempotency key, with the deliveries of the first publish
  still active, returns the very same jobs and leaves the job store untouched. The message log does
  not share that protection: the second publish appends a second message for log subscribers.
\<close>

theorem republish_deduplicates:
  assumes "pr_idempotency_key r \<noteq> None"
    "publish_to_topic js uid now now' ids clock env r (d, tp) = (Inr out, d1, tp1)"
    "uid2 \<notin> tm_id ` set (messages tp1)"
  shows "publish_to_topic js uid2 now2 now2' ids2 clock2 (\<lambda>_ d. d) r (d1, tp1) =
    (Inr out, d1, tp1\<lparr>messages := messages tp1 @ log_rows uid2 now2 now2' r tp1\<rparr>)"
proof -
  let ?fan = "fan_out (pr_topic r) tp"
  have fan: "fan_out (pr_topic r) (tp\<lparr>messages := ms\<rparr>) = ?fan" for ms
    by (simp add: fan_out_def list_subscriptions_for_topic_def)
  have tp1: "tp1 = tp\<lparr>messages := messages tp @ log_rows uid now now' r tp\<rparr>"
    using assms(1,2) by (auto simp: publish_eq Let_def split: if_splits prod.splits)
  show ?thesis
  proof (cases "?fan = []")
    case True
    then show ?thesis using assms tp1 by (auto simp: publish_eq Let_def fan split: if_splits)
  next
    case False
    have "enqueue_unique_batch js ids clock env (map (delivery_job js r) ?fan) d = (Inr out, d1)"
      using assms(1,2) False by (auto simp: publish_eq Let_def split: if_splits prod.splits)
    from unique_batch_loop_active [OF this [unfolded enqueue_unique_batch_def] dedupable_deliveries [OF assms(1)]]
    have "unique_batch_body js (\<lambda>i. ids2 (length ?fan + i)) (zip (into_jobs ids2 clock2 (map (delivery_job js r) ?fan))
        (map n_depends_on (map (delivery_job js r) ?fan))) d1 = Inr (out, d1)"
      by (intro unique_batch_repeat) (simp only: delivery_keys [where f = "\<lambda>k. active_job k d1"])
    then have "enqueue_unique_batch js ids2 clock2 (\<lambda>_ d. d) (map (delivery_job js r) ?fan) d1 = (Inr out, d1)"
      by (simp add: enqueue_unique_batch_def MAX_ENQUEUE_ATTEMPTS_def numeral_eq_Suc write_transaction_def)
    then show ?thesis using assms(1,3) False by (auto simp: publish_eq Let_def tp1 fan)
  qed
qed

section \<open>Salted keys\<close>

lemma split_at_colon:
  "xs @ CHR '':'' # ys = xs' @ CHR '':'' # ys' \<Longrightarrow> CHR '':'' \<notin> set xs \<Longrightarrow> CHR '':'' \<notin> set xs' \<Longrightarrow> xs = xs' \<and> ys = ys'"
  by (metis split_once_append option.inject prod.inject)

lemma string_of_nat_inj: "string_of_nat m = string_of_nat n \<Longrightarrow> m = n"
  by (metis parse_string_of_nat option.inject)

lemma no_colon_in_nat: "CHR '':'' \<notin> set (string_of_nat n)"
  using string_of_nat_digits [of n] digit_char_ne by (metis insertI1)

text \<open>
  Under one idempotency key, two subscriptions never share a salted key, whatever characters
  their topics and names contain; so a keyed fan-out drops no subscriber's delivery.
\<close>

lemma salted_unique_key_injective:
  "salted_unique_key k topic name = salted_unique_key k topic' name' \<longleftrightarrow> topic = topic' \<and> name = name'"
proof
  assume eq: "salted_unique_key k topic name = salted_unique_key k topic' name'"
  let ?rest = "\<lambda>t n. string_of_nat (length n) @ CHR '':'' # t @ n"
  have "string_of_nat (length topic) @ CHR '':'' # ?rest topic name =
      string_of_nat (length topic') @ CHR '':'' # ?rest topic' name'"
    using eq by (simp add: salted_unique_key_def)
  from split_at_colon [OF this no_colon_in_nat no_colon_in_nat]
  have t: "length topic = length topic'" and r: "?rest topic name = ?rest topic' name'"
    by (auto dest: string_of_nat_inj)
  from split_at_colon [OF r no_colon_in_nat no_colon_in_nat] have "topic @ name = topic' @ name'" by simp
  then show "topic = topic' \<and> name = name'" using t by simp
qed simp

section \<open>Witnesses\<close>

theorem lease_visibility_witness:
  "map tm_id (fst (lease_topic_messages ''news'' ''a'' 2 30 100 demo_topics)) = [''m1'', ''m2''] \<and>
   demo_message ''m1'' \<notin> set (fst (lease_topic_messages ''news'' ''a'' 5 30 129
      (snd (lease_topic_messages ''news'' ''a'' 2 30 100 demo_topics)))) \<and>
   available ''news'' ''a'' 130 (snd (lease_topic_messages ''news'' ''a'' 2 30 100 demo_topics)) (demo_message ''m1'')"
proof -
  obtain rows tp' where r: "lease_topic_messages ''news'' ''a'' 2 30 100 demo_topics = (rows, tp')" by fastforce
  have "map tm_id (fst (lease_topic_messages ''news'' ''a'' 2 30 100 demo_topics)) = [''m1'', ''m2'']" by code_simp
  moreover have "demo_message ''m1'' \<in> set (fst (lease_topic_messages ''news'' ''a'' 2 30 100 demo_topics))" by code_simp
  moreover have "wrapping_add 100 30 = 130" by code_simp
  ultimately show ?thesis using lease_visibility [OF topics_ok_demo _ r] by (auto simp: r)
qed

definition demo_publish :: "string option \<Rightarrow> publish_request" where
  "demo_publish key = \<lparr>pr_topic = ''news'', pr_payload = [], pr_idempotency_key = key, pr_metadata = None,
     pr_notes = None, pr_priority = None, pr_scheduled_at = 5, pr_max_retries = Some 2, pr_timeout_ms = None,
     pr_expires_at = None, pr_result_ttl_ms = None, pr_namespace = None,
     pr_queue_defaults = \<lparr>dd_priority = 0, dd_max_retries = 3, dd_timeout_ms = 1000\<rparr>\<rparr>"

theorem publish_fans_out_witness:
  "store_inv empty_db \<and> fresh_ids (uuid_from ''a'') empty_db \<and>
   map u_name (fan_out ''news'' demo_topics) = [''c''] \<and>
   (case publish_to_topic no_json ''m4'' 5 5 (uuid_from ''a'') (\<lambda>_. 5) (\<lambda>_ d. d) (demo_publish None) (empty_db, demo_topics) of
      (Inr out, d', tp') \<Rightarrow> map r_task_name (jobs d') = [''mail''] \<and> map r_max_retries (jobs d') = [2] \<and>
        length (messages tp') = 4 \<and> length out = length (fan_out ''news'' demo_topics)
    | _ \<Rightarrow> False)"
proof -
  let ?r = "publish_to_topic no_json ''m4'' 5 5 (uuid_from ''a'') (\<lambda>_. 5) (\<lambda>_ d. d) (demo_publish None) (empty_db, demo_topics)"
  have h: "store_inv empty_db" "fresh_ids (uuid_from ''a'') empty_db" "pr_idempotency_key (demo_publish None) = None"
    by (simp_all add: demo_publish_def)
  have fan: "map u_name (fan_out ''news'' demo_topics) = [''c'']" by code_simp
  have run: "case ?r of (Inr out, d', tp') \<Rightarrow> map r_task_name (jobs d') = [''mail''] \<and>
      map r_max_retries (jobs d') = [2] \<and> length (messages tp') = 4 | _ \<Rightarrow> False" by code_simp
  show ?thesis
    using h(1,2) fan run publish_fans_out [OF h, where js = no_json and uid = "''m4''" and now = 5 and now' = 5 and clock = "\<lambda>_. 5"
        and env = "\<lambda>_ d. d" and tp = demo_topics]
    by (auto simp: demo_publish_def split: prod.splits sum.splits)
qed

theorem republish_deduplicates_witness:
  "let p = publish_to_topic no_json ''m4'' 5 5 (uuid_from ''a'') (\<lambda>_. 5) (\<lambda>_ d. d) (demo_publish (Some ''evt'')) (empty_db, demo_topics);
       p' = publish_to_topic no_json ''m5'' 6 6 (uuid_from ''b'') (\<lambda>_. 6) (\<lambda>_ d. d) (demo_publish (Some ''evt'')) (snd p)
   in fst p' = fst p \<and> fst (snd p') = fst (snd p) \<and> length (jobs (fst (snd p))) = 1 \<and>
      length (messages (snd (snd p'))) = 5"
proof -
  let ?p = "publish_to_topic no_json ''m4'' 5 5 (uuid_from ''a'') (\<lambda>_. 5) (\<lambda>_ d. d) (demo_publish (Some ''evt'')) (empty_db, demo_topics)"
  have ok: "\<not> isl (fst ?p)" "length (jobs (fst (snd ?p))) = 1" "''m5'' \<notin> tm_id ` set (messages (snd (snd ?p)))"
    "length (messages (snd (snd ?p))) = 4" "length (log_rows ''m5'' 6 6 (demo_publish (Some ''evt'')) (snd (snd ?p))) = 1"
    by code_simp+
  define d1 tp1 where "d1 = fst (snd ?p)" and "tp1 = snd (snd ?p)"
  obtain out where "fst ?p = Inr out" using ok(1) by (cases "fst ?p") simp_all
  then have p: "?p = (Inr out, d1, tp1)" by (simp add: d1_def tp1_def prod_eq_iff)
  have k: "pr_idempotency_key (demo_publish (Some ''evt'')) \<noteq> None" by (simp add: demo_publish_def)
  have new: "''m5'' \<notin> tm_id ` set (messages tp1)" using ok(3) by (simp add: p)
  show ?thesis
    unfolding Let_def p snd_conv republish_deduplicates [OF k p new, of 6 6 "uuid_from ''b''" "\<lambda>_. 6"]
    using ok(2,4,5) by (simp add: p)
qed

end
