(* ===== verification/Upkeep.thy ===== *)
theory Upkeep
  imports Maintenance Delivery
begin

text \<open>
  The scheduler's sweeps and a publish keep the contract of the store and of the other tables. A
  sweep that creates jobs, one per item, needs one new id per item; \<open>keeps_fold\<close> is that
  argument, shared by the periodic check and the dead-letter retry.
\<close>

section \<open>Sweeps over a list of items\<close>

lemma keeps_fresh:
  "keeps_store new d d' \<Longrightarrow> u \<notin> archived_ids d \<union> live_ids d \<Longrightarrow> u \<notin> new \<Longrightarrow> u \<notin> archived_ids d' \<union> live_ids d'"
  using keeps_archived_ids [of new d d'] by (auto simp: keeps_store_def)

lemma keeps_fold:
  assumes step: "\<And>p s. p \<in> set ps \<Longrightarrow> store_inv (get s) \<Longrightarrow> u p \<notin> archived_ids (get s) \<Longrightarrow>
      keeps_store {u p} (get s) (get (f p s))"
  shows "store_inv (get s) \<Longrightarrow> distinct (map u ps) \<Longrightarrow> (\<forall>p \<in> set ps. u p \<notin> archived_ids (get s) \<union> live_ids (get s)) \<Longrightarrow>
    keeps_store (u ` set ps) (get s) (get (fold f ps s))"
  using step
proof (induction ps arbitrary: s)
  case Nil
  then show ?case by (simp add: keeps_refl)
next
  case (Cons p ps)
  have one: "keeps_store {u p} (get s) (get (f p s))" by (rule Cons.prems(4)) (use Cons.prems in simp_all)
  have "keeps_store (u ` set ps) (get (f p s)) (get (fold f ps (f p s)))"
  proof (rule Cons.IH)
    show "\<forall>q \<in> set ps. u q \<notin> archived_ids (get (f p s)) \<union> live_ids (get (f p s))"
    proof
      fix q assume q: "q \<in> set ps"
      then have "u q \<in> u ` set ps" by (rule imageI)
      then have "u q \<noteq> u p" using Cons.prems(2) by auto
      then show "u q \<notin> archived_ids (get (f p s)) \<union> live_ids (get (f p s))"
        using keeps_fresh [OF one, of "u q"] Cons.prems(3) q by simp
    qed
  qed (use Cons.prems keeps_inv [OF one] in simp_all)
  then have "keeps_store (u ` set (p # ps)) (get (f p s)) (get (fold f (p # ps) s))"
    by (simp add: keeps_mono subset_insertI)
  moreover have "keeps_store (u ` set (p # ps)) (get s) (get (f p s))" by (rule keeps_mono [OF one]) simp
  ultimately show ?case by (rule keeps_trans [rotated])
qed

lemma keeps_fold0:
  assumes "\<And>p s. store_inv (get s) \<Longrightarrow> keeps_store {} (get s) (get (f p s))"
  shows "store_inv (get s) \<Longrightarrow> keeps_store {} (get s) (get (fold f ps s))"
proof (induction ps arbitrary: s)
  case (Cons p ps)
  then show ?case using assms [of s p] keeps_inv keeps_trans by (metis fold_simps(2))
qed (simp add: keeps_refl)

section \<open>Reaping\<close>

lemma keeps_fail_stale: "store_inv (sy_db sy) \<Longrightarrow> keeps sy (snd (fail_stale js hs i sc js' sy))"
proof (induction js' arbitrary: i sy)
  case (Cons job rest)
  have k: "keeps sy (snd (handle_result js (hs i) sc (timeout_failure job) sy))" by (rule keeps_handle_result [OF Cons.prems])
  from Cons.IH [OF keeps_sys_inv [OF k]] keeps_sys_trans [OF k] k show ?case
    by (auto split: prod.splits sum.splits)
qed (simp add: keeps_sys_refl)

lemma keeps_rescue: "store_inv (sy_db sy) \<Longrightarrow> keeps sy (rescue js h sc p sy)"
proof -
  assume inv: "store_inv (sy_db sy)"
  obtain job dead where p: "p = (job, dead)" by fastforce
  obtain r d where r: "reclaim_execution (clk h 10) (j_id job) dead (sc_claim_owner sc) (sy_db sy) = (r, d)" by fastforce
  have k: "keeps_store {} (sy_db sy) d" using keeps_claim_ops(3) [OF inv, of "clk h 10" "j_id job" dead "sc_claim_owner sc"] r by simp
  let ?sy = "track_in_flight sc (j_id job) (j_task_name job) (j_retry_count job) (set_db d sy)"
  have "keeps sy ?sy" using k by (simp add: keeps_def)
  moreover from this have "keeps ?sy (snd (handle_result js h sc (orphan_failure dead job) ?sy))"
    by (intro keeps_handle_result) (rule keeps_sys_inv)
  ultimately have "keeps sy (snd (handle_result js h sc (orphan_failure dead job) ?sy))" by (rule keeps_sys_trans)
  then show ?thesis using k by (auto simp: rescue_def p r keeps_def split: sum.splits bool.splits)
qed

lemma keeps_recover: "store_inv (sy_db sy) \<Longrightarrow> keeps sy (recover_orphaned_jobs js hs now sc ws sy)"
  unfolding recover_orphaned_jobs_def Let_def keeps_def
  by (rule keeps_fold0 [where get = sy_db]) (auto simp: keeps_rescue [unfolded keeps_def] split: prod.splits)

lemma keeps_reap_stale:
  assumes "store_inv (cl_db cl)"
  shows "keeps_store {} (cl_db cl) (cl_db (snd (reap_stale js h hs hr sc cl)))"
proof -
  let ?now = "clk h 0"
  define d1 where "d1 = snd (expire_pending_jobs ?now (cl_db cl))"
  define d2 where "d2 = snd (reap_expired_locks ?now d1)"
  define d3 where "d3 = snd (purge_execution_claims (saturating_sub ?now CLAIM_MAX_AGE_MS) d2)"
  define sy where "sy = set_db d3 (cl_sys cl)"
  have "keeps_store {} (cl_db cl) d1"
    unfolding d1_def expire_pending_jobs_def by (rule keeps_archive_pending_in_batches [OF assms])
  moreover from this have "keeps_store {} d1 d2"
    using keeps_lock_op [OF keeps_inv, of "{}" "cl_db cl" d1 "Reap ?now"] by (simp add: d2_def)
  moreover from this have "keeps_store {} d2 d3" unfolding d3_def by (intro keeps_claim_ops(4)) (rule keeps_inv)
  ultimately have k: "keeps_store {} (cl_db cl) (sy_db sy)" using keeps_trans by (simp add: sy_def)
  obtain r sy' where f: "fail_stale js hs 0 sc (reap_stale_jobs ?now (sc_namespace sc) d3) sy = (r, sy')" by fastforce
  have k1: "keeps sy sy'"
    using keeps_fail_stale [OF keeps_inv [OF k], of js hs 0 sc "reap_stale_jobs ?now (sc_namespace sc) d3"] f by simp
  have k2: "keeps sy' (recover_orphaned_jobs js hr ?now sc (cl_workers cl) sy')"
    by (rule keeps_recover [OF keeps_sys_inv [OF k1]])
  show ?thesis
    using keeps_trans [OF k k1 [unfolded keeps_def]] keeps_trans [OF keeps_trans [OF k k1 [unfolded keeps_def]] k2 [unfolded keeps_def]]
    by (auto simp: reap_stale_def Let_def f [unfolded sy_def d3_def d2_def d1_def cl_db_def] cl_db_def split: sum.split)
qed

section \<open>Retention\<close>

lemma trims_retention_sweeps:
  assumes "store_inv d"
  shows "trims_store d (retention_sweeps h now windows d)"
proof -
  define d1 where "d1 = snd (purge_completed_with_ttl (clk h 3) (cutoff now (archived_jobs_ttl_ms windows)) d)"
  define d2 where "d2 = snd (purge_dead_with_ttl (clk h 4) (cutoff now (dead_letter_ttl_ms windows)) d1)"
  define d3 where "d3 = snd (optional_sweep (cutoff now (job_errors_ttl_ms windows)) purge_job_errors d2)"
  define d4 where "d4 = snd (optional_sweep (cutoff now (task_metrics_ttl_ms windows)) purge_metrics d3)"
  have k1: "trims_store d d1" unfolding d1_def by (rule trims_purges [OF assms])
  have k2: "trims_store d1 d2" unfolding d2_def by (rule trims_purges [OF trims_inv [OF k1]])
  have k3: "trims_store d2 d3" unfolding d3_def by (rule trims_optional_sweep [OF trims_purges(5) trims_inv [OF k2]])
  have k4: "trims_store d3 d4" unfolding d4_def by (rule trims_optional_sweep [OF trims_purges(6) trims_inv [OF k3]])
  have k5: "trims_store d4 (snd (optional_sweep (cutoff now (task_logs_ttl_ms windows)) purge_task_logs d4))"
    by (rule trims_optional_sweep [OF trims_purges(7) trims_inv [OF k4]])
  from trims_trans [OF trims_trans [OF trims_trans [OF trims_trans [OF k1 k2] k3] k4] k5] show ?thesis
    by (simp add: retention_sweeps_def Let_def d1_def d2_def d3_def d4_def)
qed

lemma trims_try_lead:
  "store_inv d \<Longrightarrow> trims_store d (snd (try_lead now now' (\<lambda>d. d) name owner ttl d))"
  by (auto simp: try_lead_def extend_lock_def acquire_lock_def trims_store_def Let_def
      split: sum.split bool.split option.split prod.split)

lemma trims_auto_cleanup:
  assumes "store_inv (cl_db cl)"
  shows "trims_store (cl_db cl) (cl_db (auto_cleanup rc ord (\<lambda>d. d) h cf sc cl))"
proof -
  obtain led d where l: "try_lead (clk h 0) (clk h 1) (\<lambda>d. d) RETENTION_LOCK (sc_claim_owner sc) RETENTION_LOCK_TTL_MS (cl_db cl) = (led, d)"
    by fastforce
  have k: "trims_store (cl_db cl) d"
    using trims_try_lead [OF assms, of "clk h 0" "clk h 1" RETENTION_LOCK "sc_claim_owner sc" RETENTION_LOCK_TTL_MS] l by simp
  from k trims_trans [OF k trims_retention_sweeps [OF trims_inv [OF k]]] show ?thesis
    by (simp add: auto_cleanup_def l [unfolded cl_db_def One_nat_def] Let_def cl_db_def set_cl_db_def)
qed

section \<open>Creating jobs\<close>

lemma keeps_fire_periodic:
  assumes "store_inv (cl_db cl)" "ids h 0 \<notin> archived_ids (cl_db cl)"
  shows "keeps_store {ids h 0} (cl_db cl) (cl_db (fire_periodic js cr sc now h task cl))"
  using keeps_enqueue_unique [of "cl_db cl" "ids h" js "clk h 0" "periodic_job sc now task"] assms
  by (auto simp: fire_periodic_def split: prod.splits sum.splits)

definition new_ids :: "(nat \<Rightarrow> host) \<Rightarrow> string set" where
  "new_ids hs = range (\<lambda>i. ids (hs i) 0)"

text \<open>One new id per item of a sweep.\<close>

definition fresh_hosts :: "(nat \<Rightarrow> host) \<Rightarrow> db \<Rightarrow> bool" where
  "fresh_hosts hs d \<longleftrightarrow> inj (\<lambda>i. ids (hs i) 0) \<and> new_ids hs \<inter> (archived_ids d \<union> live_ids d) = {}"

lemma distinct_host_ids: "inj (\<lambda>i. ids (hs i) 0) \<Longrightarrow> distinct (map (\<lambda>p. ids (hs (fst p)) 0) (enumerate 0 xs))"
proof -
  assume "inj (\<lambda>i. ids (hs i) 0)"
  then have "distinct (map (\<lambda>i. ids (hs i) 0) (map fst (enumerate 0 xs)))"
    by (simp add: distinct_map inj_on_subset [OF _ subset_UNIV])
  then show ?thesis by (simp only: map_map comp_def)
qed

lemma keeps_items:
  assumes "fresh_hosts hs (get s)" "store_inv (get s)"
    "\<And>i x s. store_inv (get s) \<Longrightarrow> ids (hs i) 0 \<notin> archived_ids (get s) \<Longrightarrow>
      keeps_store {ids (hs i) 0} (get s) (get (f (i, x) s))"
  shows "keeps_store (new_ids hs) (get s) (get (fold f (enumerate 0 xs) s))"
proof -
  have "keeps_store ((\<lambda>p. ids (hs (fst p)) 0) ` set (enumerate 0 xs)) (get s) (get (fold f (enumerate 0 xs) s))"
  proof (rule keeps_fold)
    show "distinct (map (\<lambda>p. ids (hs (fst p)) 0) (enumerate 0 xs))"
      using assms(1) by (intro distinct_host_ids) (simp add: fresh_hosts_def)
    show "\<forall>p \<in> set (enumerate 0 xs). ids (hs (fst p)) 0 \<notin> archived_ids (get s) \<union> live_ids (get s)"
      using assms(1) by (auto simp: fresh_hosts_def new_ids_def)
  qed (use assms(2,3) in auto)
  then show ?thesis by (rule keeps_mono) (auto simp: new_ids_def)
qed

lemma keeps_check_periodic:
  assumes "store_inv (cl_db cl)" "fresh_hosts hs (cl_db cl)"
  shows "keeps_store (new_ids hs) (cl_db cl) (cl_db (check_periodic js cr (\<lambda>c. c) sc now hs cl))"
  unfolding check_periodic_def
  by (rule keeps_items [where get = cl_db, OF assms(2,1)]) (simp add: keeps_fire_periodic)

lemma keeps_auto_retry_dlq:
  assumes "store_inv (cl_db cl)" "fresh_hosts hs (cl_db cl)"
  shows "keeps_store (new_ids hs) (cl_db cl) (cl_db (auto_retry_dlq js stale hs cf sc now cl))"
proof (cases "cf_dlq_auto_retry_delay_ms cf")
  case None
  then show ?thesis using assms(1) by (simp add: auto_retry_dlq_def keeps_refl)
next
  case (Some delay)
  obtain queues sy where q: "active_queues stale sc (cl_sys cl) = (queues, sy)" by fastforce
  have db: "sy_db sy = cl_db cl" using sy_db_simps(7) [of stale sc "cl_sys cl"] by (simp add: q cl_db_def)
  let ?f = "\<lambda>(i, entry) sy. if is_shed_reason (d_error entry) then sy
      else set_db (snd (retry_dead js (ids (hs i) 0) (clk (hs i) 0) (clk (hs i) 1) (\<lambda>d. d) (d_id entry) (sc_namespace sc) (sy_db sy))) sy"
  have "keeps_store (new_ids hs) (sy_db sy) (sy_db (fold ?f (enumerate 0 xs) sy))" for xs :: "dead_job list"
  proof (rule keeps_items)
    show "fresh_hosts hs (sy_db sy)" "store_inv (sy_db sy)" using assms by (simp_all add: db)
    fix i and x :: dead_job and s :: system assume "store_inv (sy_db s)" "ids (hs i) 0 \<notin> archived_ids (sy_db s)"
    then show "keeps_store {ids (hs i) 0} (sy_db s) (sy_db (?f (i, x) s))"
      using keeps_retry_dead [of "sy_db s" "ids (hs i) 0"] by (simp add: keeps_refl)
  qed
  then show ?thesis by (simp add: auto_retry_dlq_def Some q Let_def cl_db_def db [unfolded cl_db_def])
qed

lemma keeps_tick_dispatch:
  assumes "store_inv (sy_db sy)"
  shows "keeps sy (snd (tick_dispatch js h hs hc stale now claim_now sc sy))"
  using keeps_try_dispatch [OF assms] keeps_try_dispatch_batch [OF assms]
  by (simp add: tick_dispatch_def case_prod_unfold split: sum.split)

lemma keeps_publish:
  assumes "store_inv d" "\<And>i. us i \<notin> archived_ids d"
  shows "keeps_store (range us) d (fst (snd (publish_to_topic js uid now now' us clock (\<lambda>_ d. d) r (d, tp))))"
proof -
  have b: "keeps_store (range us) d (snd (enqueue_batch js us clock njs d))" for njs
    by (rule keeps_mono [OF keeps_enqueue_batch]) (use assms in auto)
  have "j_status job = Pending \<and> j_id job \<in> range us \<and> j_id job \<notin> archived_ids d"
    if "(job, deps) \<in> set (zip (into_jobs us clock njs) (map n_depends_on njs))" for job deps njs
    using assms(2) that by (auto dest!: set_zip_leftD into_jobs_props(2))
  then have u: "keeps_store (range us) d (snd (enqueue_unique_batch js us clock (\<lambda>_ d. d) njs d))" for njs
    by (auto simp: enqueue_unique_batch_def assms intro!: keeps_enqueue_unique_batch_loop)
  show ?thesis
    using b u keeps_refl [OF assms(1)]
    by (auto simp: publish_to_topic_def Let_def case_prod_unfold split: sum.splits prod.splits option.splits)
qed

section \<open>The other tables\<close>

lemma topics_ok_register: "topics_ok tp \<Longrightarrow> topics_ok (register_subscription s tp)"
  by (auto simp: topics_ok_def register_subscription_def map_key_update_where find_row_None_iff fresh_sub_def
      redeclared_def sub_key_def)

lemma topics_ok_drop: "topics_ok tp \<Longrightarrow> topics_ok (tp\<lparr>subscriptions := delete_where P (subscriptions tp)\<rparr>)"
  by (simp add: topics_ok_def distinct_delete_where)

lemma topics_ok_set_active: "topics_ok tp \<Longrightarrow> topics_ok (snd (set_subscription_active topic name b tp))"
  by (simp add: topics_ok_def set_subscription_active_def map_key_update_where sub_key_def)

lemma topics_ok_declare: "topics_ok tp \<Longrightarrow> topics_ok (snd (declare_topic now name mode ms tp))"
  by (auto simp: topics_ok_def declare_topic_def split: sum.split)

lemma topics_ok_message: "topics_ok tp \<Longrightarrow> topics_ok (snd (publish_message uid now topic p m n e tp))"
  by (auto simp: topics_ok_def publish_message_def Let_def insert_row_def split: option.split)

lemma topics_ok_verdicts:
  "topics_ok tp \<Longrightarrow> topics_ok (snd (ack_message topic name mid tp))"
  "topics_ok tp \<Longrightarrow> topics_ok (snd (nack_message topic name mid tp))"
  by (simp_all add: topics_ok_def ack_message_def nack_message_def map_key_update_where delivery_key_def)

lemma topics_ok_leases: "topics_ok tp \<Longrightarrow> topics_ok (snd (lease_topic_messages topic name limit vis now tp))"
  by (simp add: lease_topic_messages_def Let_def)

lemma topics_ok_compact: "topics_ok tp \<Longrightarrow> topics_ok (snd (purge_topic_messages ord now limit tp))"
  by (simp add: purge_topic_messages_def Let_def topics_ok_purge)

lemma topics_ok_publish:
  "topics_ok tp \<Longrightarrow> topics_ok (snd (snd (publish_to_topic js uid now now' us clock env r (d, tp))))"
  using topics_ok_message [of tp uid now' "pr_topic r" "pr_payload r" "pr_metadata r" "pr_notes r"]
  by (auto simp: publish_to_topic_def Let_def case_prod_unfold split: sum.splits prod.splits option.splits)

lemma settings_ok_delete: "settings_ok rows \<Longrightarrow> settings_ok (snd (delete_setting key rows))"
  by (simp add: settings_ok_def delete_setting_def distinct_delete_where)

lemma settings_ok_set_if: "settings_ok rows \<Longrightarrow> settings_ok (snd (set_setting_if now key e v rows))"
  by (auto simp: settings_ok_def set_setting_if_def map_key_update_where find_row_None_iff split: option.split)

lemma settings_ok_floor: "settings_ok rows \<Longrightarrow> settings_ok (snd (set_min_contract now level rows))"
  by (simp add: set_min_contract_def)

end
