(* ===== verification/Runs.thy ===== *)
theory Runs
  imports Upkeep
begin

text \<open>
  The components together. A cluster is the database with the scheduler's in-process state and the
  tables of workers, topics, periodic tasks and settings (\<open>cluster\<close> of \<open>Maintenance\<close>); a
  step of it is one committed operation of a client, of a worker, of an operator or of a scheduler,
  in any order. \<open>new\<close> is the set of ids the step may give to jobs, and a run gives each id once.
\<close>

section \<open>Steps\<close>

text \<open>The operations on the job tables, \<open>env\<close> being the identity: a step is not interrupted.\<close>

inductive store_step :: "string set \<Rightarrow> db \<Rightarrow> db \<Rightarrow> bool" where
  Enqueue: "store_step {us 0} d (snd (enqueue js us now nj d))"
| Enqueue_Debounced: "store_step {us 0} d (snd (enqueue_debounced js us now nj options d))"
| Enqueue_Unique: "store_step {us 0} d (snd (enqueue_unique js us now (\<lambda>_ d. d) nj d))"
| Enqueue_Batch: "store_step (range us) d (snd (enqueue_batch js us clock njs d))"
| Enqueue_Batch_Dedup: "store_step (range us) d (snd (enqueue_batch_dedup js us clock (\<lambda>_ d. d) njs d))"
| Retry_Dead: "store_step {u} d (snd (retry_dead js u now now' (\<lambda>d. d) dead_id ns d))"
| Dequeue: "store_step {} d (snd (dequeue_from queues now ns orders d))"
| Dequeue_Batch: "store_step {} d (snd (dequeue_batch_from queues now ns n orders d))"
| Complete: "store_step {} d (snd (complete now jid res ns d))"
| Complete_Batch: "store_step {} d (snd (complete_batch us now cs ns d))"
| Fail: "store_step {} d (snd (fail now jid e d))"
| Mark_Cancelled: "store_step {} d (snd (mark_cancelled now jid ns d))"
| Cancel_Job: "store_step {} d (snd (cancel_job now now' jid ns d))"
| Cancel_Queue: "store_step {} d (snd (cancel_pending_by_queue now queue d))"
| Expire: "store_step {} d (snd (expire_pending_jobs now d))"
| Retry: "store_step {} d (snd (retry jid t ns d))"
| Reschedule: "store_step {} d (snd (reschedule jid t d))"
| Requeue: "store_step {} d (snd (requeue_stuck jid now d))"
| Request_Cancel: "store_step {} d (snd (request_cancel jid ns d))"
| Progress: "store_step {} d (snd (update_progress jid p ns d))"
| Record_Error: "store_step {} d (snd (record_error u now jid attempt e ns d))"
| Claim: "store_step {} d (snd (claim_execution now jid w d))"
| Claim_Batch: "store_step {} d (snd (claim_execution_batch now jids w d))"
| Complete_Execution: "store_step {} d (snd (complete_execution jid ns d))"
| Reclaim: "store_step {} d (snd (reclaim_execution now jid dead w d))"
| Purge_Claims: "store_step {} d (snd (purge_execution_claims t d))"
| Lock: "store_step {} d (snd (run_lock_op p d))"
| Move_To_Dlq: "store_step {} d (snd (move_to_dlq js u now now' job e m d))"
| Shed_To_Dlq: "store_step {} d (snd (shed_to_dlq js u now now' job e m d))"
| Delete_Dead: "store_step {} d (snd (delete_dead dead_id ns d))"
| Purge_Dead_By_Task: "store_step {} d (snd (purge_dead_by_task task d))"
| Record_Step: "store_step {} d (snd (record_step_result u now step owner attempt limits ns d))"
| Sleep: "store_step {} d (snd (sleep_job u now step owner attempt wake limits ns d))"
| Delete_Steps: "store_step {} d (snd (delete_job_steps jid ns d))"

inductive purge_step :: "db \<Rightarrow> db \<Rightarrow> bool" where
  Purge_Completed: "purge_step d (snd (purge_completed t d))"
| Purge_Completed_Ttl: "purge_step d (snd (purge_completed_with_ttl now w d))"
| Purge_Dead: "purge_step d (snd (purge_dead t d))"
| Purge_Dead_Ttl: "purge_step d (snd (purge_dead_with_ttl now w d))"
| Purge_Errors: "purge_step d (snd (purge_job_errors t d))"
| Purge_Metrics: "purge_step d (snd (purge_metrics t d))"
| Purge_Logs: "purge_step d (snd (purge_task_logs t d))"

inductive topic_step :: "topic_log \<Rightarrow> topic_log \<Rightarrow> bool" where
  Register: "topic_step tp (register_subscription s tp)"
| Unsubscribe: "topic_step tp (snd (unsubscribe topic name tp))"
| Set_Active: "topic_step tp (snd (set_subscription_active topic name b tp))"
| Reap_Ephemeral: "topic_step tp (snd (reap_ephemeral_subscriptions now live tp))"
| Declare: "topic_step tp (snd (declare_topic now name mode ms tp))"
| Append: "topic_step tp (snd (publish_message uid now topic payload meta notes expires tp))"
| Ack_Cursor: "topic_step tp (snd (ack_topic_cursor topic name c tp))"
| Lease: "topic_step tp (snd (lease_topic_messages topic name limit vis now tp))"
| Ack: "topic_step tp (snd (ack_message topic name mid tp))"
| Nack: "topic_step tp (snd (nack_message topic name mid tp))"
| Compact: "topic_step tp (snd (purge_topic_messages ord now limit tp))"

inductive setting_step :: "settings \<Rightarrow> settings \<Rightarrow> bool" where
  Set: "setting_step rows (set_setting now key v rows)"
| Set_If: "setting_step rows (snd (set_setting_if now key expected v rows))"
| Delete: "setting_step rows (snd (delete_setting key rows))"
| Set_Floor: "setting_step rows (snd (set_min_contract now level rows))"

inductive periodic_step :: "periodic_row list \<Rightarrow> periodic_row list \<Rightarrow> bool" where
  Register_Periodic: "periodic_step rows (register_periodic t rows)"
| Schedule: "periodic_step rows (update_periodic_schedule name now next_run rows)"
| Enable: "periodic_step rows (snd (set_periodic_enabled name b rows))"
| Delete_Periodic: "periodic_step rows (snd (delete_periodic name rows))"

text \<open>
  \<open>In_Process\<close> stands for everything a scheduler does in its own memory: taking jobs off the
  channel, pausing queues, breakers, token buckets. It leaves the database alone.
\<close>

inductive cluster_step :: "string set \<Rightarrow> cluster \<Rightarrow> cluster \<Rightarrow> bool" where
  Store: "store_step new (cl_db cl) d \<Longrightarrow> cluster_step new cl (set_cl_db d cl)"
| Purge: "purge_step (cl_db cl) d \<Longrightarrow> cluster_step {} cl (set_cl_db d cl)"
| In_Process: "sy_db sy = cl_db cl \<Longrightarrow> cluster_step {} cl (cl\<lparr>cl_sys := sy\<rparr>)"
| Dispatch: "cluster_step {} cl (cl\<lparr>cl_sys := snd (tick_dispatch js h hs hc stale now claim_now sc (cl_sys cl))\<rparr>)"
| Result: "cluster_step {} cl (cl\<lparr>cl_sys := snd (handle_result js h sc r (cl_sys cl))\<rparr>)"
| Results: "cluster_step {} cl (cl\<lparr>cl_sys := snd (handle_results js hs h sc rs (cl_sys cl))\<rparr>)"
| Reap_Stale: "cluster_step {} cl (snd (reap_stale js h hs hr sc cl))"
| Periodic: "inj (\<lambda>i. ids (hs i) 0) \<Longrightarrow> cluster_step (new_ids hs) cl (check_periodic js cr (\<lambda>c. c) sc now hs cl)"
| Cleanup: "cluster_step {} cl (auto_cleanup rc ord (\<lambda>d. d) h cf sc cl)"
| Redrive: "inj (\<lambda>i. ids (hs i) 0) \<Longrightarrow> cluster_step (new_ids hs) cl (auto_retry_dlq js stale hs cf sc now cl)"
| Publish: "publish_to_topic js uid now now' us clock (\<lambda>_ d. d) r (cl_db cl, cl_topics cl) = (res, d, tp) \<Longrightarrow>
    cluster_step (range us) cl (set_cl_db d (cl\<lparr>cl_topics := tp\<rparr>))"
| Workers: "cluster_step {} cl (cl\<lparr>cl_workers := ws\<rparr>)"
| Topics: "topic_step (cl_topics cl) tp \<Longrightarrow> cluster_step {} cl (cl\<lparr>cl_topics := tp\<rparr>)"
| Settings: "setting_step (cl_settings cl) rows \<Longrightarrow> cluster_step {} cl (cl\<lparr>cl_settings := rows\<rparr>)"
| Periodic_Registry: "periodic_step (cl_periodic cl) rows \<Longrightarrow> cluster_step {} cl (cl\<lparr>cl_periodic := rows\<rparr>)"

inductive run :: "string set \<Rightarrow> cluster \<Rightarrow> string set \<Rightarrow> cluster \<Rightarrow> bool" where
  Stop: "run seen cl seen cl"
| Step: "run seen cl seen' cl' \<Longrightarrow> cluster_step new cl' cl'' \<Longrightarrow> new \<inter> seen' = {} \<Longrightarrow> run seen cl (seen' \<union> new) cl''"

section \<open>What a step keeps\<close>

lemma store_step_keeps:
  assumes "store_step new d d'" "store_inv d" "new \<inter> archived_ids d = {}"
  shows "keeps_store new d d'"
  using assms
proof (cases rule: store_step.cases)
  case (Enqueue_Batch us js clock njs)
  then show ?thesis using assms(2,3) by (auto intro!: keeps_mono [OF keeps_enqueue_batch])
next
  case (Enqueue_Batch_Dedup us js clock njs)
  then show ?thesis using assms(2,3) by (auto intro!: keeps_mono [OF keeps_enqueue_batch_dedup])
qed (use assms(2,3) in \<open>auto intro: keeps_enqueue keeps_enqueue_debounced keeps_enqueue_unique keeps_retry_dead
    keeps_ops keeps_fail keeps_cancel_job keeps_requeue_stuck keeps_request_cancel keeps_update_progress keeps_lock_op
    keeps_record_step_result keeps_sleep_job keeps_delete_job_steps keeps_archive_pending_in_batches
    simp: cancel_pending_by_queue_def expire_pending_jobs_def\<close>)

lemma purge_step_trims: "purge_step d d' \<Longrightarrow> store_inv d \<Longrightarrow> trims_store d d'"
  by (cases rule: purge_step.cases) (auto intro: trims_purges)

lemma topic_step_ok: "topic_step tp tp' \<Longrightarrow> topics_ok tp \<Longrightarrow> topics_ok tp'"
  by (cases rule: topic_step.cases) (auto intro: topics_ok_register topics_ok_drop topics_ok_set_active topics_ok_declare
      topics_ok_message topics_ok_verdicts topics_ok_leases topics_ok_compact
      simp: unsubscribe_def reap_ephemeral_subscriptions_def Let_def)

lemma setting_step_ok: "setting_step rows rows' \<Longrightarrow> settings_ok rows \<Longrightarrow> settings_ok rows'"
  by (cases rule: setting_step.cases) (auto intro: settings_ok_delete settings_ok_set_if settings_ok_floor)

lemma periodic_step_ok: "periodic_step rows rows' \<Longrightarrow> periodic_ok rows \<Longrightarrow> periodic_ok rows'"
  by (cases rule: periodic_step.cases) (auto intro: periodic_ok_register periodic_ok_delete simp: periodic_ok_enabled)

lemma keeps_first_pass:
  "store_inv (sy_db sy) \<Longrightarrow> keeps sy (snd (snd (first_pass js hs sc i rs sy)))"
proof (induction rs arbitrary: i sy)
  case Nil
  then show ?case by (simp add: keeps_sys_refl)
next
  case (Cons r rs)
  have handled: "keeps sy (snd (snd (first_pass js hs sc (Suc i) rs sy1)))" if "keeps sy sy1" for sy1
    by (rule keeps_sys_trans [OF that Cons.IH [OF keeps_sys_inv [OF that]]])
  have fenced: "keeps sy (snd (authorize_finished sc j sy))" for j by (rule keeps_same_db [OF Cons.prems]) simp
  show ?case
    using handled [OF keeps_handle_result [OF Cons.prems]] handled [OF fenced]
    by (cases r) (simp_all add: Let_def case_prod_unfold split: bool.split)
qed

lemma keeps_finalize_each: "store_inv (sy_db sy) \<Longrightarrow> keeps sy (snd (finalize_each hs sc i cs sy))"
proof (induction cs arbitrary: i sy)
  case (Cons c cs)
  have k: "keeps sy (snd (finalize_success (hs i) sc c sy))" by (rule keeps_finalize_success [OF Cons.prems])
  show ?case using keeps_sys_trans [OF k Cons.IH [OF keeps_sys_inv [OF k]]] by (simp add: Let_def case_prod_unfold)
qed (simp add: keeps_sys_refl)

lemma keeps_handle_results:
  assumes "store_inv (sy_db sy)"
  shows "keeps sy (snd (handle_results js hs hb sc rs sy))"
proof -
  obtain outs cs sy1 where f: "first_pass js hs sc 0 rs sy = (outs, cs, sy1)" by (metis prod_cases3)
  have k: "keeps sy sy1" using keeps_first_pass [OF assms, of js hs sc 0 rs] f by simp
  obtain r d where b: "complete_batch (ids hb) (clk hb 0) cs (sc_namespace sc) (sy_db sy1) = (r, d)" by fastforce
  have d: "keeps sy1 (set_db d sy1)"
    using keeps_complete_batch [OF keeps_sys_inv [OF k], of "ids hb" "clk hb 0" cs "sc_namespace sc"] b by (simp add: keeps_def)
  have e: "keeps sy1 (snd (finalize_each hs sc i cs (set_db d sy1)))" for i
    by (rule keeps_sys_trans [OF d keeps_finalize_each [OF keeps_sys_inv [OF d]]])
  have "keeps sy1 (snd (finish_batch hb hs sc (length rs) cs sy1))"
    using d e keeps_sys_refl [OF keeps_sys_inv [OF k]] by (auto simp: b keeps_def split: sum.split)
  then show ?thesis using keeps_sys_trans [OF k] by (simp add: handle_results_def f case_prod_unfold Let_def del: finish_batch.simps)
qed

text \<open>The tables beside the job tables, and those the sweeps leave alone.\<close>

definition side_tables_ok :: "cluster \<Rightarrow> bool" where
  "side_tables_ok cl \<longleftrightarrow> topics_ok (cl_topics cl) \<and> settings_ok (cl_settings cl) \<and> periodic_ok (cl_periodic cl)"

lemma side_tables_frame:
  "side_tables_ok (cl\<lparr>cl_sys := sy\<rparr>) = side_tables_ok cl" "side_tables_ok (cl\<lparr>cl_workers := ws\<rparr>) = side_tables_ok cl"
  "side_tables_ok (set_cl_db d cl) = side_tables_ok cl"
  "side_tables_ok (cl\<lparr>cl_periodic := update_periodic_schedule name now next_run (cl_periodic cl)\<rparr>) = side_tables_ok cl"
  by (simp_all add: side_tables_ok_def)

lemma side_tables_fire: "side_tables_ok (fire_periodic js cr sc now h task cl) = side_tables_ok cl"
  by (simp add: fire_periodic_def side_tables_frame split: prod.split sum.split)

lemma side_tables_periodic: "side_tables_ok (check_periodic js cr (\<lambda>c. c) sc now hs cl) = side_tables_ok cl"
proof -
  have "side_tables_ok (fold (\<lambda>(i, task). fire_periodic js cr sc now (hs i) task) ps c) = side_tables_ok c" for ps c
    by (induction ps arbitrary: c) (simp_all add: side_tables_fire case_prod_unfold)
  then show ?thesis by (simp add: check_periodic_def)
qed

lemma side_tables_reap: "side_tables_ok (snd (reap_stale js h hs hr sc cl)) = side_tables_ok cl"
  by (simp add: reap_stale_def Let_def side_tables_frame split: prod.split sum.split)

lemma side_tables_redrive: "side_tables_ok (auto_retry_dlq js stale hs cf sc now cl) = side_tables_ok cl"
  by (simp add: auto_retry_dlq_def Let_def case_prod_unfold side_tables_frame split: option.split)

lemma side_tables_cleanup: "side_tables_ok cl \<Longrightarrow> side_tables_ok (auto_cleanup rc ord (\<lambda>d. d) h cf sc cl)"
proof -
  assume ok: "side_tables_ok cl"
  have "settings_ok (snd (publish_retention rc c cf sc w now (cl_settings cl)))" for c w now
    using ok by (auto simp: side_tables_ok_def publish_retention_def publish_effective_retention_def Let_def split: sum.split)
  moreover have "topics_ok (snd (purge_topic_messages ord now n (cl_topics cl)))" for now n
    using ok by (simp add: side_tables_ok_def topics_ok_compact)
  ultimately show ?thesis
    using ok by (simp add: auto_cleanup_def Let_def case_prod_unfold side_tables_ok_def)
qed

lemma cluster_step_side:
  assumes "cluster_step new cl cl'" "side_tables_ok cl"
  shows "side_tables_ok cl'"
  using assms
proof (cases rule: cluster_step.cases)
  case (Publish js uid now now' us clock r res d tp)
  then show ?thesis
    using assms(2) topics_ok_publish [of "cl_topics cl" js uid now now' us clock "\<lambda>_ d. d" r "cl_db cl"]
    by (simp add: side_tables_ok_def)
qed (simp_all add: side_tables_frame side_tables_periodic side_tables_reap side_tables_redrive side_tables_cleanup,
    (simp add: side_tables_ok_def topic_step_ok setting_step_ok periodic_step_ok)+)

lemma cluster_step_store:
  assumes "cluster_step new cl cl'" "store_inv (cl_db cl)" "new \<inter> known_ids (cl_db cl) = {}"
  shows "keeps_store new (cl_db cl) (cl_db cl') \<or> trims_store (cl_db cl) (cl_db cl')"
  using assms(1)
proof (cases rule: cluster_step.cases)
  case (Store d)
  then show ?thesis using store_step_keeps [of new "cl_db cl" d] assms by (auto simp: known_ids_def)
next
  case (Periodic hs js cr sc now)
  then have "fresh_hosts hs (cl_db cl)" using assms(3) by (auto simp: fresh_hosts_def known_ids_def)
  then show ?thesis using keeps_check_periodic [OF assms(2)] Periodic by simp
next
  case (Redrive hs js stale cf sc now)
  then have "fresh_hosts hs (cl_db cl)" using assms(3) by (auto simp: fresh_hosts_def known_ids_def)
  then show ?thesis using keeps_auto_retry_dlq [OF assms(2)] Redrive by simp
next
  case (Publish js uid now now' us clock r res d tp)
  then show ?thesis
    using keeps_publish [of "cl_db cl" us js uid now now' clock r "cl_topics cl"] assms by (auto simp: known_ids_def)
next
  case (Reap_Stale js h hs hr sc)
  then show ?thesis using keeps_reap_stale [OF assms(2)] by simp
next
  case (Cleanup rc ord h cf sc)
  then show ?thesis using trims_auto_cleanup [OF assms(2)] by simp
next
  case (Purge d)
  then show ?thesis using purge_step_trims [OF _ assms(2)] by simp
qed (use assms(2) keeps_tick_dispatch [of "cl_sys cl"] keeps_handle_result [of "cl_sys cl"] keeps_handle_results [of "cl_sys cl"]
    keeps_refl [OF assms(2)]
    in \<open>simp_all add: cl_db_def keeps_def\<close>)

section \<open>The invariant\<close>

definition cluster_ok :: "string set \<Rightarrow> cluster \<Rightarrow> bool" where
  "cluster_ok seen cl \<longleftrightarrow> store_inv (cl_db cl) \<and> known_ids (cl_db cl) \<subseteq> seen \<and> side_tables_ok cl"

lemma keeps_known: "keeps_store new d d' \<Longrightarrow> known_ids d' \<subseteq> known_ids d \<union> new"
  using keeps_archived_ids [of new d d'] by (auto simp: keeps_store_def known_ids_def)

lemma trims_known: "trims_store d d' \<Longrightarrow> known_ids d' \<subseteq> known_ids d"
  by (auto simp: trims_store_def known_ids_def live_ids_def archived_ids_def)

lemma cluster_step_contract:
  assumes "cluster_ok seen cl" "cluster_step new cl cl'" "new \<inter> seen = {}"
  shows "keeps_store new (cl_db cl) (cl_db cl') \<or> trims_store (cl_db cl) (cl_db cl')"
  by (rule cluster_step_store [OF assms(2)]) (use assms(1,3) in \<open>auto simp: cluster_ok_def\<close>)

lemma cluster_step_ok:
  assumes "cluster_ok seen cl" "cluster_step new cl cl'" "new \<inter> seen = {}"
  shows "cluster_ok (seen \<union> new) cl'"
  using cluster_step_contract [OF assms] keeps_known [of new "cl_db cl" "cl_db cl'"] trims_known [of "cl_db cl" "cl_db cl'"]
    cluster_step_side [OF assms(2)] assms(1)
  by (auto simp: cluster_ok_def dest: keeps_inv trims_inv)

lemma run_ok: "run seen cl seen' cl' \<Longrightarrow> cluster_ok seen cl \<Longrightarrow> cluster_ok seen' cl'"
  by (induction rule: run.induct) (auto intro: cluster_step_ok)

lemma run_seen: "run seen cl seen' cl' \<Longrightarrow> seen \<subseteq> seen'"
  by (induction rule: run.induct) auto

lemma run_one: "cluster_step new cl cl' \<Longrightarrow> new \<inter> seen = {} \<Longrightarrow> run seen cl (seen \<union> new) cl'"
  by (rule run.Step [OF run.Stop])

lemma run_trans: "run b cl' c cl'' \<Longrightarrow> run a cl b cl' \<Longrightarrow> run a cl c cl''"
  by (induction rule: run.induct) (auto intro: run.Step)

section \<open>The life of a job\<close>

text \<open>
  The abstract machine: an id is unissued until a step issues it; an issued id is a live job, a job
  that ended with an archived row, or forgotten, which is where a rejected submission and a purged
  row end up.
\<close>

datatype phase = Unissued | Active | Finished archived_row | Forgotten

fun may_become :: "phase \<Rightarrow> phase \<Rightarrow> bool" where
  "may_become Unissued q = True"
| "may_become Active q = (case q of Active \<Rightarrow> True | Finished _ \<Rightarrow> True | _ \<Rightarrow> False)"
| "may_become (Finished a) q = (q = Finished a \<or> q = Forgotten)"
| "may_become Forgotten q = (q = Forgotten)"

definition phase_of :: "string set \<Rightarrow> cluster \<Rightarrow> string \<Rightarrow> phase" where
  "phase_of seen cl i =
     (if i \<in> live_ids (cl_db cl) then Active
      else case find_row a_id i (archived_jobs (cl_db cl)) of
             Some a \<Rightarrow> Finished a
           | None \<Rightarrow> if i \<in> seen then Forgotten else Unissued)"

lemma phase_of_iff:
  assumes "cluster_ok seen cl"
  shows "phase_of seen cl i = Active \<longleftrightarrow> i \<in> live_ids (cl_db cl)"
    "phase_of seen cl i = Finished a \<longleftrightarrow> a \<in> set (archived_jobs (cl_db cl)) \<and> a_id a = i"
    "phase_of seen cl i = Forgotten \<longleftrightarrow> i \<in> seen \<and> i \<notin> known_ids (cl_db cl)"
    "phase_of seen cl i = Unissued \<longleftrightarrow> i \<notin> seen"
proof -
  have inv: "live_ids (cl_db cl) \<inter> archived_ids (cl_db cl) = {}" "distinct (map a_id (archived_jobs (cl_db cl)))"
    "known_ids (cl_db cl) \<subseteq> seen"
    using assms by (auto simp: cluster_ok_def store_inv_def archive_ok_def)
  have f: "find_row a_id i (archived_jobs (cl_db cl)) = Some a \<longleftrightarrow> a \<in> set (archived_jobs (cl_db cl)) \<and> a_id a = i" for a
    by (rule find_row_Some_iff [OF inv(2)])
  have n: "find_row a_id i (archived_jobs (cl_db cl)) = None \<longleftrightarrow> i \<notin> archived_ids (cl_db cl)"
    by (auto simp: find_row_None_iff archived_ids_def)
  show "phase_of seen cl i = Active \<longleftrightarrow> i \<in> live_ids (cl_db cl)" by (simp add: phase_of_def split: option.split)
  show "phase_of seen cl i = Finished a \<longleftrightarrow> a \<in> set (archived_jobs (cl_db cl)) \<and> a_id a = i"
  proof -
    have "phase_of seen cl i = Finished a \<longleftrightarrow> i \<notin> live_ids (cl_db cl) \<and> find_row a_id i (archived_jobs (cl_db cl)) = Some a"
      by (simp add: phase_of_def split: option.split)
    then show ?thesis using inv(1) f by (auto simp: archived_ids_def)
  qed
  show "phase_of seen cl i = Forgotten \<longleftrightarrow> i \<in> seen \<and> i \<notin> known_ids (cl_db cl)"
    using n by (auto simp: phase_of_def known_ids_def split: option.split)
  show "phase_of seen cl i = Unissued \<longleftrightarrow> i \<notin> seen"
    using inv(3) n by (auto simp: phase_of_def known_ids_def split: option.split)
qed

lemma step_phases:
  assumes "cluster_ok seen cl" "cluster_step new cl cl'" "new \<inter> seen = {}"
  shows "may_become (phase_of seen cl i) (phase_of (seen \<union> new) cl' i)"
proof -
  let ?d = "cl_db cl" and ?d' = "cl_db cl'"
  note old = phase_of_iff [OF assms(1)] and ok' = cluster_step_ok [OF assms]
  note cur = phase_of_iff [OF ok']
  have contract: "keeps_store new ?d ?d' \<or> trims_store ?d ?d'" by (rule cluster_step_contract [OF assms])
  have known: "known_ids ?d \<subseteq> seen" and disj: "live_ids ?d \<inter> archived_ids ?d = {}"
    using assms(1) by (simp_all add: cluster_ok_def store_inv_def)
  show ?thesis
  proof (cases "phase_of seen cl i")
    case Active
    then have "i \<in> live_ids ?d" by (simp add: old)
    then have "i \<in> known_ids ?d'" "i \<in> seen"
      using contract known by (auto simp: keeps_store_def trims_store_def known_ids_def live_ids_def)
    then have "phase_of (seen \<union> new) cl' i \<noteq> Forgotten" "phase_of (seen \<union> new) cl' i \<noteq> Unissued" by (simp_all add: cur)
    then show ?thesis by (simp add: Active split: phase.split)
  next
    case (Finished a)
    then have a: "a \<in> set (archived_jobs ?d)" "a_id a = i" by (simp_all add: old)
    then have i: "i \<in> archived_ids ?d" "i \<in> seen" "i \<notin> new" "i \<notin> live_ids ?d"
      using known disj assms(3) by (auto simp: archived_ids_def known_ids_def)
    have "i \<notin> live_ids ?d'"
      using contract i by (auto simp: keeps_store_def trims_store_def live_ids_def)
    moreover have "b = a" if "b \<in> set (archived_jobs ?d')" "a_id b = i" for b
    proof -
      have "b \<in> set (archived_jobs ?d)"
        using contract i that by (auto simp: keeps_store_def trims_store_def)
      moreover have "distinct (map a_id (archived_jobs ?d))" using assms(1) by (simp add: cluster_ok_def store_inv_def archive_ok_def)
      ultimately show ?thesis using a that(2) by (simp add: inj_on_def distinct_map)
    qed
    ultimately show ?thesis
      using i(2) cur(1,4) [of i] cur(2) [of i] by (cases "phase_of (seen \<union> new) cl' i") (auto simp: Finished)
  next
    case Forgotten
    then have "i \<in> seen" "i \<notin> known_ids ?d" by (simp_all add: old)
    then have "i \<in> seen \<union> new" "i \<notin> known_ids ?d'"
      using contract assms(3) keeps_known [of new ?d ?d'] trims_known [of ?d ?d'] by auto
    then show ?thesis by (simp add: Forgotten cur)
  qed simp
qed

lemma run_phases:
  assumes "run seen cl seen' cl'" "cluster_ok seen cl"
  shows "may_become\<^sup>*\<^sup>* (phase_of seen cl i) (phase_of seen' cl' i)"
  using assms
proof (induction rule: run.induct)
  case (Step seen cl seen' cl' new cl'')
  then show ?case
    using step_phases [OF run_ok [OF Step.hyps(1) Step.prems] Step.hyps(2,3), of i] by (auto intro: rtranclp.rtrancl_into_rtrancl)
qed simp

lemma final_phases: "may_become\<^sup>*\<^sup>* (Finished a) q \<Longrightarrow> q = Finished a \<or> q = Forgotten"
  by (induction rule: rtranclp_induct) auto

section \<open>A tick is a run\<close>

text \<open>The ids a tick may give to new jobs: those of the periodic firings and of the retried dead letters.\<close>

definition tick_ids :: "tick_host \<Rightarrow> string set" where
  "tick_ids t = new_ids (th_periodic_each t) \<union> new_ids (th_dlq_each t)"

definition fresh_tick :: "tick_host \<Rightarrow> string set \<Rightarrow> bool" where
  "fresh_tick t seen \<longleftrightarrow> inj (\<lambda>i. ids (th_periodic_each t i) 0) \<and> inj (\<lambda>i. ids (th_dlq_each t i) 0) \<and>
     new_ids (th_periodic_each t) \<inter> new_ids (th_dlq_each t) = {} \<and> tick_ids t \<inter> seen = {}"

text \<open>A step that a condition may skip.\<close>

lemma run_if_none:
  assumes "run a cl0 b cl" "cluster_step {} cl cl'"
  shows "run a cl0 b (if P then cl' else cl)"
  using run.Step [OF assms] assms(1) by simp

lemma run_if:
  assumes "run a cl0 b cl" "cluster_step new cl cl'" "new \<inter> b = {}"
  shows "\<exists>c. b \<subseteq> c \<and> c \<subseteq> b \<union> new \<and> run a cl0 c (if P then cl' else cl)"
proof (cases P)
  case True
  with run.Step [OF assms] show ?thesis by (intro exI [of _ "b \<union> new"]) simp
next
  case False
  with assms(1) show ?thesis by (intro exI [of _ b]) simp
qed

lemma maintenance_is_a_run:
  assumes "fresh_tick t seen"
  shows "\<exists>seen'. seen' \<subseteq> seen \<union> tick_ids t \<and> run seen cl seen' (snd (snd (tick_maintenance js cr rc ord t cf sc (k, cl))))"
proof -
  define cl1 where "cl1 = (if cf_reap_interval cf dvd bump (tk_reap k)
    then snd (reap_stale js (th_reap t) (th_reap_each t) (th_rescue_each t) sc cl) else cl)"
  define cl2 where "cl2 = (if cf_periodic_check_interval cf dvd bump (tk_periodic k)
    then check_periodic js cr (\<lambda>c. c) sc (th_periodic_now t) (th_periodic_each t) cl1 else cl1)"
  define cl3 where "cl3 = (if cf_cleanup_interval cf dvd bump (tk_cleanup k)
    then auto_cleanup rc ord (\<lambda>d. d) (th_cleanup t) cf sc cl2 else cl2)"
  define cl4 where "cl4 = (if cf_dlq_auto_retry_interval cf dvd bump (tk_dlq_auto_retry k)
    then auto_retry_dlq js (th_stale t) (th_dlq_each t) cf sc (th_dlq_now t) cl3 else cl3)"
  have fr: "inj (\<lambda>i. ids (th_periodic_each t i) 0)" "inj (\<lambda>i. ids (th_dlq_each t i) 0)"
    "new_ids (th_periodic_each t) \<inter> new_ids (th_dlq_each t) = {}" "new_ids (th_periodic_each t) \<inter> seen = {}"
    "new_ids (th_dlq_each t) \<inter> seen = {}"
    using assms by (auto simp: fresh_tick_def tick_ids_def)
  have r1: "run seen cl seen cl1"
    unfolding cl1_def by (rule run_if_none [OF run.Stop cluster_step.Reap_Stale])
  obtain s2 where s2: "s2 \<subseteq> seen \<union> new_ids (th_periodic_each t)" and r2: "run seen cl s2 cl2"
    using run_if [OF r1 cluster_step.Periodic [OF fr(1)] fr(4), where P = "cf_periodic_check_interval cf dvd bump (tk_periodic k)"]
    unfolding cl2_def by metis
  have r3: "run seen cl s2 cl3"
    unfolding cl3_def by (rule run_if_none [OF r2 cluster_step.Cleanup])
  have "new_ids (th_dlq_each t) \<inter> s2 = {}" using fr(3,5) s2 by blast
  then obtain s4 where s4: "s4 \<subseteq> s2 \<union> new_ids (th_dlq_each t)" and r4: "run seen cl s4 cl4"
    using run_if [OF r3 cluster_step.Redrive [OF fr(2)], where P = "cf_dlq_auto_retry_interval cf dvd bump (tk_dlq_auto_retry k)"]
    unfolding cl4_def by metis
  have "snd (snd (tick_maintenance js cr rc ord t cf sc (k, cl))) = cl4"
    by (simp add: tick_maintenance_def Let_def cl1_def cl2_def cl3_def cl4_def cong: if_cong split del: if_split)
  then show ?thesis using r4 s4 s2 unfolding tick_ids_def by (intro exI [of _ s4]) auto
qed

end
