(* ===== verification/Workflows.thy ===== *)
theory Workflows
  imports Dead_Letter Shedding Breaker "HOL-Library.Sublist"
begin

text \<open>
  The crate \<open>flexiq-workflows\<close>: the states of runs and nodes (\<open>state.rs\<close>, \<open>node.rs\<close>), the
  graph functions (\<open>topology.rs\<close>, \<open>common.rs\<close>) and the SQLite store (\<open>diesel_common.rs\<close>).
  A store is three tables; \<open>ns\<close> is the namespace the store is scoped to. The graph crate
  \<open>dagron_core\<close> and the JSON documents are parameters.
\<close>

section \<open>States of runs and nodes\<close>

datatype workflow_state = WPending | WRunning | WPaused | WCompleted | WCompletedWithFailures | WFailed | WCancelled
  | WCompensating | WCompensated | WCompensationFailed

fun state_str :: "workflow_state \<Rightarrow> string" where
  "state_str WPending = ''pending''"
| "state_str WRunning = ''running''"
| "state_str WPaused = ''paused''"
| "state_str WCompleted = ''completed''"
| "state_str WCompletedWithFailures = ''completed_with_failures''"
| "state_str WFailed = ''failed''"
| "state_str WCancelled = ''cancelled''"
| "state_str WCompensating = ''compensating''"
| "state_str WCompensated = ''compensated''"
| "state_str WCompensationFailed = ''compensation_failed''"

definition state_from_str_val :: "string \<Rightarrow> workflow_state option" where
  "state_from_str_val s =
     (if s = ''pending'' then Some WPending
      else if s = ''running'' then Some WRunning
      else if s = ''paused'' then Some WPaused
      else if s = ''completed'' then Some WCompleted
      else if s = ''completed_with_failures'' then Some WCompletedWithFailures
      else if s = ''failed'' then Some WFailed
      else if s = ''cancelled'' then Some WCancelled
      else if s = ''compensating'' then Some WCompensating
      else if s = ''compensated'' then Some WCompensated
      else if s = ''compensation_failed'' then Some WCompensationFailed
      else None)"

definition state_is_terminal :: "workflow_state \<Rightarrow> bool" where
  "state_is_terminal s \<longleftrightarrow>
     s \<in> {WCompleted, WCompletedWithFailures, WFailed, WCancelled, WCompensated, WCompensationFailed}"

fun can_transition_to :: "workflow_state \<Rightarrow> workflow_state \<Rightarrow> bool" where
  "can_transition_to WPending WRunning = True"
| "can_transition_to WRunning WCompleted = True"
| "can_transition_to WRunning WCompletedWithFailures = True"
| "can_transition_to WRunning WFailed = True"
| "can_transition_to WRunning WCancelled = True"
| "can_transition_to WRunning WPaused = True"
| "can_transition_to WRunning WCompensating = True"
| "can_transition_to WPaused WRunning = True"
| "can_transition_to WPaused WCancelled = True"
| "can_transition_to WCompletedWithFailures WCompensating = True"
| "can_transition_to WCompleted WCompensating = True"
| "can_transition_to WFailed WCompensating = True"
| "can_transition_to WCompensating WCompensated = True"
| "can_transition_to WCompensating WCompensationFailed = True"
| "can_transition_to _ _ = False"

datatype node_status = NPending | NReady | NRunning | NCompleted | NFailed | NSkipped | NWaitingApproval | NCacheHit
  | NCompensating | NCompensated | NCompensationFailed

fun node_status_str :: "node_status \<Rightarrow> string" where
  "node_status_str NPending = ''pending''"
| "node_status_str NReady = ''ready''"
| "node_status_str NRunning = ''running''"
| "node_status_str NCompleted = ''completed''"
| "node_status_str NFailed = ''failed''"
| "node_status_str NSkipped = ''skipped''"
| "node_status_str NWaitingApproval = ''waiting_approval''"
| "node_status_str NCacheHit = ''cache_hit''"
| "node_status_str NCompensating = ''compensating''"
| "node_status_str NCompensated = ''compensated''"
| "node_status_str NCompensationFailed = ''compensation_failed''"

definition node_from_str_val :: "string \<Rightarrow> node_status option" where
  "node_from_str_val s =
     (if s = ''pending'' then Some NPending
      else if s = ''ready'' then Some NReady
      else if s = ''running'' then Some NRunning
      else if s = ''completed'' then Some NCompleted
      else if s = ''failed'' then Some NFailed
      else if s = ''skipped'' then Some NSkipped
      else if s = ''waiting_approval'' then Some NWaitingApproval
      else if s = ''cache_hit'' then Some NCacheHit
      else if s = ''compensating'' then Some NCompensating
      else if s = ''compensated'' then Some NCompensated
      else if s = ''compensation_failed'' then Some NCompensationFailed
      else None)"

definition node_is_terminal :: "node_status \<Rightarrow> bool" where
  "node_is_terminal s \<longleftrightarrow> s \<in> {NCompleted, NFailed, NSkipped, NCacheHit, NCompensated, NCompensationFailed}"

definition is_compensable :: "node_status \<Rightarrow> bool" where
  "is_compensable s \<longleftrightarrow> s \<in> {NCompleted, NCacheHit}"

section \<open>Rows and records\<close>

record definition_row =
  wd_id :: string
  wd_name :: string
  wd_version :: int
  wd_dag_data :: bytes
  wd_step_metadata :: string
  wd_created_at :: int

record 'm workflow_definition =
  df_id :: string
  df_name :: string
  df_version :: int
  df_dag_data :: bytes
  df_step_metadata :: 'm
  df_created_at :: int

text \<open>The run columns and, last, the namespace, which only the queries read.\<close>

record run_row =
  rr_id :: string
  rr_definition_id :: string
  rr_params :: "string option"
  rr_state :: string
  rr_started_at :: "int option"
  rr_completed_at :: "int option"
  rr_error :: "string option"
  rr_parent_run_id :: "string option"
  rr_parent_node_name :: "string option"
  rr_created_at :: int
  rr_namespace :: "string option"

record workflow_run =
  wf_id :: string
  wf_definition_id :: string
  wf_params :: "string option"
  wf_state :: workflow_state
  wf_started_at :: "int option"
  wf_completed_at :: "int option"
  wf_error :: "string option"
  wf_parent_run_id :: "string option"
  wf_parent_node_name :: "string option"
  wf_created_at :: int

record 'st node_data =
  nd_id :: string
  nd_run_id :: string
  nd_node_name :: string
  nd_job_id :: "string option"
  nd_status :: 'st
  nd_result_hash :: "string option"
  nd_fan_out_count :: "int option"
  nd_fan_in_data :: "string option"
  nd_started_at :: "int option"
  nd_completed_at :: "int option"
  nd_error :: "string option"
  nd_compensation_job_id :: "string option"
  nd_compensation_started_at :: "int option"
  nd_compensation_completed_at :: "int option"
  nd_compensation_error :: "string option"

text \<open>A row holds the status string, a node the status.\<close>

type_synonym node_row = "string node_data"
type_synonym workflow_node = "node_status node_data"

record workflow_store =
  wf_definitions :: "definition_row list"
  wf_runs :: "run_row list"
  wf_nodes :: "node_row list"

definition node_key :: "'st node_data \<Rightarrow> string \<times> string" where
  "node_key n = (nd_run_id n, nd_node_name n)"

text \<open>The step metadata of a definition is a JSON document of its own.\<close>

record 'm meta_lib =
  meta_from_str :: "string \<Rightarrow> string + 'm"
  meta_to_string :: "'m \<Rightarrow> string + string"

definition definition_from_row :: "'m meta_lib \<Rightarrow> definition_row \<Rightarrow> 'm workflow_definition result" where
  "definition_from_row ml row =
     (case meta_from_str ml (wd_step_metadata row) of
        Inl e \<Rightarrow> Inl (Serialization (''failed to deserialize step_metadata: '' @ e))
      | Inr m \<Rightarrow> Inr \<lparr>df_id = wd_id row, df_name = wd_name row, df_version = wd_version row,
          df_dag_data = wd_dag_data row, df_step_metadata = m, df_created_at = wd_created_at row\<rparr>)"

definition run_from_row :: "run_row \<Rightarrow> workflow_run" where
  "run_from_row row =
     \<lparr>wf_id = rr_id row, wf_definition_id = rr_definition_id row, wf_params = rr_params row,
      wf_state = unwrap_or (state_from_str_val (rr_state row)) WPending, wf_started_at = rr_started_at row,
      wf_completed_at = rr_completed_at row, wf_error = rr_error row, wf_parent_run_id = rr_parent_run_id row,
      wf_parent_node_name = rr_parent_node_name row, wf_created_at = rr_created_at row\<rparr>"

definition with_status :: "'t \<Rightarrow> 'st node_data \<Rightarrow> 't node_data" where
  "with_status s n =
     \<lparr>nd_id = nd_id n, nd_run_id = nd_run_id n, nd_node_name = nd_node_name n, nd_job_id = nd_job_id n, nd_status = s,
      nd_result_hash = nd_result_hash n, nd_fan_out_count = nd_fan_out_count n, nd_fan_in_data = nd_fan_in_data n,
      nd_started_at = nd_started_at n, nd_completed_at = nd_completed_at n, nd_error = nd_error n,
      nd_compensation_job_id = nd_compensation_job_id n, nd_compensation_started_at = nd_compensation_started_at n,
      nd_compensation_completed_at = nd_compensation_completed_at n, nd_compensation_error = nd_compensation_error n\<rparr>"

definition node_from_row :: "node_row \<Rightarrow> workflow_node" where
  "node_from_row row = with_status (unwrap_or (node_from_str_val (nd_status row)) NPending) row"

section \<open>Graphs\<close>

text \<open>What the code reads of a parsed graph: the names of its nodes and the ends of its edges.\<close>

record graph =
  g_nodes :: "string list"
  g_edges :: "(string \<times> string) list"

text \<open>
  The graph crate and its JSON: parsing, building the graph (which may be refused) and sorting it.
  \<open>utf8_error\<close> is only the text of the decoding error.
\<close>

record dag_lib =
  utf8_error :: "bytes \<Rightarrow> string"
  graph_from_str :: "string \<Rightarrow> string + graph"
  build_error :: "graph \<Rightarrow> string option"
  topological_sort :: "graph \<Rightarrow> string + string list"

definition push_predecessor :: "string \<times> string \<Rightarrow> (string \<rightharpoonup> string list) \<Rightarrow> (string \<rightharpoonup> string list)" where
  "push_predecessor e m = m(snd e \<mapsto> unwrap_or (m (snd e)) [] @ [fst e])"

definition predecessor_map :: "graph \<Rightarrow> (string \<rightharpoonup> string list)" where
  "predecessor_map g = fold push_predecessor (g_edges g)
     (fold (\<lambda>n m. m(n \<mapsto> unwrap_or (m n) [])) (g_nodes g) Map.empty)"

record topological_node =
  tn_name :: string
  tn_predecessors :: "string list"

text \<open>\<open>remove\<close> takes the entry out of the map, so a second node of the name gets an empty list.\<close>

fun with_predecessors :: "(string \<rightharpoonup> string list) \<Rightarrow> string list \<Rightarrow> topological_node list" where
  "with_predecessors m [] = []"
| "with_predecessors m (n # ns) =
     \<lparr>tn_name = n, tn_predecessors = unwrap_or (m n) []\<rparr> # with_predecessors (m(n := None)) ns"

text \<open>\<open>std::str::from_utf8\<close>: the well-formed byte sequences of the Unicode standard.\<close>

definition cont_byte :: "8 word \<Rightarrow> bool" where
  "cont_byte b \<longleftrightarrow> 0x80 \<le> b \<and> b \<le> 0xBF"

definition second_byte :: "8 word \<Rightarrow> 8 word \<Rightarrow> bool" where
  "second_byte b c \<longleftrightarrow>
     (if b = 0xE0 then 0xA0 \<le> c \<and> c \<le> 0xBF
      else if b = 0xED then 0x80 \<le> c \<and> c \<le> 0x9F
      else if b = 0xF0 then 0x90 \<le> c \<and> c \<le> 0xBF
      else if b = 0xF4 then 0x80 \<le> c \<and> c \<le> 0x8F
      else cont_byte c)"

fun valid_utf8 :: "bytes \<Rightarrow> bool" where
  "valid_utf8 [] = True"
| "valid_utf8 (b # bs) =
     (if b < 0x80 then valid_utf8 bs
      else if 0xC2 \<le> b \<and> b \<le> 0xDF then (case bs of c1 # r \<Rightarrow> second_byte b c1 \<and> valid_utf8 r | _ \<Rightarrow> False)
      else if 0xE0 \<le> b \<and> b \<le> 0xEF then
        (case bs of c1 # c2 # r \<Rightarrow> second_byte b c1 \<and> cont_byte c2 \<and> valid_utf8 r | _ \<Rightarrow> False)
      else if 0xF0 \<le> b \<and> b \<le> 0xF4 then
        (case bs of c1 # c2 # c3 # r \<Rightarrow> second_byte b c1 \<and> cont_byte c2 \<and> cont_byte c3 \<and> valid_utf8 r | _ \<Rightarrow> False)
      else False)"

definition from_utf8 :: "bytes \<Rightarrow> string option" where
  "from_utf8 bs = (if valid_utf8 bs then Some (map (\<lambda>b. char_of (unat b)) bs) else None)"

definition topological_order :: "dag_lib \<Rightarrow> bytes \<Rightarrow> topological_node list result" where
  "topological_order dl dag_bytes =
     (case from_utf8 dag_bytes of
        None \<Rightarrow> Inl (Serialization (''workflow DAG is not valid UTF-8: '' @ utf8_error dl dag_bytes))
      | Some dag_json \<Rightarrow>
          (case graph_from_str dl dag_json of
             Inl e \<Rightarrow> Inl (Serialization (''failed to deserialize workflow DAG: '' @ e))
           | Inr g \<Rightarrow>
               (case build_error dl g of
                  Some e \<Rightarrow> Inl (Serialization (''failed to build DAG: '' @ e))
                | None \<Rightarrow>
                    (case topological_sort dl g of
                       Inl e \<Rightarrow> Inl (Serialization (''topological sort failed: '' @ e))
                     | Inr sorted_names \<Rightarrow> Inr (with_predecessors (predecessor_map g) sorted_names)))))"

text \<open>Collecting into a map keeps the last entry of a name.\<close>

definition status_map :: "workflow_node list \<Rightarrow> (string \<rightharpoonup> node_status)" where
  "status_map ns = map_of (rev (map (\<lambda>n. (nd_node_name n, nd_status n)) ns))"

definition is_ready :: "graph \<Rightarrow> workflow_node list \<Rightarrow> workflow_node \<Rightarrow> bool" where
  "is_ready g all_nodes node \<longleftrightarrow>
     nd_status node = NPending \<and>
     (case predecessor_map g (nd_node_name node) of
        None \<Rightarrow> True
      | Some preds \<Rightarrow> list_all (\<lambda>p. status_map all_nodes p = Some NCompleted) preds)"

definition compute_ready_nodes :: "dag_lib \<Rightarrow> workflow_node list \<Rightarrow> string \<Rightarrow> workflow_node list result" where
  "compute_ready_nodes dl all_nodes dag_json =
     (case graph_from_str dl dag_json of
        Inl e \<Rightarrow> Inl (Serialization (''failed to deserialize workflow DAG: '' @ e))
      | Inr g \<Rightarrow> Inr (filter (is_ready g all_nodes) all_nodes))"

section \<open>The store\<close>

definition run_out_of_scope :: "string option \<Rightarrow> string \<Rightarrow> workflow_store \<Rightarrow> bool" where
  "run_out_of_scope ns run_id st =
     (case ns of
        None \<Rightarrow> False
      | Some n \<Rightarrow> count_where (\<lambda>r. rr_id r = run_id \<and> rr_namespace r = Some n) (wf_runs st) = 0)"

definition run_not_found :: "string \<Rightarrow> queue_error" where
  "run_not_found run_id = Other (''workflow run not found: '' @ run_id)"

definition node_not_found :: "string \<Rightarrow> string \<Rightarrow> queue_error" where
  "node_not_found run_id node_name = Other (''node '' @ [CHR 0x27] @ node_name @ [CHR 0x27] @ '' not found in workflow run '' @ run_id)"

definition require_touched :: "nat \<Rightarrow> string \<Rightarrow> string \<Rightarrow> unit result" where
  "require_touched affected run_id node_name = (if affected = 0 then Inl (node_not_found run_id node_name) else Inr ())"

subsection \<open>Definitions\<close>

definition create_workflow_definition ::
    "'m meta_lib \<Rightarrow> 'm workflow_definition \<Rightarrow> workflow_store \<Rightarrow> unit result \<times> workflow_store" where
  "create_workflow_definition ml def st =
     (case meta_to_string ml (df_step_metadata def) of
        Inl e \<Rightarrow> (Inl (Serialization (''failed to serialize step_metadata: '' @ e)), st)
      | Inr meta_json \<Rightarrow>
          if list_ex (\<lambda>r. wd_id r = df_id def \<or> wd_name r = df_name def \<and> wd_version r = df_version def) (wf_definitions st)
          then (Inl (Storage UniqueViolation), st)
          else (Inr (), st\<lparr>wf_definitions := wf_definitions st @
            [\<lparr>wd_id = df_id def, wd_name = df_name def, wd_version = df_version def, wd_dag_data = df_dag_data def,
              wd_step_metadata = meta_json, wd_created_at = df_created_at def\<rparr>]\<rparr>))"

definition first_definition :: "'m meta_lib \<Rightarrow> definition_row list \<Rightarrow> 'm workflow_definition option result" where
  "first_definition ml rows =
     (case rows of [] \<Rightarrow> Inr None | r # _ \<Rightarrow> and_then (definition_from_row ml r) (\<lambda>d. Inr (Some d)))"

definition get_workflow_definition ::
    "'m meta_lib \<Rightarrow> string \<Rightarrow> int option \<Rightarrow> workflow_store \<Rightarrow> 'm workflow_definition option result" where
  "get_workflow_definition ml name version st =
     first_definition ml (case version of
        Some v \<Rightarrow> filter (\<lambda>r. wd_name r = name \<and> wd_version r = v) (wf_definitions st)
      | None \<Rightarrow> sql_limit 1 (order_by (\<lambda>r r'. wd_version r' \<le> wd_version r) (filter (\<lambda>r. wd_name r = name) (wf_definitions st))))"

definition get_workflow_definition_by_id ::
    "'m meta_lib \<Rightarrow> string \<Rightarrow> workflow_store \<Rightarrow> 'm workflow_definition option result" where
  "get_workflow_definition_by_id ml did st = first_definition ml (filter (\<lambda>r. wd_id r = did) (wf_definitions st))"

subsection \<open>Runs\<close>

definition row_of_run :: "string option \<Rightarrow> workflow_run \<Rightarrow> run_row" where
  "row_of_run ns run =
     \<lparr>rr_id = wf_id run, rr_definition_id = wf_definition_id run, rr_params = wf_params run,
      rr_state = state_str (wf_state run), rr_started_at = wf_started_at run, rr_completed_at = wf_completed_at run,
      rr_error = wf_error run, rr_parent_run_id = wf_parent_run_id run, rr_parent_node_name = wf_parent_node_name run,
      rr_created_at = wf_created_at run, rr_namespace = ns\<rparr>"

definition create_workflow_run :: "string option \<Rightarrow> workflow_run \<Rightarrow> workflow_store \<Rightarrow> unit result \<times> workflow_store" where
  "create_workflow_run ns run st =
     (case wf_parent_run_id run of
        Some parent \<Rightarrow>
          if run_out_of_scope ns parent st then (Inl (Other (''parent workflow run not found: '' @ parent)), st)
          else (case insert_row rr_id (row_of_run ns run) (wf_runs st) of
                  None \<Rightarrow> (Inl (Storage UniqueViolation), st) | Some rows \<Rightarrow> (Inr (), st\<lparr>wf_runs := rows\<rparr>))
      | None \<Rightarrow>
          (case insert_row rr_id (row_of_run ns run) (wf_runs st) of
             None \<Rightarrow> (Inl (Storage UniqueViolation), st) | Some rows \<Rightarrow> (Inr (), st\<lparr>wf_runs := rows\<rparr>)))"

definition run_in_ns :: "string option \<Rightarrow> run_row \<Rightarrow> bool" where
  "run_in_ns ns r = in_ns ns (rr_namespace r)"

definition get_workflow_run :: "string option \<Rightarrow> string \<Rightarrow> workflow_store \<Rightarrow> workflow_run option" where
  "get_workflow_run ns run_id st =
     map_option run_from_row (find (\<lambda>r. rr_id r = run_id \<and> run_in_ns ns r) (wf_runs st))"

definition set_run :: "string option \<Rightarrow> string \<Rightarrow> (run_row \<Rightarrow> run_row) \<Rightarrow> workflow_store \<Rightarrow> workflow_store" where
  "set_run ns run_id f st = st\<lparr>wf_runs := update_where (\<lambda>r. rr_id r = run_id \<and> run_in_ns ns r) f (wf_runs st)\<rparr>"

definition update_workflow_run_state ::
    "string option \<Rightarrow> string \<Rightarrow> workflow_state \<Rightarrow> string option \<Rightarrow> workflow_store \<Rightarrow> workflow_store" where
  "update_workflow_run_state ns run_id state error = set_run ns run_id (\<lambda>r. r\<lparr>rr_state := state_str state, rr_error := error\<rparr>)"

definition set_workflow_run_started :: "string option \<Rightarrow> string \<Rightarrow> int \<Rightarrow> workflow_store \<Rightarrow> workflow_store" where
  "set_workflow_run_started ns run_id started_at =
     set_run ns run_id (\<lambda>r. r\<lparr>rr_state := ''running'', rr_started_at := Some started_at\<rparr>)"

definition set_workflow_run_completed :: "string option \<Rightarrow> string \<Rightarrow> int \<Rightarrow> workflow_store \<Rightarrow> workflow_store" where
  "set_workflow_run_completed ns run_id completed_at = set_run ns run_id (\<lambda>r. r\<lparr>rr_completed_at := Some completed_at\<rparr>)"

text \<open>The join with the definitions: one result row per definition of the name that the run points to.\<close>

definition runs_of ::
    "string option \<Rightarrow> string option \<Rightarrow> workflow_state option \<Rightarrow> workflow_store \<Rightarrow> run_row list" where
  "runs_of ns definition_name state st =
     (let rows = (case definition_name of
            None \<Rightarrow> wf_runs st
          | Some name \<Rightarrow> concat (map (\<lambda>r. map (\<lambda>_. r)
              (filter (\<lambda>d. wd_id d = rr_definition_id r \<and> wd_name d = name) (wf_definitions st))) (wf_runs st)))
      in filter (\<lambda>r. (case state of None \<Rightarrow> True | Some s \<Rightarrow> rr_state r = state_str s) \<and> run_in_ns ns r) rows)"

definition list_workflow_runs ::
    "string option \<Rightarrow> string option \<Rightarrow> workflow_state option \<Rightarrow> int \<Rightarrow> int \<Rightarrow> workflow_store \<Rightarrow> workflow_run list" where
  "list_workflow_runs ns definition_name state limit offset st =
     map run_from_row (sql_limit limit (sql_offset offset
       (order_by (\<lambda>r r'. rr_created_at r' \<le> rr_created_at r) (runs_of ns definition_name state st))))"

definition run_key :: "run_row \<Rightarrow> cursor_key" where
  "run_key r = (rr_created_at r, rr_id r)"

definition list_workflow_runs_after ::
    "string option \<Rightarrow> string option \<Rightarrow> workflow_state option \<Rightarrow> int \<Rightarrow> cursor_key option \<Rightarrow> workflow_store \<Rightarrow> workflow_run list" where
  "list_workflow_runs_after ns definition_name state limit after st =
     (let cursor = unwrap_or after (i64_max, [])
      in map run_from_row (sql_limit limit (order_by (key_desc run_key)
           (filter (\<lambda>r. key_lt (run_key r) cursor) (runs_of ns definition_name state st)))))"

definition get_child_workflow_runs :: "string option \<Rightarrow> string \<Rightarrow> workflow_store \<Rightarrow> workflow_run list" where
  "get_child_workflow_runs ns parent_run_id st =
     map run_from_row (filter (\<lambda>r. rr_parent_run_id r = Some parent_run_id \<and> run_in_ns ns r) (wf_runs st))"

subsection \<open>Nodes\<close>

definition insert_node :: "workflow_node \<Rightarrow> workflow_store \<Rightarrow> workflow_store result" where
  "insert_node node st =
     (if list_ex (\<lambda>r. nd_id r = nd_id node \<or> node_key r = node_key node) (wf_nodes st) then Inl (Storage UniqueViolation)
      else Inr (st\<lparr>wf_nodes := wf_nodes st @ [with_status (node_status_str (nd_status node)) node]\<rparr>))"

definition create_workflow_node :: "string option \<Rightarrow> workflow_node \<Rightarrow> workflow_store \<Rightarrow> unit result \<times> workflow_store" where
  "create_workflow_node ns node st =
     (if run_out_of_scope ns (nd_run_id node) st then (Inl (run_not_found (nd_run_id node)), st)
      else case insert_node node st of Inl e \<Rightarrow> (Inl e, st) | Inr st' \<Rightarrow> (Inr (), st'))"

text \<open>Each distinct run of the batch is checked once, then all nodes are inserted in one transaction.\<close>

definition create_workflow_nodes_batch ::
    "string option \<Rightarrow> workflow_node list \<Rightarrow> workflow_store \<Rightarrow> unit result \<times> workflow_store" where
  "create_workflow_nodes_batch ns nodes st =
     (case find (\<lambda>n. run_out_of_scope ns (nd_run_id n) st) nodes of
        Some n \<Rightarrow> (Inl (run_not_found (nd_run_id n)), st)
      | None \<Rightarrow> (case try_fold insert_node nodes st of Inl e \<Rightarrow> (Inl e, st) | Inr st' \<Rightarrow> (Inr (), st')))"

definition get_workflow_node :: "string option \<Rightarrow> string \<Rightarrow> string \<Rightarrow> workflow_store \<Rightarrow> workflow_node option" where
  "get_workflow_node ns run_id node_name st =
     (if run_out_of_scope ns run_id st then None
      else map_option node_from_row (find (\<lambda>r. node_key r = (run_id, node_name)) (wf_nodes st)))"

definition get_workflow_nodes :: "string option \<Rightarrow> string \<Rightarrow> workflow_store \<Rightarrow> workflow_node list" where
  "get_workflow_nodes ns run_id st =
     (if run_out_of_scope ns run_id st then [] else map node_from_row (filter (\<lambda>r. nd_run_id r = run_id) (wf_nodes st)))"

text \<open>The shape of every node setter: the scope check, one guarded update, and the affected rows.\<close>

definition set_node ::
    "string option \<Rightarrow> string \<Rightarrow> string \<Rightarrow> (node_row \<Rightarrow> bool) \<Rightarrow> (node_row \<Rightarrow> node_row) \<Rightarrow> workflow_store \<Rightarrow> nat \<times> workflow_store" where
  "set_node ns run_id node_name guard f st =
     (if run_out_of_scope ns run_id st then (0, st)
      else let P = (\<lambda>r. node_key r = (run_id, node_name) \<and> guard r)
           in (count_where P (wf_nodes st), st\<lparr>wf_nodes := update_where P f (wf_nodes st)\<rparr>))"

definition touch_node ::
    "string option \<Rightarrow> string \<Rightarrow> string \<Rightarrow> (node_row \<Rightarrow> node_row) \<Rightarrow> workflow_store \<Rightarrow> unit result \<times> workflow_store" where
  "touch_node ns run_id node_name f st =
     (case set_node ns run_id node_name (\<lambda>_. True) f st of (affected, st') \<Rightarrow> (require_touched affected run_id node_name, st'))"

definition update_workflow_node_status ::
    "string option \<Rightarrow> string \<Rightarrow> string \<Rightarrow> node_status \<Rightarrow> workflow_store \<Rightarrow> unit result \<times> workflow_store" where
  "update_workflow_node_status ns run_id node_name status =
     touch_node ns run_id node_name (\<lambda>r. r\<lparr>nd_status := node_status_str status\<rparr>)"

definition set_workflow_node_job ::
    "string option \<Rightarrow> string \<Rightarrow> string \<Rightarrow> string \<Rightarrow> workflow_store \<Rightarrow> unit result \<times> workflow_store" where
  "set_workflow_node_job ns run_id node_name job_id = touch_node ns run_id node_name (\<lambda>r. r\<lparr>nd_job_id := Some job_id\<rparr>)"

definition set_workflow_node_started ::
    "string option \<Rightarrow> string \<Rightarrow> string \<Rightarrow> int \<Rightarrow> workflow_store \<Rightarrow> unit result \<times> workflow_store" where
  "set_workflow_node_started ns run_id node_name started_at =
     touch_node ns run_id node_name (\<lambda>r. r\<lparr>nd_status := ''running'', nd_started_at := Some started_at\<rparr>)"

definition set_workflow_node_completed ::
    "string option \<Rightarrow> string \<Rightarrow> string \<Rightarrow> int \<Rightarrow> string option \<Rightarrow> workflow_store \<Rightarrow> unit result \<times> workflow_store" where
  "set_workflow_node_completed ns run_id node_name completed_at result_hash = touch_node ns run_id node_name
     (\<lambda>r. r\<lparr>nd_status := ''completed'', nd_completed_at := Some completed_at, nd_result_hash := result_hash\<rparr>)"

definition set_workflow_node_error ::
    "string option \<Rightarrow> string \<Rightarrow> string \<Rightarrow> string \<Rightarrow> workflow_store \<Rightarrow> unit result \<times> workflow_store" where
  "set_workflow_node_error ns run_id node_name error =
     touch_node ns run_id node_name (\<lambda>r. r\<lparr>nd_status := ''failed'', nd_error := Some error\<rparr>)"

definition set_workflow_node_fan_out_count ::
    "string option \<Rightarrow> string \<Rightarrow> string \<Rightarrow> int \<Rightarrow> workflow_store \<Rightarrow> unit result \<times> workflow_store" where
  "set_workflow_node_fan_out_count ns run_id node_name n =
     touch_node ns run_id node_name (\<lambda>r. r\<lparr>nd_fan_out_count := Some n, nd_status := ''running''\<rparr>)"

definition set_workflow_node_running ::
    "string option \<Rightarrow> string \<Rightarrow> string \<Rightarrow> int \<Rightarrow> workflow_store \<Rightarrow> unit result \<times> workflow_store" where
  "set_workflow_node_running ns run_id node_name started_at =
     touch_node ns run_id node_name (\<lambda>r. r\<lparr>nd_status := ''running'', nd_started_at := Some started_at\<rparr>)"

definition fan_out_open :: "node_row \<Rightarrow> bool" where
  "fan_out_open r \<longleftrightarrow> nd_status r \<notin> set [''completed'', ''failed'', ''skipped'', ''cache_hit'']"

definition finalize_fan_out_parent ::
    "string option \<Rightarrow> string \<Rightarrow> string \<Rightarrow> bool \<Rightarrow> string option \<Rightarrow> int \<Rightarrow> workflow_store \<Rightarrow> bool \<times> workflow_store" where
  "finalize_fan_out_parent ns run_id node_name succeeded error completed_at st =
     (case set_node ns run_id node_name fan_out_open
             (if succeeded then (\<lambda>r. r\<lparr>nd_status := ''completed'', nd_completed_at := Some completed_at\<rparr>)
              else (\<lambda>r. r\<lparr>nd_status := ''failed'', nd_error := Some (unwrap_or error ''fan-out child failed'')\<rparr>)) st of
        (affected, st') \<Rightarrow> (0 < affected, st'))"

text \<open>
  SQLite's \<open>LIKE\<close>: a percent sign matches any text, an underscore any one character, and
  ASCII letters match in either case.
\<close>

definition ascii_lower :: "char \<Rightarrow> char" where
  "ascii_lower c = (if 65 \<le> (of_char c :: nat) \<and> (of_char c :: nat) \<le> 90 then char_of (of_char c + 32 :: nat) else c)"

fun like :: "string \<Rightarrow> string \<Rightarrow> bool" where
  "like [] s = (s = [])"
| "like (p # ps) s =
     (if p = CHR ''%'' then list_ex (like ps) (suffixes s)
      else case s of [] \<Rightarrow> False
           | c # cs \<Rightarrow> (p = CHR ''_'' \<or> ascii_lower p = ascii_lower c) \<and> like ps cs)"

definition get_workflow_nodes_by_prefix :: "string option \<Rightarrow> string \<Rightarrow> string \<Rightarrow> workflow_store \<Rightarrow> workflow_node list" where
  "get_workflow_nodes_by_prefix ns run_id pre st =
     (if run_out_of_scope ns run_id st then []
      else map node_from_row
        (filter (\<lambda>r. nd_run_id r = run_id \<and> like (pre @ ''%'') (nd_node_name r)) (wf_nodes st)))"

definition get_ready_workflow_nodes ::
    "dag_lib \<Rightarrow> string option \<Rightarrow> string \<Rightarrow> string \<Rightarrow> workflow_store \<Rightarrow> workflow_node list result" where
  "get_ready_workflow_nodes dl ns run_id dag_json st = compute_ready_nodes dl (get_workflow_nodes ns run_id st) dag_json"

subsection \<open>Compensation\<close>

definition set_workflow_node_compensation_job ::
    "string option \<Rightarrow> string \<Rightarrow> string \<Rightarrow> string \<Rightarrow> int \<Rightarrow> workflow_store \<Rightarrow> unit result \<times> workflow_store" where
  "set_workflow_node_compensation_job ns run_id node_name job_id started_at = touch_node ns run_id node_name
     (\<lambda>r. r\<lparr>nd_status := ''compensating'', nd_compensation_job_id := Some job_id,
            nd_compensation_started_at := Some started_at\<rparr>)"

definition set_workflow_node_compensated ::
    "string option \<Rightarrow> string \<Rightarrow> string \<Rightarrow> int \<Rightarrow> workflow_store \<Rightarrow> unit result \<times> workflow_store" where
  "set_workflow_node_compensated ns run_id node_name completed_at = touch_node ns run_id node_name
     (\<lambda>r. r\<lparr>nd_status := ''compensated'', nd_compensation_completed_at := Some completed_at\<rparr>)"

definition set_workflow_node_compensation_failed ::
    "string option \<Rightarrow> string \<Rightarrow> string \<Rightarrow> string \<Rightarrow> int \<Rightarrow> workflow_store \<Rightarrow> unit result \<times> workflow_store" where
  "set_workflow_node_compensation_failed ns run_id node_name error completed_at = touch_node ns run_id node_name
     (\<lambda>r. r\<lparr>nd_status := ''compensation_failed'', nd_compensation_completed_at := Some completed_at,
            nd_compensation_error := Some error\<rparr>)"

section \<open>Status strings and rows\<close>

lemma state_roundtrip [simp]: "state_from_str_val (state_str s) = Some s"
  by (cases s) (simp_all add: state_from_str_val_def)

lemma node_status_roundtrip [simp]: "node_from_str_val (node_status_str s) = Some s"
  by (cases s) (simp_all add: node_from_str_val_def)

lemma node_status_str_inject [simp]: "node_status_str s = node_status_str t \<longleftrightarrow> s = t"
  by (metis node_status_roundtrip option.inject)

lemma with_status_sel [simp]:
  "nd_id (with_status s n) = nd_id n" "nd_run_id (with_status s n) = nd_run_id n"
  "nd_node_name (with_status s n) = nd_node_name n" "nd_status (with_status s n) = s"
  "node_key (with_status s n) = node_key n"
  by (simp_all add: with_status_def node_key_def)

lemma run_row_roundtrip: "run_from_row (row_of_run ns run) = run"
  by (simp add: run_from_row_def row_of_run_def unwrap_or_def)

lemma node_row_roundtrip: "node_from_row (with_status (node_status_str (nd_status n)) n) = n"
  by (simp add: node_from_row_def with_status_def unwrap_or_def)

lemma node_from_row_sel [simp]:
  "nd_id (node_from_row r) = nd_id r" "nd_run_id (node_from_row r) = nd_run_id r"
  "nd_node_name (node_from_row r) = nd_node_name r" "node_key (node_from_row r) = node_key r"
  by (simp_all add: node_from_row_def)

section \<open>Well-formed stores\<close>

definition workflows_ok :: "workflow_store \<Rightarrow> bool" where
  "workflows_ok st \<longleftrightarrow> distinct (map rr_id (wf_runs st)) \<and> distinct (map nd_id (wf_nodes st)) \<and>
     distinct (map node_key (wf_nodes st)) \<and> distinct (map wd_id (wf_definitions st)) \<and>
     distinct (map (\<lambda>d. (wd_name d, wd_version d)) (wf_definitions st))"

text \<open>Every operation that writes, by its scope.\<close>

inductive workflow_step :: "string option \<Rightarrow> workflow_store \<Rightarrow> workflow_store \<Rightarrow> bool" for ns where
  Create_Run: "workflow_step ns st (snd (create_workflow_run ns run st))"
| Run_State: "workflow_step ns st (update_workflow_run_state ns run_id state error st)"
| Run_Started: "workflow_step ns st (set_workflow_run_started ns run_id t st)"
| Run_Completed: "workflow_step ns st (set_workflow_run_completed ns run_id t st)"
| Create_Node: "workflow_step ns st (snd (create_workflow_node ns node st))"
| Create_Nodes: "workflow_step ns st (snd (create_workflow_nodes_batch ns nodes st))"
| Node_Status: "workflow_step ns st (snd (update_workflow_node_status ns run_id name status st))"
| Node_Job: "workflow_step ns st (snd (set_workflow_node_job ns run_id name job st))"
| Node_Started: "workflow_step ns st (snd (set_workflow_node_started ns run_id name t st))"
| Node_Completed: "workflow_step ns st (snd (set_workflow_node_completed ns run_id name t hash st))"
| Node_Error: "workflow_step ns st (snd (set_workflow_node_error ns run_id name e st))"
| Node_Fan_Out: "workflow_step ns st (snd (set_workflow_node_fan_out_count ns run_id name n st))"
| Node_Running: "workflow_step ns st (snd (set_workflow_node_running ns run_id name t st))"
| Finalize: "workflow_step ns st (snd (finalize_fan_out_parent ns run_id name ok err t st))"
| Compensation_Job: "workflow_step ns st (snd (set_workflow_node_compensation_job ns run_id name job t st))"
| Compensated: "workflow_step ns st (snd (set_workflow_node_compensated ns run_id name t st))"
| Compensation_Failed: "workflow_step ns st (snd (set_workflow_node_compensation_failed ns run_id name e t st))"

lemmas node_setter_defs = update_workflow_node_status_def set_workflow_node_job_def set_workflow_node_started_def
  set_workflow_node_completed_def set_workflow_node_error_def set_workflow_node_fan_out_count_def
  set_workflow_node_running_def set_workflow_node_compensation_job_def set_workflow_node_compensated_def
  set_workflow_node_compensation_failed_def

lemmas run_setter_defs = update_workflow_run_state_def set_workflow_run_started_def set_workflow_run_completed_def

text \<open>
  The steps come in four shapes: a new run, an update of one run in scope, new nodes of runs in
  scope, and an update of one node of a run in scope.
\<close>

lemma insert_nodes_shape:
  "try_fold insert_node nodes st = Inr st' \<Longrightarrow> workflows_ok st \<Longrightarrow>
     workflows_ok st' \<and> wf_runs st' = wf_runs st \<and> wf_definitions st' = wf_definitions st \<and>
     wf_nodes st' = wf_nodes st @ map (\<lambda>n. with_status (node_status_str (nd_status n)) n) nodes"
proof (induction nodes arbitrary: st)
  case (Cons n nodes)
  from Cons.prems(1) obtain st1 where i: "insert_node n st = Inr st1" and r: "try_fold insert_node nodes st1 = Inr st'"
    by (auto simp: and_then_Inr_iff)
  from i have st1: "st1 = st\<lparr>wf_nodes := wf_nodes st @ [with_status (node_status_str (nd_status n)) n]\<rparr>"
      "nd_id n \<notin> nd_id ` set (wf_nodes st)" "node_key n \<notin> node_key ` set (wf_nodes st)"
    by (auto simp: insert_node_def list_ex_iff split: if_splits)
  then have "workflows_ok st1" using Cons.prems(2) by (simp add: workflows_ok_def)
  from Cons.IH [OF r this] st1(1) show ?case by simp
qed simp

lemma touch_shape: "snd (touch_node ns run_id name f st) = snd (set_node ns run_id name (\<lambda>_. True) f st)"
  by (simp add: touch_node_def case_prod_unfold)

lemma finalize_shape: "snd (finalize_fan_out_parent ns run_id name ok err t st) = snd (set_node ns run_id name fan_out_open
    (if ok then (\<lambda>r. r\<lparr>nd_status := ''completed'', nd_completed_at := Some t\<rparr>)
     else (\<lambda>r. r\<lparr>nd_status := ''failed'', nd_error := Some (unwrap_or err ''fan-out child failed'')\<rparr>)) st)"
  by (simp add: finalize_fan_out_parent_def case_prod_unfold)

lemma workflow_step_shape:
  assumes "workflow_step ns st st'"
  obtains (same) "st' = st"
  | (run) run where "st' = st\<lparr>wf_runs := wf_runs st @ [row_of_run ns run]\<rparr>" "wf_id run \<notin> rr_id ` set (wf_runs st)"
  | (set_run) run_id f where "st' = set_run ns run_id f st" "\<And>r. rr_id (f r) = rr_id r \<and> rr_namespace (f r) = rr_namespace r"
  | (new_nodes) nodes where "try_fold insert_node nodes st = Inr st'" "\<And>n. n \<in> set nodes \<Longrightarrow> \<not> run_out_of_scope ns (nd_run_id n) st"
  | (set_node) run_id name guard f where "st' = snd (set_node ns run_id name guard f st)"
      "\<And>r. nd_id (f r) = nd_id r \<and> node_key (f r) = node_key r"
  using assms
proof (cases rule: workflow_step.cases)
  case (Create_Run run)
  then show ?thesis
    using same run [of run]
    by (auto simp: create_workflow_run_def insert_row_def row_of_run_def split: option.splits if_splits)
next
  case (Create_Node node)
  then show ?thesis using same new_nodes [of "[node]"]
    by (auto simp: create_workflow_node_def split: if_splits sum.splits)
next
  case (Create_Nodes nodes)
  then show ?thesis using same new_nodes [of nodes]
    by (auto simp: create_workflow_nodes_batch_def find_None_iff split: option.splits sum.splits)
next
  case (Finalize run_id name ok err t)
  show ?thesis
    by (rule set_node [OF Finalize(1) [unfolded finalize_shape]]) (simp add: node_key_def)
next
  case Run_State
  show ?thesis by (rule set_run [OF Run_State(1) [unfolded run_setter_defs]]) simp
next
  case Run_Started
  show ?thesis by (rule set_run [OF Run_Started(1) [unfolded run_setter_defs]]) simp
next
  case Run_Completed
  show ?thesis by (rule set_run [OF Run_Completed(1) [unfolded run_setter_defs]]) simp
next
  case Node_Status
  show ?thesis by (rule set_node [OF Node_Status(1) [unfolded node_setter_defs touch_shape]]) (simp add: node_key_def)
next
  case Node_Job
  show ?thesis by (rule set_node [OF Node_Job(1) [unfolded node_setter_defs touch_shape]]) (simp add: node_key_def)
next
  case Node_Started
  show ?thesis by (rule set_node [OF Node_Started(1) [unfolded node_setter_defs touch_shape]]) (simp add: node_key_def)
next
  case Node_Completed
  show ?thesis by (rule set_node [OF Node_Completed(1) [unfolded node_setter_defs touch_shape]]) (simp add: node_key_def)
next
  case Node_Error
  show ?thesis by (rule set_node [OF Node_Error(1) [unfolded node_setter_defs touch_shape]]) (simp add: node_key_def)
next
  case Node_Fan_Out
  show ?thesis by (rule set_node [OF Node_Fan_Out(1) [unfolded node_setter_defs touch_shape]]) (simp add: node_key_def)
next
  case Node_Running
  show ?thesis by (rule set_node [OF Node_Running(1) [unfolded node_setter_defs touch_shape]]) (simp add: node_key_def)
next
  case Compensation_Job
  show ?thesis by (rule set_node [OF Compensation_Job(1) [unfolded node_setter_defs touch_shape]]) (simp add: node_key_def)
next
  case Compensated
  show ?thesis by (rule set_node [OF Compensated(1) [unfolded node_setter_defs touch_shape]]) (simp add: node_key_def)
next
  case Compensation_Failed
  show ?thesis by (rule set_node [OF Compensation_Failed(1) [unfolded node_setter_defs touch_shape]]) (simp add: node_key_def)
qed

section \<open>Namespaces\<close>

lemma set_node_shape:
  "snd (set_node ns run_id name guard f st) = (if run_out_of_scope ns run_id st then st
     else st\<lparr>wf_nodes := update_where (\<lambda>r. node_key r = (run_id, name) \<and> guard r) f (wf_nodes st)\<rparr>)"
  by (simp add: set_node_def Let_def)

lemma workflow_step_ok:
  assumes "workflow_step ns st st'" "workflows_ok st"
  shows "workflows_ok st'"
  using assms(1)
proof (cases rule: workflow_step_shape)
  case (set_run run_id f)
  then show ?thesis using assms(2) by (simp add: workflows_ok_def set_run_def map_key_update_where)
next
  case (set_node run_id name guard f)
  then show ?thesis using assms(2) by (simp add: workflows_ok_def set_node_shape map_key_update_where)
next
  case (new_nodes nodes)
  then show ?thesis using insert_nodes_shape assms(2) by blast
qed (use assms(2) in \<open>simp_all add: workflows_ok_def row_of_run_def\<close>)

definition foreign_runs :: "string \<Rightarrow> workflow_store \<Rightarrow> run_row list" where
  "foreign_runs n st = filter (\<lambda>r. rr_namespace r \<noteq> Some n) (wf_runs st)"

definition foreign_nodes :: "string \<Rightarrow> workflow_store \<Rightarrow> node_row list" where
  "foreign_nodes n st = filter (\<lambda>v. nd_run_id v \<in> rr_id ` set (foreign_runs n st)) (wf_nodes st)"

text \<open>The part of a store that a namespace can see.\<close>

definition visible :: "string \<Rightarrow> workflow_store \<Rightarrow> workflow_store" where
  "visible n st = st\<lparr>wf_runs := filter (\<lambda>r. rr_namespace r = Some n) (wf_runs st),
     wf_nodes := filter (\<lambda>v. \<not> run_out_of_scope (Some n) (nd_run_id v) st) (wf_nodes st)\<rparr>"

lemma in_scope_iff: "\<not> run_out_of_scope (Some n) i st \<longleftrightarrow> (\<exists>r \<in> set (wf_runs st). rr_id r = i \<and> rr_namespace r = Some n)"
  by (auto simp: run_out_of_scope_def count_where_0_iff)

lemma foreign_out_of_scope:
  assumes "workflows_ok st" "i \<in> rr_id ` set (foreign_runs n st)"
  shows "run_out_of_scope (Some n) i st"
proof (rule ccontr)
  assume "\<not> run_out_of_scope (Some n) i st"
  then obtain r where r: "r \<in> set (wf_runs st)" "rr_id r = i" "rr_namespace r = Some n" by (auto simp: in_scope_iff)
  obtain q where q: "q \<in> set (wf_runs st)" "rr_id q = i" "rr_namespace q \<noteq> Some n"
    using assms(2) by (auto simp: foreign_runs_def)
  have "inj_on rr_id (set (wf_runs st))" using assms(1) by (simp add: workflows_ok_def distinct_map)
  with r q show False by (auto dest: inj_onD)
qed

lemma filter_update_other: "(\<And>r. P r \<Longrightarrow> \<not> Q r \<and> \<not> Q (f r)) \<Longrightarrow> filter Q (update_where P f rows) = filter Q rows"
  by (induction rows) (auto simp: update_where_def)

lemma step_foreign_runs:
  assumes "workflow_step (Some n) st st'" "workflows_ok st"
  shows "foreign_runs n st' = foreign_runs n st"
  using assms(1)
proof (cases rule: workflow_step_shape)
  case (set_run run_id f)
  then show ?thesis
    by (auto simp: set_run_def foreign_runs_def run_in_ns_def in_ns_def intro!: filter_update_other)
next
  case (new_nodes nodes)
  then show ?thesis using insert_nodes_shape assms(2) by (simp add: foreign_runs_def)
qed (simp_all add: foreign_runs_def row_of_run_def set_node_shape)

lemma step_foreign_nodes:
  assumes "workflow_step (Some n) st st'" "workflows_ok st"
  shows "foreign_nodes n st' = foreign_nodes n st"
proof -
  note runs = step_foreign_runs [OF assms]
  let ?Q = "\<lambda>v. nd_run_id v \<in> rr_id ` set (foreign_runs n st)"
  have out: "?Q v \<Longrightarrow> run_out_of_scope (Some n) (nd_run_id v) st" for v :: "'b node_data"
    by (rule foreign_out_of_scope [OF assms(2)])
  have "filter ?Q (wf_nodes st') = filter ?Q (wf_nodes st)"
    using assms(1)
  proof (cases rule: workflow_step_shape)
    case (new_nodes nodes)
    then have "wf_nodes st' = wf_nodes st @ map (\<lambda>n. with_status (node_status_str (nd_status n)) n) nodes"
      using insert_nodes_shape assms(2) by blast
    moreover have "\<not> ?Q m" if "m \<in> set nodes" for m using new_nodes(2) [OF that] out [of m] by blast
    ultimately show ?thesis by (auto simp: filter_empty_conv)
  next
    case (set_node run_id name guard f)
    show ?thesis
    proof (cases "run_out_of_scope (Some n) run_id st")
      case False
      then have "run_id \<notin> rr_id ` set (foreign_runs n st)" using foreign_out_of_scope [OF assms(2)] by blast
      moreover have "nd_run_id (f r) = nd_run_id r" for r using set_node(2) [of r] by (simp add: node_key_def)
      ultimately have "filter ?Q (update_where (\<lambda>r. node_key r = (run_id, name) \<and> guard r) f (wf_nodes st)) = filter ?Q (wf_nodes st)"
        by (intro filter_update_other) (auto simp: node_key_def)
      with False set_node(1) show ?thesis by (simp add: set_node_shape)
    qed (use set_node(1) in \<open>simp add: set_node_shape\<close>)
  qed (simp_all add: set_run_def)
  then show ?thesis by (simp add: foreign_nodes_def runs)
qed

lemma visible_scope [simp]: "run_out_of_scope (Some n) i (visible n st) = run_out_of_scope (Some n) i st"
  by (auto simp: run_out_of_scope_def visible_def count_where_0_iff)

lemma filter_concat_filter:
  "(\<And>r x. x \<in> set (f r) \<Longrightarrow> P x \<Longrightarrow> Q r) \<Longrightarrow> filter P (concat (map f (filter Q rows))) = filter P (concat (map f rows))"
  by (induction rows) (auto simp: filter_empty_conv)

lemma visible_runs_of: "runs_of (Some n) name state (visible n st) = runs_of (Some n) name state st"
proof (cases name)
  case None
  then show ?thesis by (auto simp: runs_of_def visible_def run_in_ns_def in_ns_def intro!: filter_cong)
next
  case (Some d)
  show ?thesis
    unfolding runs_of_def Let_def Some option.simps visible_def
    by (simp, rule filter_concat_filter) (auto simp: run_in_ns_def in_ns_def)
qed

lemma visible_nodes:
  "filter (\<lambda>r. nd_run_id r = i \<and> P r) (wf_nodes (visible n st)) =
     (if run_out_of_scope (Some n) i st then [] else filter (\<lambda>r. nd_run_id r = i \<and> P r) (wf_nodes st))"
  by (auto simp: visible_def filter_empty_conv intro!: filter_cong)

lemma find_as_filter: "find P xs = (case filter P xs of [] \<Rightarrow> None | x # _ \<Rightarrow> Some x)"
  by (induction xs) simp_all

text \<open>
  C14: Tenant isolation. A store scoped to a namespace keeps the tables well-formed, never changes a
  run of another namespace or a node of such a run, whatever it is asked to write, and answers every
  read as if those rows did not exist.
\<close>

theorem workflow_namespace_isolated:
  assumes "workflows_ok st" "workflow_step (Some n) st st'"
  shows "workflows_ok st' \<and> foreign_runs n st' = foreign_runs n st \<and> foreign_nodes n st' = foreign_nodes n st \<and>
    get_workflow_run (Some n) i st = get_workflow_run (Some n) i (visible n st) \<and>
    list_workflow_runs (Some n) name state limit offset st = list_workflow_runs (Some n) name state limit offset (visible n st) \<and>
    list_workflow_runs_after (Some n) name state limit after st = list_workflow_runs_after (Some n) name state limit after (visible n st) \<and>
    get_child_workflow_runs (Some n) i st = get_child_workflow_runs (Some n) i (visible n st) \<and>
    get_workflow_node (Some n) i node st = get_workflow_node (Some n) i node (visible n st) \<and>
    get_workflow_nodes (Some n) i st = get_workflow_nodes (Some n) i (visible n st) \<and>
    get_workflow_nodes_by_prefix (Some n) i pre st = get_workflow_nodes_by_prefix (Some n) i pre (visible n st) \<and>
    get_ready_workflow_nodes dl (Some n) i dag st = get_ready_workflow_nodes dl (Some n) i dag (visible n st)"
proof -
  have nodes: "filter (\<lambda>r. nd_run_id r = i \<and> P r) (wf_nodes st) = filter (\<lambda>r. nd_run_id r = i \<and> P r) (wf_nodes (visible n st))"
    if "\<not> run_out_of_scope (Some n) i st" for P :: "node_row \<Rightarrow> bool"
    using that by (simp add: visible_nodes)
  have runs: "find (\<lambda>r. rr_id r = i \<and> run_in_ns (Some n) r) (wf_runs st) =
      find (\<lambda>r. rr_id r = i \<and> run_in_ns (Some n) r) (wf_runs (visible n st))"
    by (simp add: visible_def find_as_filter run_in_ns_def in_ns_def) (simp add: conj_ac)
  have child: "filter (\<lambda>r. rr_parent_run_id r = Some i \<and> run_in_ns (Some n) r) (wf_runs st) =
      filter (\<lambda>r. rr_parent_run_id r = Some i \<and> run_in_ns (Some n) r) (wf_runs (visible n st))"
    by (auto simp: visible_def run_in_ns_def in_ns_def intro!: filter_cong)
  have all: "get_workflow_nodes (Some n) i st = get_workflow_nodes (Some n) i (visible n st)"
    using nodes [of "\<lambda>_. True"] by (simp add: get_workflow_nodes_def)
  have one: "get_workflow_node (Some n) i node st = get_workflow_node (Some n) i node (visible n st)"
    using nodes [of "\<lambda>r. nd_node_name r = node"] by (simp add: get_workflow_node_def find_as_filter node_key_def)
  show ?thesis
    using workflow_step_ok [OF assms(2,1)] step_foreign_runs [OF assms(2,1)] step_foreign_nodes [OF assms(2,1)]
      nodes [of "\<lambda>r. like (pre @ ''%'') (nd_node_name r)"] all one
    by (simp add: get_workflow_run_def list_workflow_runs_def list_workflow_runs_after_def visible_runs_of
        get_child_workflow_runs_def get_workflow_nodes_by_prefix_def get_ready_workflow_nodes_def runs child)
qed

section \<open>What is stored is read back\<close>

lemma find_append_new: "find P xs = None \<Longrightarrow> P x \<Longrightarrow> find P (xs @ [x]) = Some x"
  by (induction xs) (auto split: if_splits)

lemma created_run:
  "create_workflow_run ns run st = (Inr (), st') \<Longrightarrow>
     wf_id run \<notin> rr_id ` set (wf_runs st) \<and> st' = st\<lparr>wf_runs := wf_runs st @ [row_of_run ns run]\<rparr>"
  by (auto simp: create_workflow_run_def insert_row_def row_of_run_def split: option.splits if_splits)

lemma created_node:
  "create_workflow_node ns node st = (Inr (), st') \<Longrightarrow>
     \<not> run_out_of_scope ns (nd_run_id node) st \<and> node_key node \<notin> node_key ` set (wf_nodes st) \<and>
     st' = st\<lparr>wf_nodes := wf_nodes st @ [with_status (node_status_str (nd_status node)) node]\<rparr>"
  by (auto simp: create_workflow_node_def insert_node_def list_ex_iff split: if_splits sum.splits)

lemma created_definition:
  assumes "create_workflow_definition ml def st = (Inr (), st')" "\<And>m t. meta_to_string ml m = Inr t \<Longrightarrow> meta_from_str ml t = Inr m"
  obtains row where "st' = st\<lparr>wf_definitions := wf_definitions st @ [row]\<rparr>" "definition_from_row ml row = Inr def"
    "wd_id row = df_id def" "wd_name row = df_name def" "wd_version row = df_version def"
    "\<forall>r \<in> set (wf_definitions st). wd_id r \<noteq> df_id def \<and> \<not> (wd_name r = df_name def \<and> wd_version r = df_version def)"
proof -
  obtain t where t: "meta_to_string ml (df_step_metadata def) = Inr t"
    and fresh: "\<not> list_ex (\<lambda>r. wd_id r = df_id def \<or> wd_name r = df_name def \<and> wd_version r = df_version def) (wf_definitions st)"
    and st': "st' = st\<lparr>wf_definitions := wf_definitions st @ [\<lparr>wd_id = df_id def, wd_name = df_name def, wd_version = df_version def,
       wd_dag_data = df_dag_data def, wd_step_metadata = t, wd_created_at = df_created_at def\<rparr>]\<rparr>"
    using assms(1) by (auto simp: create_workflow_definition_def split: sum.splits if_splits)
  show thesis
    by (rule that [OF st']) (use assms(2) [OF t] fresh in \<open>auto simp: definition_from_row_def list_ex_iff\<close>)
qed

text \<open>
  C39: Round trips of the workflow store. A definition that was stored is read back under its name and
  version and under its id, a run and a node under their keys, each unchanged in every field, by a
  store of the same scope, provided the metadata codec decodes what it encodes.
\<close>

theorem workflow_store_roundtrip:
  assumes "\<And>m t. meta_to_string ml m = Inr t \<Longrightarrow> meta_from_str ml t = Inr m"
  shows "(create_workflow_definition ml def st = (Inr (), st1) \<longrightarrow>
      get_workflow_definition ml (df_name def) (Some (df_version def)) st1 = Inr (Some def) \<and>
      get_workflow_definition_by_id ml (df_id def) st1 = Inr (Some def)) \<and>
    (create_workflow_run ns run st = (Inr (), st2) \<longrightarrow> get_workflow_run ns (wf_id run) st2 = Some run) \<and>
    (create_workflow_node ns node st = (Inr (), st3) \<longrightarrow>
      get_workflow_node ns (nd_run_id node) (nd_node_name node) st3 = Some node)"
proof (intro conjI impI)
  assume c: "create_workflow_definition ml def st = (Inr (), st1)"
  obtain row where row: "st1 = st\<lparr>wf_definitions := wf_definitions st @ [row]\<rparr>" "definition_from_row ml row = Inr def"
    "wd_id row = df_id def" "wd_name row = df_name def" "wd_version row = df_version def"
    and fresh: "\<forall>r \<in> set (wf_definitions st). wd_id r \<noteq> df_id def \<and> \<not> (wd_name r = df_name def \<and> wd_version r = df_version def)"
    by (rule created_definition [OF c assms])
  have "filter (\<lambda>r. wd_name r = df_name def \<and> wd_version r = df_version def) (wf_definitions st) = []"
    "filter (\<lambda>r. wd_id r = df_id def) (wf_definitions st) = []"
    using fresh by (auto simp: filter_empty_conv)
  with row show "get_workflow_definition ml (df_name def) (Some (df_version def)) st1 = Inr (Some def)"
    "get_workflow_definition_by_id ml (df_id def) st1 = Inr (Some def)"
    by (simp_all add: get_workflow_definition_def get_workflow_definition_by_id_def first_definition_def)
next
  assume "create_workflow_run ns run st = (Inr (), st2)"
  note c = created_run [OF this]
  have "find (\<lambda>r. rr_id r = wf_id run \<and> run_in_ns ns r) (wf_runs st) = None" using c by (force simp: find_None_iff)
  then have "find (\<lambda>r. rr_id r = wf_id run \<and> run_in_ns ns r) (wf_runs st @ [row_of_run ns run]) = Some (row_of_run ns run)"
    by (rule find_append_new) (simp add: row_of_run_def run_in_ns_def in_ns_def split: option.split)
  then show "get_workflow_run ns (wf_id run) st2 = Some run" using c by (simp add: get_workflow_run_def run_row_roundtrip)
next
  assume "create_workflow_node ns node st = (Inr (), st3)"
  note c = created_node [OF this]
  let ?k = "(nd_run_id node, nd_node_name node)" and ?row = "with_status (node_status_str (nd_status node)) node"
  have "find (\<lambda>r. node_key r = ?k) (wf_nodes st) = None" using c by (force simp: find_None_iff node_key_def image_iff)
  then have "find (\<lambda>r. node_key r = ?k) (wf_nodes st @ [?row]) = Some ?row"
    by (rule find_append_new) (simp add: node_key_def with_status_def)
  moreover have "\<not> run_out_of_scope ns (nd_run_id node) st3" using c by (auto simp: run_out_of_scope_def split: option.splits)
  ultimately show "get_workflow_node ns (nd_run_id node) (nd_node_name node) st3 = Some node"
    using c by (simp add: get_workflow_node_def node_row_roundtrip)
qed

section \<open>Ready nodes\<close>

definition predecessors :: "graph \<Rightarrow> string \<Rightarrow> string list" where
  "predecessors g b = map fst (filter (\<lambda>e. snd e = b) (g_edges g))"

lemma no_edge: "b \<notin> snd ` set es \<Longrightarrow> filter (\<lambda>e. snd e = b) es = []"
  by (induction es) auto

lemma predecessor_map_eq:
  "predecessor_map g b = (if b \<in> set (g_nodes g) \<union> snd ` set (g_edges g) then Some (predecessors g b) else None)"
proof -
  have n: "fold (\<lambda>n m. m(n \<mapsto> unwrap_or (m n) [])) ns m b = (if b \<in> set ns then Some (unwrap_or (m b) []) else m b)" for ns m
    by (induction ns arbitrary: m) (auto simp: unwrap_or_def)
  have e: "fold push_predecessor es m b = (if b \<in> snd ` set es
      then Some (unwrap_or (m b) [] @ map fst (filter (\<lambda>e. snd e = b) es)) else m b)" for es m
    by (induction es arbitrary: m) (auto simp: push_predecessor_def unwrap_or_def no_edge)
  show ?thesis unfolding predecessor_map_def e n by (auto simp: predecessors_def unwrap_or_def no_edge)
qed

lemma status_map_eq:
  "distinct (map nd_node_name ns) \<Longrightarrow> status_map ns p = Some s \<longleftrightarrow> (\<exists>m \<in> set ns. nd_node_name m = p \<and> nd_status m = s)"
  unfolding status_map_def
  by (subst map_of_eq_Some_iff) (auto simp: rev_map [symmetric] comp_def image_iff)

lemma is_ready_iff:
  assumes "distinct (map nd_node_name ns)"
  shows "is_ready g ns n \<longleftrightarrow> nd_status n = NPending \<and>
    (\<forall>p \<in> set (predecessors g (nd_node_name n)). \<exists>m \<in> set ns. nd_node_name m = p \<and> nd_status m = NCompleted)"
proof -
  have "set (predecessors g b) = {}" if "b \<notin> snd ` set (g_edges g)" for b
    using that by (simp add: predecessors_def no_edge)
  then show ?thesis
    by (auto simp: is_ready_def predecessor_map_eq list_all_iff status_map_eq [OF assms])
qed

text \<open>
  What the graph crate documents of its sort: the nodes in an order in which every edge points
  forward.
\<close>

definition sorts :: "dag_lib \<Rightarrow> bool" where
  "sorts dl \<longleftrightarrow> (\<forall>g order. topological_sort dl g = Inr order \<longrightarrow>
     distinct order \<and> set order = set (g_nodes g) \<and>
     (\<forall>e \<in> set (g_edges g). \<exists>k j. k < j \<and> j < length order \<and> order ! k = fst e \<and> order ! j = snd e))"

lemma pending_progress:
  assumes "sorts dl" "topological_sort dl g = Inr order" "distinct (map nd_node_name ns)"
    "nd_node_name ` set ns = set (g_nodes g)" "\<forall>n \<in> set ns. nd_status n = NPending \<or> nd_status n = NCompleted"
    "\<exists>n \<in> set ns. nd_status n = NPending"
  shows "\<exists>n \<in> set ns. is_ready g ns n"
proof -
  have o: "distinct order" "set order = set (g_nodes g)" and
    fwd: "\<And>e. e \<in> set (g_edges g) \<Longrightarrow> \<exists>k j. k < j \<and> j < length order \<and> order ! k = fst e \<and> order ! j = snd e"
    using assms(1,2) by (auto simp: sorts_def)
  let ?P = "\<lambda>i. i < length order \<and> (\<exists>n \<in> set ns. nd_node_name n = order ! i \<and> nd_status n = NPending)"
  obtain n where "n \<in> set ns" "nd_status n = NPending" using assms(6) by blast
  moreover from this have "nd_node_name n \<in> set order" using assms(4) o(2) by auto
  ultimately have "\<exists>i. ?P i" by (metis in_set_conv_nth)
  then have least: "?P (LEAST i. ?P i)" by (rule LeastI_ex)
  define i where "i = (LEAST i. ?P i)"
  obtain n where n: "n \<in> set ns" "nd_node_name n = order ! i" "nd_status n = NPending" and i: "i < length order"
    using least by (auto simp: i_def)
  have "\<exists>m \<in> set ns. nd_node_name m = p \<and> nd_status m = NCompleted" if p: "p \<in> set (predecessors g (nd_node_name n))" for p
  proof -
    obtain e where e: "e \<in> set (g_edges g)" "fst e = p" "snd e = order ! i" using p n(2) by (auto simp: predecessors_def)
    then obtain k j where kj: "k < j" "j < length order" "order ! k = p" "order ! j = order ! i" using fwd by metis
    then have "k < i" using o(1) i by (simp add: nth_eq_iff_index_eq)
    then have "\<not> ?P k" unfolding i_def by (rule not_less_Least)
    moreover have "p \<in> nd_node_name ` set ns" using kj o(2) assms(4) by (metis nth_mem order.strict_trans)
    ultimately show ?thesis using assms(5) kj by fastforce
  qed
  then have "is_ready g ns n" using n(3) by (simp add: is_ready_iff [OF assms(3)])
  then show ?thesis using n(1) by blast
qed

text \<open>
  C16: Nodes become ready exactly when they may run, and a run never stalls. The ready nodes of a run
  are its pending nodes all of whose direct predecessors completed; and as long as every node is
  pending or completed and one is pending, some node is ready, provided the graph could be sorted.
\<close>

theorem ready_nodes_progress:
  assumes "graph_from_str dl dag = Inr g" "get_workflow_nodes ns i st = nodes" "distinct (map nd_node_name nodes)"
  shows "\<exists>ready. get_ready_workflow_nodes dl ns i dag st = Inr ready \<and>
    (\<forall>n. n \<in> set ready \<longleftrightarrow> n \<in> set nodes \<and> nd_status n = NPending \<and>
       (\<forall>p \<in> set (predecessors g (nd_node_name n)). \<exists>m \<in> set nodes. nd_node_name m = p \<and> nd_status m = NCompleted)) \<and>
    (sorts dl \<longrightarrow> (\<exists>order. topological_sort dl g = Inr order) \<longrightarrow> nd_node_name ` set nodes = set (g_nodes g) \<longrightarrow>
       (\<forall>n \<in> set nodes. nd_status n = NPending \<or> nd_status n = NCompleted) \<longrightarrow>
       (\<exists>n \<in> set nodes. nd_status n = NPending) \<longrightarrow> ready \<noteq> [])"
proof -
  have "get_ready_workflow_nodes dl ns i dag st = Inr (filter (is_ready g nodes) nodes)"
    by (simp add: get_ready_workflow_nodes_def compute_ready_nodes_def assms(1,2))
  moreover have "filter (is_ready g nodes) nodes \<noteq> []"
    if "sorts dl" "topological_sort dl g = Inr order" "nd_node_name ` set nodes = set (g_nodes g)"
      "\<forall>n \<in> set nodes. nd_status n = NPending \<or> nd_status n = NCompleted" "\<exists>n \<in> set nodes. nd_status n = NPending" for order
    using pending_progress [OF that(1,2) assms(3) that(3-5)] by (auto simp: filter_empty_conv)
  ultimately show ?thesis by (auto simp: is_ready_iff [OF assms(3)])
qed

section \<open>Submission order\<close>

lemma with_predecessors_eq:
  "distinct order \<Longrightarrow> with_predecessors m order = map (\<lambda>n. \<lparr>tn_name = n, tn_predecessors = unwrap_or (m n) []\<rparr>) order"
proof (induction order arbitrary: m)
  case (Cons n ns)
  then have "with_predecessors (m(n := None)) ns = map (\<lambda>x. \<lparr>tn_name = x, tn_predecessors = unwrap_or ((m(n := None)) x) []\<rparr>) ns"
    by simp
  also have "\<dots> = map (\<lambda>x. \<lparr>tn_name = x, tn_predecessors = unwrap_or (m x) []\<rparr>) ns" using Cons.prems by auto
  finally show ?case by simp
qed simp

lemma unwrap_predecessors: "unwrap_or (predecessor_map g n) [] = predecessors g n"
  by (auto simp: predecessor_map_eq unwrap_or_def predecessors_def no_edge)

text \<open>
  Jobs can be submitted in the order returned. The entries of a sorted graph carry each node
  once with exactly its direct predecessors, and every predecessor comes earlier, so each job's
  dependencies exist when it is enqueued; and each way the input can be bad is an error.
\<close>

lemma topological_order_correct:
  assumes "sorts dl"
  shows "case topological_order dl bytes of
      Inl e \<Rightarrow> from_utf8 bytes = None \<or> (\<exists>json. from_utf8 bytes = Some json \<and>
        (\<forall>g. graph_from_str dl json = Inr g \<longrightarrow> build_error dl g \<noteq> None \<or> (\<exists>m. topological_sort dl g = Inl m)))
    | Inr entries \<Rightarrow> \<exists>json g. from_utf8 bytes = Some json \<and> graph_from_str dl json = Inr g \<and>
        distinct (map tn_name entries) \<and> tn_name ` set entries = set (g_nodes g) \<and>
        (\<forall>k < length entries. tn_predecessors (entries ! k) = predecessors g (tn_name (entries ! k)) \<and>
           (\<forall>p \<in> set (tn_predecessors (entries ! k)). \<exists>l < k. tn_name (entries ! l) = p))"
proof (cases "topological_order dl bytes")
  case (Inl e)
  then show ?thesis by (auto simp: topological_order_def split: option.splits sum.splits)
next
  case (Inr entries)
  then obtain json g order where g: "from_utf8 bytes = Some json" "graph_from_str dl json = Inr g"
      "topological_sort dl g = Inr order" and en: "entries = with_predecessors (predecessor_map g) order"
    by (auto simp: topological_order_def split: option.splits sum.splits)
  have o: "distinct order" "set order = set (g_nodes g)" and
    fwd: "\<And>e. e \<in> set (g_edges g) \<Longrightarrow> \<exists>k j. k < j \<and> j < length order \<and> order ! k = fst e \<and> order ! j = snd e"
    using assms g(3) by (auto simp: sorts_def)
  have entries: "entries = map (\<lambda>n. \<lparr>tn_name = n, tn_predecessors = predecessors g n\<rparr>) order"
    using en with_predecessors_eq [OF o(1)] by (simp add: unwrap_predecessors)
  have "\<exists>l < k. order ! l = p" if k: "k < length order" and p: "p \<in> set (predecessors g (order ! k))" for k p
  proof -
    obtain e where e: "e \<in> set (g_edges g)" "fst e = p" "snd e = order ! k" using p by (auto simp: predecessors_def)
    with fwd obtain l j where "l < j" "j < length order" "order ! l = p" "order ! j = order ! k" by metis
    then show ?thesis using o(1) k by (auto simp: nth_eq_iff_index_eq)
  qed
  then have "\<forall>k < length entries. \<forall>p \<in> set (tn_predecessors (entries ! k)). \<exists>l < k. tn_name (entries ! l) = p"
    by (auto simp: entries) (metis (no_types, lifting) less_trans nth_map topological_node.select_convs(1))
  then show ?thesis using g o by (auto simp: Inr entries comp_def image_image)
qed

section \<open>Fan-in\<close>

text \<open>
  Calls that finalize one fan-out parent, from any threads; \<open>env i\<close> is what other operations
  commit before the \<open>i\<close>-th call.
\<close>

record finalize_call =
  fc_succeeded :: bool
  fc_error :: "string option"
  fc_completed_at :: int

fun finalize_all ::
    "nat \<Rightarrow> (nat \<Rightarrow> workflow_store \<Rightarrow> workflow_store) \<Rightarrow> string option \<Rightarrow> string \<Rightarrow> string \<Rightarrow> finalize_call list \<Rightarrow>
     workflow_store \<Rightarrow> bool list \<times> workflow_store" where
  "finalize_all i env ns run_id name [] st = ([], st)"
| "finalize_all i env ns run_id name (c # cs) st =
     (let (won, st1) = finalize_fan_out_parent ns run_id name (fc_succeeded c) (fc_error c) (fc_completed_at c) (env i st);
          (rest, st2) = finalize_all (Suc i) env ns run_id name cs st1
      in (won # rest, st2))"

definition node_at :: "string \<Rightarrow> string \<Rightarrow> workflow_store \<Rightarrow> node_row option" where
  "node_at run_id name st = find_row node_key (run_id, name) (wf_nodes st)"

definition finalized :: "finalize_call \<Rightarrow> node_row \<Rightarrow> node_row" where
  "finalized c r = (if fc_succeeded c then r\<lparr>nd_status := ''completed'', nd_completed_at := Some (fc_completed_at c)\<rparr>
     else r\<lparr>nd_status := ''failed'', nd_error := Some (unwrap_or (fc_error c) ''fan-out child failed'')\<rparr>)"

text \<open>What is assumed of the others: they leave this node, its run and the keys of the table alone.\<close>

definition spares_node :: "string option \<Rightarrow> string \<Rightarrow> string \<Rightarrow> (workflow_store \<Rightarrow> workflow_store) \<Rightarrow> bool" where
  "spares_node ns run_id name f \<longleftrightarrow> (\<forall>st. node_at run_id name (f st) = node_at run_id name st \<and>
     run_out_of_scope ns run_id (f st) = run_out_of_scope ns run_id st \<and> (workflows_ok st \<longrightarrow> workflows_ok (f st)))"

lemma finalize_one:
  assumes "workflows_ok st" "\<not> run_out_of_scope ns run_id st" "node_at run_id name st = Some r"
    "finalize_fan_out_parent ns run_id name (fc_succeeded c) (fc_error c) (fc_completed_at c) st = (won, st')"
  shows "won = fan_out_open r" "workflows_ok st'" "\<not> run_out_of_scope ns run_id st'"
    "node_at run_id name st' = Some (if fan_out_open r then finalized c r else r)"
proof -
  let ?P = "\<lambda>v. node_key v = (run_id, name) \<and> fan_out_open v"
  let ?f = "finalized c"
  have f: "?f = (if fc_succeeded c then (\<lambda>r. r\<lparr>nd_status := ''completed'', nd_completed_at := Some (fc_completed_at c)\<rparr>)
     else (\<lambda>r. r\<lparr>nd_status := ''failed'', nd_error := Some (unwrap_or (fc_error c) ''fan-out child failed'')\<rparr>))"
    by (auto simp: finalized_def)
  have st': "st' = st\<lparr>wf_nodes := update_where ?P ?f (wf_nodes st)\<rparr>" and won: "won \<longleftrightarrow> count_where ?P (wf_nodes st) \<noteq> 0"
    using assms(2,4) by (auto simp: finalize_fan_out_parent_def set_node_def Let_def f)
  have d: "distinct (map node_key (wf_nodes st))" using assms(1) by (simp add: workflows_ok_def)
  then have r: "v \<in> set (wf_nodes st) \<and> node_key v = (run_id, name) \<longleftrightarrow> v = r" for v
    using assms(3) find_row_Some_iff [OF d] by (metis node_at_def option.inject)
  show "won = fan_out_open r" unfolding won count_where_0_iff using r by metis
  have key: "node_key (?f v) = node_key v" for v by (simp add: finalized_def node_key_def)
  have "workflow_step ns st st'"
    using workflow_step.Finalize [of ns st run_id name "fc_succeeded c" "fc_error c" "fc_completed_at c"] assms(4) by simp
  then show "workflows_ok st'" using workflow_step_ok assms(1) by blast
  show "\<not> run_out_of_scope ns run_id st'" using assms(2) by (simp add: st' run_out_of_scope_def split: option.splits)
  have "distinct (map node_key (wf_nodes st'))" using d key by (simp add: st' map_key_update_where)
  moreover have "(if fan_out_open r then ?f r else r) \<in> set (wf_nodes st')"
    using r [of r] by (auto simp: st' update_where_def image_iff)
  ultimately show "node_at run_id name st' = Some (if fan_out_open r then ?f r else r)"
    unfolding node_at_def using r [of r] key by (subst find_row_Some_iff) auto
qed

lemma finalize_closed:
  assumes "\<And>i. spares_node ns run_id name (env i)"
  shows "workflows_ok st \<Longrightarrow> \<not> run_out_of_scope ns run_id st \<Longrightarrow> node_at run_id name st = Some r \<Longrightarrow> \<not> fan_out_open r \<Longrightarrow>
    fst (finalize_all i env ns run_id name cs st) = replicate (length cs) False \<and>
    node_at run_id name (snd (finalize_all i env ns run_id name cs st)) = Some r"
proof (induction cs arbitrary: i st)
  case (Cons c cs)
  have e: "workflows_ok (env i st)" "\<not> run_out_of_scope ns run_id (env i st)" "node_at run_id name (env i st) = Some r"
    using assms [of i] Cons.prems by (auto simp: spares_node_def)
  obtain won st1 where c: "finalize_fan_out_parent ns run_id name (fc_succeeded c) (fc_error c) (fc_completed_at c) (env i st) = (won, st1)"
    by fastforce
  note o = finalize_one [OF e c]
  have "node_at run_id name st1 = Some r" using o(4) Cons.prems(4) by simp
  from Cons.IH [OF o(2,3) this Cons.prems(4), of "Suc i"] o(1) Cons.prems(4) c show ?case
    by (simp add: Let_def case_prod_unfold)
qed simp

text \<open>
  C15: Fan-in happens exactly once. Of any number of calls that finalize one fan-out parent, in any
  interleaving with operations on other nodes, the first wins if the parent is open and no other
  does, and the parent keeps the outcome of the first; none wins once the parent is closed. Open is
  every status but completed, failed, skipped and cache_hit, so also the two compensation outcomes.
\<close>

theorem fan_in_exactly_once:
  assumes "workflows_ok st" "\<not> run_out_of_scope ns run_id st" "node_at run_id name st = Some r"
    "\<And>i. spares_node ns run_id name (env i)"
    "finalize_all 0 env ns run_id name (c # cs) st = (won, st')"
  shows "won = fan_out_open r # replicate (length cs) False \<and>
    node_at run_id name st' = Some (if fan_out_open r then finalized c r else r)"
proof -
  have e: "workflows_ok (env 0 st)" "\<not> run_out_of_scope ns run_id (env 0 st)" "node_at run_id name (env 0 st) = Some r"
    using assms(4) [of 0] assms(1-3) by (auto simp: spares_node_def)
  obtain w st1 where f: "finalize_fan_out_parent ns run_id name (fc_succeeded c) (fc_error c) (fc_completed_at c) (env 0 st) = (w, st1)"
    by fastforce
  note o = finalize_one [OF e f]
  let ?r = "if fan_out_open r then finalized c r else r"
  have closed: "\<not> fan_out_open ?r" by (simp add: fan_out_open_def finalized_def)
  from finalize_closed [OF assms(4) o(2,3,4) closed, where i = "Suc 0" and cs = cs] o(1) assms(5) f show ?thesis
    by (auto simp: Let_def case_prod_unfold)
qed

section \<open>Paging the runs\<close>

definition workflow_key :: "workflow_run \<Rightarrow> cursor_key" where
  "workflow_key w = (wf_created_at w, wf_id w)"

definition all_runs :: "string option \<Rightarrow> string option \<Rightarrow> workflow_state option \<Rightarrow> workflow_store \<Rightarrow> workflow_run list" where
  "all_runs ns name state st = map run_from_row (order_by (key_desc run_key) (runs_of ns name state st))"

definition dated_runs :: "workflow_store \<Rightarrow> bool" where
  "dated_runs st \<longleftrightarrow> workflows_ok st \<and> (\<forall>r \<in> set (wf_runs st). rr_created_at r < i64_max)"

lemma workflow_key_row [simp]: "workflow_key (run_from_row r) = run_key r"
  by (simp add: workflow_key_def run_key_def run_from_row_def)

lemma set_runs_of: "set (runs_of ns name state st) \<subseteq> set (wf_runs st)"
  by (auto simp: runs_of_def Let_def split: option.splits)

lemma distinct_joined:
  assumes "distinct (map rr_id rows)" "\<And>r. length (g r) \<le> Suc 0"
  shows "distinct (map rr_id (concat (map (\<lambda>r. map (\<lambda>_. r) (g r)) rows)))"
  using assms(1)
proof (induction rows)
  case (Cons r rows)
  have "distinct (map rr_id (map (\<lambda>_. r) (g r)))" using assms(2) [of r] by (cases "g r") auto
  with Cons show ?case by (auto simp: image_iff)
qed simp

lemma distinct_run_keys:
  assumes "workflows_ok st"
  shows "distinct (map run_key (runs_of ns name state st))"
proof -
  have one: "length (filter (\<lambda>d. wd_id d = i \<and> P d) ds) \<le> Suc 0" if "distinct (map wd_id ds)" for i P and ds :: "definition_row list"
  proof -
    have "i \<notin> wd_id ` set es \<Longrightarrow> filter (\<lambda>d. wd_id d = i \<and> P d) es = []" for es by (induction es) auto
    then show ?thesis using that by (induction ds) auto
  qed
  have ok: "distinct (map rr_id (wf_runs st))" "distinct (map wd_id (wf_definitions st))"
    using assms by (simp_all add: workflows_ok_def)
  have "distinct (map rr_id (filter P (concat (map (\<lambda>r. map (\<lambda>_. r) (filter (\<lambda>d. wd_id d = rr_definition_id r \<and> wd_name d = a)
      (wf_definitions st))) (wf_runs st)))))" for P a
    by (rule distinct_map_filter, rule distinct_joined [OF ok(1)], rule one [OF ok(2)])
  then have "distinct (map rr_id (runs_of ns name state st))"
    using ok(1) by (cases name) (simp_all add: runs_of_def Let_def distinct_map_filter)
  then have "distinct (map snd (map run_key (runs_of ns name state st)))" by (simp add: run_key_def comp_def)
  then show ?thesis by (rule distinct_map [THEN iffD1, THEN conjunct1])
qed

lemma list_runs_after_eq:
  assumes "dated_runs st" "0 < limit"
  shows "list_workflow_runs_after ns name state limit after st =
    take (nat limit) (filter (\<lambda>w. before_cursor after (workflow_key w)) (all_runs ns name state st))"
proof -
  let ?F = "runs_of ns name state st"
  let ?G = "filter (\<lambda>r. key_lt (run_key r) (unwrap_or after (i64_max, []))) ?F"
  have "order_by (key_desc run_key) ?G = filter (\<lambda>r. r \<in> set ?G) (order_by (key_desc run_key) ?F)"
    by (rule order_by_eq_filter)
      (use distinct_run_keys [of st ns name state] assms(1) order_by_newest_first in \<open>auto simp: dated_runs_def distinct_map_filter\<close>)
  also have "\<dots> = filter (\<lambda>r. before_cursor after (run_key r)) (order_by (key_desc run_key) ?F)"
  proof (rule filter_cong)
    fix r assume "r \<in> set (order_by (key_desc run_key) ?F)"
    then have r: "r \<in> set ?F" by simp
    then have "rr_created_at r < i64_max" using assms(1) set_runs_of [of ns name state st] by (auto simp: dated_runs_def)
    with r show "(r \<in> set ?G) = before_cursor after (run_key r)"
      by (cases after) (auto simp: before_cursor_def unwrap_or_def key_lt_def run_key_def)
  qed simp
  finally show ?thesis
    using assms(2) by (simp add: list_workflow_runs_after_def all_runs_def Let_def sql_limit_def filter_map comp_def take_map)
qed

interpretation run_pages: keyset_listing dated_runs
    "\<lambda>st limit after. list_workflow_runs_after ns name state limit after st" workflow_key "all_runs ns name state" for ns name state
proof
  fix st assume ok: "dated_runs st"
  show "newest_first workflow_key (all_runs ns name state st)"
    using order_by_newest_first [OF distinct_run_keys, of st ns name state] ok
    by (simp add: newest_first_def all_runs_def sorted_wrt_map dated_runs_def)
  show "0 < limit \<Longrightarrow> list_workflow_runs_after ns name state limit after st =
    take (nat limit) (filter (\<lambda>w. before_cursor after (workflow_key w)) (all_runs ns name state st))" for limit after
    by (rule list_runs_after_eq [OF ok])
qed

text \<open>
  Paging the runs is complete: following the cursors until a page comes back short lists every run
  that passes the filters exactly once, newest first, for any page size.
\<close>

lemma run_paging_complete:
  assumes "dated_runs st" "0 < limit" "\<And>w. w \<in> set (all_runs ns name state st) \<Longrightarrow> cursor_safe (workflow_key w)"
  shows "walk_pages (Suc (length (all_runs ns name state st))) (\<lambda>after. list_workflow_runs_after ns name state limit after st)
      limit workflow_key None = all_runs ns name state st \<and> newest_first workflow_key (all_runs ns name state st)"
  using run_pages.walk_all [OF assms(1,2), of ns name state None "Suc (length (all_runs ns name state st))"] assms(3)
    run_pages.every_sorted [OF assms(1)]
  by (simp add: before_cursor_def)

section \<open>Children of a fan-out\<close>

lemma like_prefix: "like (pre @ ''%'') (pre @ s)"
proof (induction pre)
  case Nil
  show ?case by (auto simp: list_ex_iff)
next
  case (Cons p pre)
  then show ?case by (auto simp: list_ex_iff suffix_Cons)
qed

text \<open>Without wildcards in the prefix the pattern is the prefix up to the case of letters.\<close>

lemma like_literal:
  assumes "CHR ''%'' \<notin> set pre" "CHR ''_'' \<notin> set pre"
  shows "like (pre @ ''%'') s \<longleftrightarrow> map ascii_lower (take (length pre) s) = map ascii_lower pre"
  using assms
proof (induction pre arbitrary: s)
  case Nil
  show ?case by (auto simp: list_ex_iff)
next
  case (Cons p pre)
  then show ?case by (cases s) auto
qed

text \<open>
  C40: The prefix query. It returns every node of the run whose name starts with the prefix; when the
  prefix has no percent sign and no underscore, also those that differ from it in the case of
  letters; and an underscore in the prefix matches any character, so a step can be given the
  children of another step.
\<close>

theorem prefix_query_overmatches:
  assumes "\<not> run_out_of_scope ns i st"
  shows "(\<forall>r \<in> set (wf_nodes st). nd_run_id r = i \<longrightarrow> starts_with (nd_node_name r) pre \<longrightarrow>
      node_from_row r \<in> set (get_workflow_nodes_by_prefix ns i pre st)) \<and>
    (CHR ''%'' \<notin> set pre \<longrightarrow> CHR ''_'' \<notin> set pre \<longrightarrow> set (get_workflow_nodes_by_prefix ns i pre st) =
      node_from_row ` {r \<in> set (wf_nodes st). nd_run_id r = i \<and>
        starts_with (map ascii_lower (nd_node_name r)) (map ascii_lower pre)}) \<and>
    (\<forall>r \<in> set (wf_nodes st). nd_run_id r = i \<longrightarrow> (\<exists>a c b. pre = a @ ''_'' @ b \<and> starts_with (nd_node_name r) (a @ [c] @ b)) \<longrightarrow>
      node_from_row r \<in> set (get_workflow_nodes_by_prefix ns i pre st))"
proof -
  have mem: "node_from_row r \<in> set (get_workflow_nodes_by_prefix ns i pre st)"
    if "r \<in> set (wf_nodes st)" "nd_run_id r = i" "like (pre @ ''%'') (nd_node_name r)" for r
    using assms that by (auto simp: get_workflow_nodes_by_prefix_def)
  have split: "starts_with x p \<Longrightarrow> x = p @ drop (length p) x" for x p
    unfolding starts_with_def by (metis append_take_drop_id)
  have wild: "like ((a @ ''_'' @ b) @ ''%'') ((a @ [c] @ b) @ x)" for a b c x
    using like_prefix [of b x] by (induction a) (auto simp: list_ex_iff suffix_Cons)
  have "set (get_workflow_nodes_by_prefix ns i pre st) = node_from_row ` {r \<in> set (wf_nodes st). nd_run_id r = i \<and>
      starts_with (map ascii_lower (nd_node_name r)) (map ascii_lower pre)}"
    if "CHR ''%'' \<notin> set pre" "CHR ''_'' \<notin> set pre"
    using assms by (auto simp: get_workflow_nodes_by_prefix_def like_literal [OF that] starts_with_def take_map)
  moreover have "like (pre @ ''%'') (nd_node_name r)" if "starts_with (nd_node_name r) pre" for r :: node_row
    using like_prefix [of pre] split [OF that] by metis
  moreover have "like (pre @ ''%'') (nd_node_name r)"
    if "pre = a @ ''_'' @ b" "starts_with (nd_node_name r) (a @ [c] @ b)" for r :: node_row and a b c
    using wild [of a b c] split [OF that(2)] that(1) by metis
  ultimately show ?thesis using mem by blast
qed

section \<open>Concrete runs\<close>

definition demo_run :: "string \<Rightarrow> string option \<Rightarrow> run_row" where
  "demo_run i ns = \<lparr>rr_id = i, rr_definition_id = ''d'', rr_params = None, rr_state = ''running'', rr_started_at = Some 1,
     rr_completed_at = None, rr_error = None, rr_parent_run_id = None, rr_parent_node_name = None, rr_created_at = 1,
     rr_namespace = ns\<rparr>"

definition demo_node :: "string \<Rightarrow> string \<Rightarrow> string \<Rightarrow> node_row" where
  "demo_node i name status = \<lparr>nd_id = i @ name, nd_run_id = i, nd_node_name = name, nd_job_id = None, nd_status = status,
     nd_result_hash = None, nd_fan_out_count = None, nd_fan_in_data = None, nd_started_at = None, nd_completed_at = None,
     nd_error = None, nd_compensation_job_id = None, nd_compensation_started_at = None, nd_compensation_completed_at = None,
     nd_compensation_error = None\<rparr>"

definition demo_store :: workflow_store where
  "demo_store = \<lparr>wf_definitions = [], wf_runs = [demo_run ''r'' (Some ''mine''), demo_run ''q'' (Some ''theirs'')],
     wf_nodes = [demo_node ''r'' ''a'' ''completed'', demo_node ''r'' ''b'' ''pending'', demo_node ''r'' ''my_step[0]'' ''running'',
       demo_node ''r'' ''my-step[0]'' ''running'', demo_node ''q'' ''a'' ''running'']\<rparr>"

definition demo_dag :: dag_lib where
  "demo_dag = \<lparr>utf8_error = (\<lambda>_. []), graph_from_str = (\<lambda>_. Inr \<lparr>g_nodes = [''b'', ''a''], g_edges = [(''a'', ''b'')]\<rparr>),
     build_error = (\<lambda>_. None),
     topological_sort = (\<lambda>g. if g = \<lparr>g_nodes = [''b'', ''a''], g_edges = [(''a'', ''b'')]\<rparr> then Inr [''a'', ''b''] else Inl ''cycle'')\<rparr>"

lemma demo_store_ok: "workflows_ok demo_store"
  by (simp add: workflows_ok_def demo_store_def demo_run_def demo_node_def node_key_def)

lemma demo_dag_sorts: "sorts demo_dag"
proof -
  have "\<exists>k j. k < j \<and> j < Suc (Suc 0) \<and> [''a'', ''b''] ! k = ''a'' \<and> [''a'', ''b''] ! j = ''b''"
    by (rule exI [of _ 0], rule exI [of _ 1]) simp
  then show ?thesis by (auto simp: sorts_def demo_dag_def split: if_splits)
qed

text \<open>Asked to fail a node of the other tenant's run, the scoped store changes nothing there.\<close>

theorem workflow_namespace_isolated_witness:
  "fst (set_workflow_node_error (Some ''mine'') ''q'' ''a'' ''x'' demo_store) \<noteq> Inr () \<and>
   foreign_nodes ''mine'' (snd (set_workflow_node_error (Some ''mine'') ''q'' ''a'' ''x'' demo_store)) = [demo_node ''q'' ''a'' ''running''] \<and>
   get_workflow_nodes (Some ''mine'') ''q'' demo_store = get_workflow_nodes (Some ''mine'') ''q'' (visible ''mine'' demo_store)"
proof -
  have "fst (set_workflow_node_error (Some ''mine'') ''q'' ''a'' ''x'' demo_store) \<noteq> Inr ()"
    "foreign_nodes ''mine'' demo_store = [demo_node ''q'' ''a'' ''running'']"
    by code_simp+
  then show ?thesis
    using workflow_namespace_isolated [OF demo_store_ok workflow_step.Node_Error [of "Some ''mine''" demo_store "''q''" "''a''" "''x''"],
        where i = "''q''"] by simp
qed

theorem ready_nodes_progress_witness:
  "\<exists>ready. get_ready_workflow_nodes demo_dag None ''r'' ''{}'' (demo_store\<lparr>wf_nodes := take 2 (wf_nodes demo_store)\<rparr>) = Inr ready \<and>
     map nd_node_name ready = [''b'']"
proof -
  let ?st = "demo_store\<lparr>wf_nodes := take 2 (wf_nodes demo_store)\<rparr>"
  have n: "map nd_node_name (get_workflow_nodes None ''r'' ?st) = [''a'', ''b'']"
    "map nd_status (get_workflow_nodes None ''r'' ?st) = [NCompleted, NPending]"
    "map_sum id (map nd_node_name) (get_ready_workflow_nodes demo_dag None ''r'' ''{}'' ?st) = Inr [''b'']"
    by code_simp+
  have g: "graph_from_str demo_dag ''{}'' = Inr \<lparr>g_nodes = [''b'', ''a''], g_edges = [(''a'', ''b'')]\<rparr>" by (simp add: demo_dag_def)
  have "distinct (map nd_node_name (get_workflow_nodes None ''r'' ?st))" using n(1) by simp
  from ready_nodes_progress [OF g refl this] n(3) show ?thesis by auto
qed

theorem fan_in_exactly_once_witness:
  "fst (finalize_all 0 (\<lambda>_ st. st) None ''r'' ''my_step[0]'' (replicate 3 \<lparr>fc_succeeded = True, fc_error = None, fc_completed_at = 9\<rparr>)
     demo_store) = [True, False, False]"
proof -
  let ?c = "\<lparr>fc_succeeded = True, fc_error = None, fc_completed_at = 9\<rparr>"
  have r: "node_at ''r'' ''my_step[0]'' demo_store = Some (demo_node ''r'' ''my_step[0]'' ''running'')" by code_simp
  have o: "fan_out_open (demo_node ''r'' ''my_step[0]'' ''running'')" by (simp add: fan_out_open_def demo_node_def)
  have s: "\<not> run_out_of_scope None ''r'' demo_store" by (simp add: run_out_of_scope_def)
  have e: "spares_node None ''r'' ''my_step[0]'' (\<lambda>st. st)" by (simp add: spares_node_def)
  obtain won st' where f: "finalize_all 0 (\<lambda>_ st. st) None ''r'' ''my_step[0]'' (?c # [?c, ?c]) demo_store = (won, st')" by fastforce
  from fan_in_exactly_once [OF demo_store_ok s r e f] o have "won = [True, False, False]" by simp
  with f show ?thesis by (simp add: numeral_3_eq_3 del: finalize_all.simps)
qed

theorem prefix_query_overmatches_witness:
  "node_from_row (demo_node ''r'' ''my-step[0]'' ''running'') \<in> set (get_workflow_nodes_by_prefix None ''r'' ''my_step['' demo_store)"
proof -
  have s: "\<not> run_out_of_scope None ''r'' demo_store" by (simp add: run_out_of_scope_def)
  have "\<exists>a c b. ''my_step['' = a @ ''_'' @ b \<and> starts_with (nd_node_name (demo_node ''r'' ''my-step[0]'' ''running'')) (a @ [c] @ b)"
    by (rule exI [of _ "''my''"], rule exI [of _ "CHR ''-''"], rule exI [of _ "''step[''"])
      (simp add: starts_with_def demo_node_def)
  then show ?thesis
    using prefix_query_overmatches [OF s, of "''my_step[''"] by (auto simp: demo_store_def demo_node_def)
qed

definition text_meta :: "string meta_lib" where
  "text_meta = \<lparr>meta_from_str = Inr, meta_to_string = Inr\<rparr>"

theorem workflow_store_roundtrip_witness:
  "get_workflow_run (Some ''mine'') ''new'' (snd (create_workflow_run (Some ''mine'')
     (run_from_row (demo_run ''new'' None)) demo_store)) = Some (run_from_row (demo_run ''new'' None))"
proof -
  have m: "meta_from_str text_meta t = Inr m" if "meta_to_string text_meta m = Inr t" for m t
    using that by (simp add: text_meta_def)
  have "create_workflow_run (Some ''mine'') (run_from_row (demo_run ''new'' None)) demo_store = (Inr (),
      snd (create_workflow_run (Some ''mine'') (run_from_row (demo_run ''new'' None)) demo_store))"
    "wf_id (run_from_row (demo_run ''new'' None)) = ''new''"
    by code_simp+
  with workflow_store_roundtrip [where ml = text_meta and ns = "Some ''mine''" and run = "run_from_row (demo_run ''new'' None)"
      and st = demo_store, OF m] show ?thesis by metis
qed

end
