(* ===== verification/Spec2Isabelle.thy ===== *)
theory Spec2Isabelle
  imports Runs Workflows
begin

text \<open>
  \<^bold>\<open>A verification library for the FlexiQ task queue.\<close>
  The development models the storage core of the crate \<open>flexiq-core\<close>.
\<close>

section \<open>Every reachable state\<close>

text \<open>What the job tables hold: rows whose status code is one of the codes of their table, and one row per id.\<close>

definition typed_tables :: "db \<Rightarrow> bool" where
  "typed_tables d \<longleftrightarrow>
     list_all (\<lambda>r. from_i32 (r_status r) = Some Pending \<or> from_i32 (r_status r) = Some Running) (jobs d) \<and>
     list_all (\<lambda>a. is_terminal_status (a_status a)) (archived_jobs d) \<and>
     distinct (map r_id (jobs d) @ map a_id (archived_jobs d)) \<and> distinct (map c_job_id (execution_claims d))"

lemma typed_tables_inv: "store_inv d \<Longrightarrow> typed_tables d"
  by (auto simp: typed_tables_def list_all_iff store_inv_def live_ok_def archive_ok_def live_ids_def archived_ids_def
      simp del: status_code.simps)

text \<open>
  C2: Well-typed tables. Whatever clients, workers, operators and schedulers commit, in any
  order and on any branch, a live job is Pending or Running, an archived job has ended, no id has two
  rows in the two tables together, every id in them was issued, a unique key has one live job, a job
  has one execution claim, and the keys of the topic, settings and periodic tables stay unique.
\<close>

theorem reachable_typed:
  assumes "cluster_ok seen cl" "run seen cl seen' cl'"
  shows "cluster_ok seen' cl' \<and> typed_tables (cl_db cl')"
  using run_ok [OF assms(2,1)] typed_tables_inv by (simp add: cluster_ok_def)

text \<open>
  C1: The cluster refines the abstract life of a job. In every reachable state each step takes
  each id along \<open>may_become\<close>: an unissued id may be issued, a live job stays live or ends with one
  archived row and is never lost, an archived row stays as it is or is purged, and a purged or
  rejected id never returns. In particular no step resurrects a job under its old id.
\<close>

theorem life_cycle_refined:
  assumes "cluster_ok seen cl" "run seen cl seen' cl'" "cluster_step new cl' cl''" "new \<inter> seen' = {}"
  shows "may_become (phase_of seen' cl' i) (phase_of (seen' \<union> new) cl'' i) \<and>
    (i \<in> live_ids (cl_db cl') \<longrightarrow> i \<in> live_ids (cl_db cl'') \<or> i \<in> archived_ids (cl_db cl''))"
proof -
  have ok: "cluster_ok seen' cl'" by (rule run_ok [OF assms(2,1)])
  from cluster_step_contract [OF ok assms(3,4)] step_phases [OF ok assms(3,4)] show ?thesis
    by (auto simp: keeps_store_def trims_store_def known_ids_def live_ids_def)
qed

text \<open>
  C3: A finished job is final. Once a job is archived, no run, however long, makes it live
  again or changes any column of its row: later it is found with the same row or, purged, not at all.
\<close>

theorem finished_jobs_are_final:
  assumes "cluster_ok seen cl" "run seen cl seen' cl'" "a \<in> set (archived_jobs (cl_db cl))"
  shows "a_id a \<notin> live_ids (cl_db cl') \<and> (\<forall>b \<in> set (archived_jobs (cl_db cl')). a_id b = a_id a \<longrightarrow> b = a)"
proof -
  have ok: "cluster_ok seen' cl'" by (rule run_ok [OF assms(2,1)])
  have "phase_of seen cl (a_id a) = Finished a" using assms(3) by (simp add: phase_of_iff [OF assms(1)])
  with run_phases [OF assms(2,1), of "a_id a"]
  have "phase_of seen' cl' (a_id a) = Finished a \<or> phase_of seen' cl' (a_id a) = Forgotten" by (simp add: final_phases)
  then show ?thesis
    using phase_of_iff [OF ok, of "a_id a"] by (metis phase.distinct(7) phase.distinct(9) phase.inject phase.simps(12))
qed


section \<open>A run\<close>

text \<open>A job is submitted, taken by a worker and completed.\<close>

definition start :: cluster where
  "start = demo_cluster empty_db"

definition submitted :: cluster where
  "submitted = set_cl_db (snd (enqueue no_json (uuid_from ''a'') 7 plain_job (cl_db start))) start"

definition taken :: cluster where
  "taken = set_cl_db (snd (dequeue_from [''default''] 8 None (\<lambda>_. None) (cl_db submitted))) submitted"

definition finished :: cluster where
  "finished = set_cl_db (snd (complete 9 ''a'' (Some [1]) None (cl_db taken))) taken"

lemma start_ok: "cluster_ok {} start"
  using topics_ok_demo
  by (simp add: cluster_ok_def start_def demo_cluster_def cl_db_def known_ids_def live_ids_def archived_ids_def side_tables_ok_def
      settings_ok_def periodic_ok_def demo_periodic_def)

lemma demo_runs: "run {} start {''a''} submitted" "run {} start {''a''} taken" "run {} start {''a''} finished"
proof -
  have a: "uuid_from ''a'' 0 = ''a''" by (simp add: uuid_from_def)
  show r1: "run {} start {''a''} submitted"
    using run_one [OF cluster_step.Store [OF store_step.Enqueue [of "uuid_from ''a''"]], of "{}" start no_json 7 plain_job]
    by (simp add: a submitted_def)
  show r2: "run {} start {''a''} taken"
    using run.Step [OF r1 cluster_step.Store [OF store_step.Dequeue]] by (simp add: taken_def del: dequeue_from.simps)
  show "run {} start {''a''} finished"
    using run.Step [OF r2 cluster_step.Store [OF store_step.Complete]] by (simp add: finished_def)
qed

theorem reachable_typed_witness:
  "typed_tables (cl_db submitted) \<and> status_of (cl_db submitted) ''a'' = Some Pending \<and>
   typed_tables (cl_db finished) \<and> status_of (cl_db finished) ''a'' = Some Complete"
proof -
  have "status_of (cl_db submitted) ''a'' = Some Pending" "status_of (cl_db finished) ''a'' = Some Complete" by code_simp+
  then show ?thesis using reachable_typed [OF start_ok demo_runs(1)] reachable_typed [OF start_ok demo_runs(3)] by simp
qed

theorem life_cycle_refined_witness:
  "phase_of {''a''} taken ''a'' = Active \<and> may_become (phase_of {''a''} taken ''a'') (phase_of {''a''} finished ''a'') \<and>
   ''a'' \<in> archived_ids (cl_db finished)"
proof -
  have s: "cluster_step {} taken finished" unfolding finished_def by (rule cluster_step.Store [OF store_step.Complete])
  have "''a'' \<in> live_ids (cl_db taken)" "''a'' \<in> archived_ids (cl_db finished)" "phase_of {''a''} taken ''a'' = Active"
    by code_simp+
  then show ?thesis using life_cycle_refined [OF start_ok demo_runs(2) s, of "''a''"] by simp
qed

theorem finished_jobs_are_final_witness:
  "map a_id (archived_jobs (cl_db finished)) = [''a''] \<and>
   ''a'' \<notin> live_ids (cl_db (set_cl_db (snd (retry ''a'' 20 None (cl_db finished))) finished)) \<and>
   archived_jobs (cl_db (set_cl_db (snd (retry ''a'' 20 None (cl_db finished))) finished)) = archived_jobs (cl_db finished)"
proof -
  let ?cl = "set_cl_db (snd (retry ''a'' 20 None (cl_db finished))) finished"
  have r: "run {''a''} finished {''a''} ?cl"
    using run_one [OF cluster_step.Store [OF store_step.Retry], of "{''a''}"] by simp
  have e: "map a_id (archived_jobs (cl_db finished)) = [''a'']" "archived_jobs (cl_db ?cl) = archived_jobs (cl_db finished)"
    by code_simp+
  then obtain a where a: "archived_jobs (cl_db finished) = [a]" "a_id a = ''a''" by auto
  have ok: "cluster_ok {''a''} finished" by (rule run_ok [OF demo_runs(3) start_ok])
  from finished_jobs_are_final [OF ok r, of a] a e show ?thesis by simp
qed

text \<open>One tick with every sweep but the clean-up due: the job submitted above is dispatched and the nightly task fires.\<close>

definition counted_hosts :: "string \<Rightarrow> nat \<Rightarrow> host" where
  "counted_hosts pre i = (tagged_host pre)\<lparr>ids := \<lambda>n. pre @ replicate i CHR ''i'' @ replicate n CHR ''n''\<rparr>"

definition demo_tick_host :: tick_host where
  "demo_tick_host = \<lparr>th_reap = tagged_host ''r'', th_reap_each = counted_hosts ''s'', th_rescue_each = counted_hosts ''t'',
     th_periodic_now = 100, th_periodic_each = counted_hosts ''p'', th_cleanup = tagged_host ''c'', th_dlq_now = 100,
     th_dlq_each = counted_hosts ''q'', th_stale = False\<rparr>"

definition demo_config :: scheduler_config where
  "demo_config = \<lparr>cf_reap_interval = 1, cf_periodic_check_interval = 1, cf_cleanup_interval = 2, cf_result_ttl_ms = None,
     cf_retention = None, cf_dlq_auto_retry_delay_ms = Some 0, cf_dlq_auto_retry_max = 3, cf_dlq_auto_retry_interval = 1\<rparr>"

definition demo_report :: "effective_retention doc_codec" where
  "demo_report = \<lparr>decode = (\<lambda>_. None), encode = (\<lambda>_. Inr ''report''),
     doc_default = \<lparr>ef_enabled = False, ef_defaulted = False, ef_namespace = [], ef_reported_at = 0, ef_windows = no_retention\<rparr>\<rparr>"

definition demo_ticked :: "bool \<times> tick_counters \<times> cluster" where
  "demo_ticked = tick no_json minute_cron demo_report id demo_host (\<lambda>_. demo_host) (\<lambda>_. demo_host) False 20 20 demo_tick_host
     demo_config demo_scheduler (\<lparr>tk_reap = 0, tk_periodic = 0, tk_cleanup = 0, tk_dlq_auto_retry = 0\<rparr>, submitted)"

text \<open>The counters over binary integers, so that a tick can be evaluated.\<close>

lemma bump_code [code]: "bump n = nat ((int n + 1) mod 4294967296)"
  by (simp add: bump_def nat_mod_distrib nat_add_distrib)

lemma demo_fresh_tick: "fresh_tick demo_tick_host {''a''}"
  by (auto simp: fresh_tick_def tick_ids_def new_ids_def demo_tick_host_def counted_hosts_def inj_def)


end
